(* ===== verification/GglPrelude.thy ===== *)
theory GglPrelude
  imports Main "HOL-Library.Word" "HOL-Library.Signed_Division"
begin

text \<open>
  The prelude of the development: the types that every component shares (bytes, buffers, error
  codes, results) and the generic lemmas on lists, results and memory that the component theories
  use.

  \<^item> \<open>byte\<close> and \<open>buffer\<close>: a \<^verbatim>\<open>GglBuffer\<close> is the list of the bytes it points to. Where a
    routine writes through a buffer, or reads a pointer that the compiler does not bound, the
    memory is an explicit list of bytes and the pointer an index into it.
  \<^item> \<open>GglError\<close>: the error codes of \<^verbatim>\<open>ggl-lib/include/ggl/error.h\<close>.
  \<^item> \<open>'a res\<close>: the result of a routine that returns a \<^verbatim>\<open>GglError\<close> and fills an output
    parameter: \<open>Ret x\<close> is \<^verbatim>\<open>GGL_ERR_OK\<close> with the output \<open>x\<close>, \<open>Fail e\<close> is the code \<open>e\<close>, and
    \<open>Abort\<close> is a failed \<^verbatim>\<open>assert\<close> or an access outside the memory the routine was given.
    That a routine never yields \<open>Abort\<close> is therefore a memory safety property.

  Logging calls have no effect on the state of the program and are left out throughout.
\<close>

section \<open>Bytes, sizes and error codes\<close>

type_synonym byte = "8 word"
type_synonym buffer = "byte list"
type_synonym u16 = "16 word"
type_synonym u32 = "32 word"
type_synonym u64 = "64 word"

text \<open>\<^verbatim>\<open>size_t\<close> is 64 bits wide; sizes are natural numbers and the wrap-around is written out.\<close>

definition SIZE_MAX :: nat where
  "SIZE_MAX = 2 ^ 64 - 1"

definition PTRDIFF_MAX :: nat where
  "PTRDIFF_MAX = 2 ^ 63 - 1"

definition size_add :: "nat \<Rightarrow> nat \<Rightarrow> nat" where
  "size_add a b = (a + b) mod 2 ^ 64"

definition size_sub :: "nat \<Rightarrow> nat \<Rightarrow> nat" where
  "size_sub a b = (a + 2 ^ 64 - b) mod 2 ^ 64"

definition size_mul :: "nat \<Rightarrow> nat \<Rightarrow> nat" where
  "size_mul a b = (a * b) mod 2 ^ 64"

definition UINT32_MAX :: nat where
  "UINT32_MAX = 2 ^ 32 - 1"

datatype GglError =
    GGL_ERR_OK
  | GGL_ERR_FAILURE
  | GGL_ERR_RETRY
  | GGL_ERR_BUSY
  | GGL_ERR_FATAL
  | GGL_ERR_INVALID
  | GGL_ERR_UNSUPPORTED
  | GGL_ERR_PARSE
  | GGL_ERR_RANGE
  | GGL_ERR_NOMEM
  | GGL_ERR_NOCONN
  | GGL_ERR_NODATA
  | GGL_ERR_NOENTRY
  | GGL_ERR_CONFIG
  | GGL_ERR_REMOTE
  | GGL_ERR_EXPECTED

text \<open>The numeric value C gives each enumerator: its position.\<close>

fun GglError_code :: "GglError \<Rightarrow> nat" where
  "GglError_code GGL_ERR_OK = 0"
| "GglError_code GGL_ERR_FAILURE = 1"
| "GglError_code GGL_ERR_RETRY = 2"
| "GglError_code GGL_ERR_BUSY = 3"
| "GglError_code GGL_ERR_FATAL = 4"
| "GglError_code GGL_ERR_INVALID = 5"
| "GglError_code GGL_ERR_UNSUPPORTED = 6"
| "GglError_code GGL_ERR_PARSE = 7"
| "GglError_code GGL_ERR_RANGE = 8"
| "GglError_code GGL_ERR_NOMEM = 9"
| "GglError_code GGL_ERR_NOCONN = 10"
| "GglError_code GGL_ERR_NODATA = 11"
| "GglError_code GGL_ERR_NOENTRY = 12"
| "GglError_code GGL_ERR_CONFIG = 13"
| "GglError_code GGL_ERR_REMOTE = 14"
| "GglError_code GGL_ERR_EXPECTED = 15"

lemma GglError_code_inject [simp]: "GglError_code a = GglError_code b \<longleftrightarrow> a = b"
  by (cases a; cases b; simp)

text \<open>The error codes are ordered as C compares them, by their enumerator value.\<close>

instantiation GglError :: linorder
begin

definition less_eq_GglError :: "GglError \<Rightarrow> GglError \<Rightarrow> bool" where
  "less_eq_GglError a b \<longleftrightarrow> GglError_code a \<le> GglError_code b"

definition less_GglError :: "GglError \<Rightarrow> GglError \<Rightarrow> bool" where
  "less_GglError a b \<longleftrightarrow> GglError_code a < GglError_code b"

instance
  by intro_classes (auto simp: less_eq_GglError_def less_GglError_def)

end

lemma size_sub_le [simp]:
  assumes "b \<le> a" "a \<le> SIZE_MAX"
  shows "size_sub a b = a - b"
proof -
  have eq: "a + 2 ^ 64 - b = (a - b) + 2 ^ 64" using assms(1) by linarith
  have "a - b < 2 ^ 64" using assms(2) by (simp add: SIZE_MAX_def)
  then show ?thesis unfolding size_sub_def eq by simp
qed

text \<open>A machine word is below two to its width.\<close>

lemma unat_u8_less: "unat (w :: byte) < 2 ^ 8"
  using unsigned_less [of w, where 'a = nat] by simp

lemma unat_u16_less: "unat (w :: u16) < 2 ^ 16"
  using unsigned_less [of w, where 'a = nat] by simp

lemma unat_u32_less: "unat (w :: u32) < 2 ^ 32"
  using unsigned_less [of w, where 'a = nat] by simp

lemma unat_u64_less: "unat (w :: u64) < 2 ^ 64"
  using unsigned_less [of w, where 'a = nat] by simp

text \<open>The bits of a byte and of the mask \<^verbatim>\<open>0xFF\<close>, for proofs that compare words bit by bit.\<close>

lemma byte_bit_high [simp]: "8 \<le> n \<Longrightarrow> \<not> bit (b :: byte) n"
  using bit_imp_le_length [of b n] by auto

lemma bit_0xFF_int [simp]: "bit (0xFF :: int) n \<longleftrightarrow> n < 8"
proof -
  have "(0xFF :: int) = mask 8" by (simp add: mask_eq_exp_minus_1)
  then show ?thesis by (simp only: bit_mask_iff) simp
qed

lemma bit_0xFF_nat [simp]: "bit (0xFF :: nat) n \<longleftrightarrow> n < 8"
proof -
  have "(0xFF :: nat) = mask 8" by (simp add: mask_eq_exp_minus_1)
  then show ?thesis by (simp only: bit_mask_iff) simp
qed

section \<open>Results\<close>

datatype 'a res = Ret 'a | Fail GglError | Abort

fun res_bind :: "'a res \<Rightarrow> ('a \<Rightarrow> 'b res) \<Rightarrow> 'b res" where
  "res_bind (Ret x) f = f x"
| "res_bind (Fail e) f = Fail e"
| "res_bind Abort f = Abort"

text \<open>\<open>res_guard b e\<close> is an early return of \<open>e\<close> unless \<open>b\<close> holds; \<open>res_assert b\<close> is an assertion.\<close>

definition res_guard :: "bool \<Rightarrow> GglError \<Rightarrow> unit res" where
  "res_guard b e = (if b then Ret () else Fail e)"

definition res_assert :: "bool \<Rightarrow> unit res" where
  "res_assert b = (if b then Ret () else Abort)"

fun is_Ret :: "'a res \<Rightarrow> bool" where
  "is_Ret (Ret _) = True"
| "is_Ret _ = False"

text \<open>The code a caller sees: \<^verbatim>\<open>GGL_ERR_OK\<close> for a result. An abort returns nothing.\<close>

fun res_code :: "'a res \<Rightarrow> GglError option" where
  "res_code (Ret _) = Some GGL_ERR_OK"
| "res_code (Fail e) = Some e"
| "res_code Abort = None"

named_theorems res_simps \<open>rewriting the result type\<close>

lemma res_bind_eq_Ret [res_simps]:
  "res_bind m f = Ret y \<longleftrightarrow> (\<exists>x. m = Ret x \<and> f x = Ret y)"
  by (cases m) auto

lemma res_bind_eq_Fail [res_simps]:
  "res_bind m f = Fail e \<longleftrightarrow> m = Fail e \<or> (\<exists>x. m = Ret x \<and> f x = Fail e)"
  by (cases m) auto

lemma res_bind_eq_Abort [res_simps]:
  "res_bind m f = Abort \<longleftrightarrow> m = Abort \<or> (\<exists>x. m = Ret x \<and> f x = Abort)"
  by (cases m) auto

lemma res_guard_eq [res_simps]:
  "res_guard b e = Ret u \<longleftrightarrow> b"
  "res_guard b e = Fail e' \<longleftrightarrow> \<not> b \<and> e' = e"
  "res_guard b e = Abort \<longleftrightarrow> False"
  by (auto simp: res_guard_def)

lemma res_assert_eq [res_simps]:
  "res_assert b = Ret u \<longleftrightarrow> b"
  "res_assert b = Fail e' \<longleftrightarrow> False"
  "res_assert b = Abort \<longleftrightarrow> \<not> b"
  by (auto simp: res_assert_def)

lemma res_guard_simps [simp]:
  "res_guard True e = Ret ()" "res_guard False e = Fail e"
  by (simp_all add: res_guard_def)

lemma res_assert_simps [simp]:
  "res_assert True = Ret ()" "res_assert False = Abort"
  by (simp_all add: res_assert_def)

lemma res_bind_cong [fundef_cong]:
  "m = m' \<Longrightarrow> (\<And>x. m' = Ret x \<Longrightarrow> f x = f' x) \<Longrightarrow> res_bind m f = res_bind m' f'"
  by (cases m') auto

lemma res_bind_assoc: "res_bind (res_bind m f) g = res_bind m (\<lambda>x. res_bind (f x) g)"
  by (cases m) auto

section \<open>Memory\<close>

text \<open>
  A block of memory is a list of bytes. \<open>write_at m i bs\<close> is \<^verbatim>\<open>memcpy(&m[i], bs, len)\<close>; it is
  used only where the routine has established that the range lies in the block.
\<close>

definition write_at :: "'a list \<Rightarrow> nat \<Rightarrow> 'a list \<Rightarrow> 'a list" where
  "write_at m i bs = take i m @ bs @ drop (i + length bs) m"

named_theorems mem_simps \<open>reading memory after a write\<close>

lemma length_write_at [simp, mem_simps]:
  "i + length bs \<le> length m \<Longrightarrow> length (write_at m i bs) = length m"
  by (simp add: write_at_def)

lemma take_write_at_le [mem_simps]:
  "j \<le> i \<Longrightarrow> i \<le> length m \<Longrightarrow> take j (write_at m i bs) = take j m"
  by (simp add: write_at_def min_def)

lemma take_write_at_end [mem_simps]:
  "i + length bs \<le> length m \<Longrightarrow> take (i + length bs) (write_at m i bs) = take i m @ bs"
  by (simp add: write_at_def)

lemma drop_write_at [mem_simps]:
  "i + length bs \<le> length m \<Longrightarrow> i + length bs \<le> j \<Longrightarrow> drop j (write_at m i bs) = drop j m"
  by (simp add: write_at_def)

lemma write_at_append [mem_simps]:
  "i + length (as @ bs) \<le> length m \<Longrightarrow>
   write_at (write_at m i as) (i + length as) bs = write_at m i (as @ bs)"
  by (simp add: write_at_def add.assoc add.commute [of "length bs"])

lemma write_at_middle:
  "length xs = i \<Longrightarrow> length bs = length ys \<Longrightarrow> write_at (xs @ ys @ zs) i bs = xs @ bs @ zs"
  by (simp add: write_at_def)

lemma write_at_suffix: "length xs = i \<Longrightarrow> write_at (xs @ ys) i bs = xs @ bs @ drop (length bs) ys"
  by (simp add: write_at_def)

lemma write_at_Nil [simp]: "i \<le> length m \<Longrightarrow> write_at m i [] = m"
  by (simp add: write_at_def)

section \<open>Lists\<close>

lemma take_drop_append_same [simp]: "take (length xs) (xs @ ys) = xs"
  by simp

lemma nth_take_drop_split:
  "i < length xs \<Longrightarrow> xs = take i xs @ xs ! i # drop (Suc i) xs"
  by (rule id_take_nth_drop)

lemma length_induct_drop:
  "0 < n \<Longrightarrow> xs \<noteq> [] \<Longrightarrow> length (drop n xs) < length xs"
  by (cases xs) auto

end
