(* ===== verification/GglBuffer.thy ===== *)
theory GglBuffer
  imports GglPrelude
begin

text \<open>
  Buffers: \<^verbatim>\<open>ggl-lib/src/buffer.c\<close>. A \<^verbatim>\<open>GglBuffer\<close> is the byte list it refers to. The searching
  and slicing routines are total on such lists; \<open>ggl_str_to_int64\<close> carries C's 64-bit overflow
  checks, with C's division, which truncates.
\<close>

section \<open>Comparison and slicing\<close>

definition ggl_buffer_eq :: "buffer \<Rightarrow> buffer \<Rightarrow> bool" where
  "ggl_buffer_eq buf1 buf2 =
     (if length buf1 = length buf2 then take (length buf1) buf1 = take (length buf1) buf2
      else False)"

definition ggl_buffer_has_prefix :: "buffer \<Rightarrow> buffer \<Rightarrow> bool" where
  "ggl_buffer_has_prefix buf prefix =
     (if length prefix \<le> length buf then take (length prefix) buf = prefix else False)"

definition ggl_buffer_has_suffix :: "buffer \<Rightarrow> buffer \<Rightarrow> bool" where
  "ggl_buffer_has_suffix buf suffix =
     (if length suffix \<le> length buf
      then take (length suffix) (drop (length buf - length suffix) buf) = suffix else False)"

text \<open>\<^verbatim>\<open>memmem\<close>: the first offset at which the needle occurs.\<close>

fun memmem_from :: "nat \<Rightarrow> buffer \<Rightarrow> buffer \<Rightarrow> nat option" where
  "memmem_from i [] needle = (if needle = [] then Some i else None)"
| "memmem_from i (b # bs) needle =
     (if take (length needle) (b # bs) = needle then Some i else memmem_from (Suc i) bs needle)"

definition ggl_buffer_contains :: "buffer \<Rightarrow> buffer \<Rightarrow> nat option" where
  "ggl_buffer_contains buf substring =
     (if length substring = 0 then Some 0 else memmem_from 0 buf substring)"

definition ggl_buffer_substr :: "buffer \<Rightarrow> nat \<Rightarrow> nat \<Rightarrow> buffer" where
  "ggl_buffer_substr buf start stop =
     (let start_trunc = (if start < length buf then start else length buf);
          end_trunc = (if stop < length buf then stop else length buf)
      in take (if end_trunc \<ge> start_trunc then end_trunc - start_trunc else 0)
           (drop start_trunc buf))"

text \<open>A buffer is an object of the machine, so its length is at most \<^verbatim>\<open>PTRDIFF_MAX\<close>.\<close>

definition fits :: "'a list \<Rightarrow> bool" where
  "fits b \<longleftrightarrow> length b \<le> PTRDIFF_MAX"

lemma ggl_buffer_eq_iff [simp]: "ggl_buffer_eq a b \<longleftrightarrow> a = b"
  by (auto simp: ggl_buffer_eq_def)

lemma ggl_buffer_has_prefix_iff: "ggl_buffer_has_prefix b p \<longleftrightarrow> (\<exists>r. b = p @ r)"
  by (auto simp: ggl_buffer_has_prefix_def) (metis append_take_drop_id)

lemma ggl_buffer_has_suffix_iff: "ggl_buffer_has_suffix b s \<longleftrightarrow> (\<exists>r. b = r @ s)"
  by (auto simp: ggl_buffer_has_suffix_def) (metis append_take_drop_id)

lemma ggl_buffer_substr_take_drop: "ggl_buffer_substr b i j = take (j - i) (drop i b)"
  by (auto simp: ggl_buffer_substr_def Let_def)

lemma ggl_buffer_substr_rest [simp]: "fits b \<Longrightarrow> ggl_buffer_substr b i SIZE_MAX = drop i b"
  by (simp add: ggl_buffer_substr_take_drop fits_def SIZE_MAX_def PTRDIFF_MAX_def)

lemma fits_drop [intro]: "fits b \<Longrightarrow> fits (drop i b)"
  by (simp add: fits_def)

lemma fits_take [intro]: "fits b \<Longrightarrow> fits (take i b)"
  by (simp add: fits_def)

lemma fits_append1: "fits (a @ b) \<Longrightarrow> fits a"
  and fits_append2: "fits (a @ b) \<Longrightarrow> fits b"
  and fits_Cons: "fits (x # a) \<Longrightarrow> fits a"
  by (simp_all add: fits_def)

lemma memmem_from_Some:
  "memmem_from i bs n = Some k \<Longrightarrow>
   i \<le> k \<and> take (length n) (drop (k - i) bs) = n \<and>
   (\<forall>j. i \<le> j \<and> j < k \<longrightarrow> take (length n) (drop (j - i) bs) \<noteq> n)"
proof (induction i bs n rule: memmem_from.induct)
  case (1 i n)
  then show ?case by (auto split: if_splits)
next
  case (2 i b bs n)
  show ?case
  proof (cases "take (length n) (b # bs) = n")
    case True
    with "2.prems" show ?thesis by auto
  next
    case False
    with "2.prems" have "memmem_from (Suc i) bs n = Some k" by simp
    with "2.IH" False have IH: "Suc i \<le> k" "take (length n) (drop (k - Suc i) bs) = n"
      "\<forall>j. Suc i \<le> j \<and> j < k \<longrightarrow> take (length n) (drop (j - Suc i) bs) \<noteq> n"
      by auto
    have "take (length n) (drop (j - i) (b # bs)) \<noteq> n" if "i \<le> j" "j < k" for j
    proof (cases "j = i")
      case True
      with False show ?thesis by simp
    next
      case ne: False
      with that have "Suc i \<le> j" "j - i = Suc (j - Suc i)" by auto
      with IH(3) that show ?thesis by simp
    qed
    moreover have "k - i = Suc (k - Suc i)" using IH(1) by simp
    ultimately show ?thesis using IH by auto
  qed
qed

lemma memmem_from_None:
  "memmem_from i bs n = None \<Longrightarrow> take (length n) (drop j bs) \<noteq> n"
proof (induction i bs n arbitrary: j rule: memmem_from.induct)
  case (1 i n)
  then show ?case by (auto split: if_splits)
next
  case (2 i b bs n)
  then show ?case by (cases j) (auto split: if_splits)
qed

section \<open>Parsing a 64-bit integer\<close>

definition INT64_MAX :: int where "INT64_MAX = 2 ^ 63 - 1"
definition INT64_MIN :: int where "INT64_MIN = - (2 ^ 63)"

definition mult_overflow_int64 :: "int \<Rightarrow> int \<Rightarrow> bool" where
  "mult_overflow_int64 a b =
     (if b = 0 then False
      else if b > 0 then a > INT64_MAX sdiv b \<or> a < INT64_MIN sdiv b
      else a < INT64_MAX sdiv b \<or> a > INT64_MIN sdiv b)"

definition add_overflow_int64 :: "int \<Rightarrow> int \<Rightarrow> bool" where
  "add_overflow_int64 a b = (if b > 0 then a > INT64_MAX - b else a < INT64_MIN - b)"

text \<open>The bytes of C character literals.\<close>

abbreviation (input) ch :: "char \<Rightarrow> byte" where
  "ch c \<equiv> of_char c"

fun str_to_int64_loop :: "int \<Rightarrow> int \<Rightarrow> buffer \<Rightarrow> int res" where
  "str_to_int64_loop sign ret [] = Ret ret"
| "str_to_int64_loop sign ret (c # cs) =
     (if c < ch CHR ''0'' \<or> c > ch CHR ''9'' then Fail GGL_ERR_INVALID
      else if mult_overflow_int64 ret 10 then Fail GGL_ERR_RANGE
      else let ret = ret * 10; d = sign * (uint c - uint (ch CHR ''0''))
        in if add_overflow_int64 ret d then Fail GGL_ERR_RANGE
           else str_to_int64_loop sign (ret + d) cs)"

definition ggl_str_to_int64 :: "buffer \<Rightarrow> int res" where
  "ggl_str_to_int64 str =
     (let neg = (length str \<ge> 1 \<and> str ! 0 = ch CHR ''-'');
          i = (if neg then 1 else 0);
          sign = (if neg then -1 else 1)
      in if i = length str then Fail GGL_ERR_INVALID
         else str_to_int64_loop sign 0 (drop i str))"

text \<open>
  The specification: an optional minus sign and at least one digit, read in base ten.
\<close>

definition digit_byte :: "byte \<Rightarrow> bool" where
  "digit_byte c \<longleftrightarrow> ch CHR ''0'' \<le> c \<and> c \<le> ch CHR ''9''"

definition digit_val :: "byte \<Rightarrow> int" where
  "digit_val c = uint c - 48"

definition dec_value :: "buffer \<Rightarrow> int" where
  "dec_value cs = foldl (\<lambda>a c. 10 * a + digit_val c) 0 cs"

definition int_literal :: "buffer \<Rightarrow> int option" where
  "int_literal s =
     (case s of
        [] \<Rightarrow> None
      | c # cs \<Rightarrow>
          if c = ch CHR ''-''
          then (if cs \<noteq> [] \<and> list_all digit_byte cs then Some (- dec_value cs) else None)
          else (if list_all digit_byte s then Some (dec_value s) else None))"

lemma mult_overflow_10: "mult_overflow_int64 a 10 \<longleftrightarrow> 10 * a < INT64_MIN \<or> 10 * a > INT64_MAX"
  by (auto simp: mult_overflow_int64_def INT64_MAX_def INT64_MIN_def)

lemma add_overflow_iff:
  "INT64_MIN \<le> a \<Longrightarrow> a \<le> INT64_MAX \<Longrightarrow>
   add_overflow_int64 a b \<longleftrightarrow> a + b < INT64_MIN \<or> a + b > INT64_MAX"
  by (auto simp: add_overflow_int64_def)

lemma digit_val_bounds: "digit_byte c \<Longrightarrow> 0 \<le> digit_val c \<and> digit_val c \<le> 9"
  by (simp add: digit_byte_def digit_val_def word_le_def)

lemma digit_byte_loop: "c < ch CHR ''0'' \<or> c > ch CHR ''9'' \<longleftrightarrow> \<not> digit_byte c"
  by (auto simp: digit_byte_def)

lemma digit_val_loop: "uint c - uint (ch CHR ''0'' :: byte) = digit_val c"
  by (simp add: digit_val_def)

definition dec_acc :: "int \<Rightarrow> int \<Rightarrow> buffer \<Rightarrow> int" where
  "dec_acc sign a cs = foldl (\<lambda>a c. a * 10 + sign * digit_val c) a cs"

lemma dec_acc_simps [simp]:
  "dec_acc sign a [] = a"
  "dec_acc sign a (c # cs) = dec_acc sign (a * 10 + sign * digit_val c) cs"
  by (simp_all add: dec_acc_def)

lemma dec_acc_sign: "dec_acc sign (sign * a) cs = sign * foldl (\<lambda>a c. 10 * a + digit_val c) a cs"
proof (induction cs arbitrary: a)
  case (Cons c cs)
  have "sign * a * 10 + sign * digit_val c = sign * (10 * a + digit_val c)"
    by (simp add: algebra_simps)
  with Cons show ?case by simp
qed simp

lemma dec_acc_0: "dec_acc sign 0 cs = sign * dec_value cs"
  using dec_acc_sign [of sign 0 cs] by (simp add: dec_value_def)

text \<open>Further digits move the accumulator away from zero.\<close>

lemma dec_acc_mono:
  assumes "list_all digit_byte cs" "sign = 1 \<or> sign = -1" "0 \<le> sign * a"
  shows "sign * a \<le> sign * dec_acc sign a cs"
  using assms
proof (induction cs arbitrary: a)
  case (Cons c cs)
  then have d: "0 \<le> digit_val c" by (simp add: digit_val_bounds)
  have "sign * (a * 10 + sign * digit_val c) = 10 * (sign * a) + digit_val c"
    using Cons.prems(2) by auto
  with d Cons.prems have "sign * a \<le> sign * (a * 10 + sign * digit_val c)"
    and "0 \<le> sign * (a * 10 + sign * digit_val c)" by auto
  with Cons show ?case by fastforce
qed simp

definition in_int64 :: "int \<Rightarrow> bool" where
  "in_int64 v \<longleftrightarrow> INT64_MIN \<le> v \<and> v \<le> INT64_MAX"

lemma dec_acc_out:
  assumes "list_all digit_byte cs" "sign = 1 \<or> sign = -1" "0 \<le> sign * a" "\<not> in_int64 a"
  shows "\<not> in_int64 (dec_acc sign a cs)"
  using dec_acc_mono [OF assms(1-3)] assms(2-4)
  by (auto simp: in_int64_def INT64_MIN_def INT64_MAX_def)

lemma str_to_int64_loop_digits:
  assumes "list_all digit_byte cs" "sign = 1 \<or> sign = -1" "0 \<le> sign * ret" "in_int64 ret"
  shows "str_to_int64_loop sign ret cs =
    (if in_int64 (dec_acc sign ret cs) then Ret (dec_acc sign ret cs) else Fail GGL_ERR_RANGE)"
  using assms
proof (induction cs arbitrary: ret)
  case Nil
  then show ?case by simp
next
  case (Cons c cs)
  let ?r = "ret * 10 + sign * digit_val c"
  from Cons.prems have d: "digit_byte c" "0 \<le> digit_val c" by (auto simp: digit_val_bounds)
  have s: "sign * ?r = 10 * (sign * ret) + digit_val c"
    using Cons.prems(2) by auto
  with d Cons.prems(3) have pos: "0 \<le> sign * ?r" by simp
  have m: "mult_overflow_int64 ret 10 \<longleftrightarrow> \<not> in_int64 (ret * 10)"
    by (auto simp: mult_overflow_10 in_int64_def)
  have a: "in_int64 (ret * 10) \<Longrightarrow>
      add_overflow_int64 (ret * 10) (sign * digit_val c) \<longleftrightarrow> \<not> in_int64 ?r"
    by (auto simp: add_overflow_iff in_int64_def)
  have loop: "str_to_int64_loop sign ret (c # cs) =
    (if \<not> in_int64 (ret * 10) then Fail GGL_ERR_RANGE
     else if \<not> in_int64 ?r then Fail GGL_ERR_RANGE
     else str_to_int64_loop sign ?r cs)"
    using d(1) m a by (simp add: digit_byte_def digit_val_def Let_def not_less [symmetric])
  show ?case
  proof (cases "in_int64 ?r")
    case True
    have "in_int64 (ret * 10)"
      using True Cons.prems(2,3) d by (auto simp: in_int64_def INT64_MIN_def INT64_MAX_def)
    then show ?thesis using loop True Cons.IH [of ?r] Cons.prems(1,2) pos by simp
  next
    case False
    with dec_acc_out [of cs sign ?r] Cons.prems(1,2) pos
    have "\<not> in_int64 (dec_acc sign ret (c # cs))" by simp
    then show ?thesis using loop False by simp
  qed
qed

lemma str_to_int64_loop_nondigit:
  "\<not> list_all digit_byte cs \<Longrightarrow> \<not> is_Ret (str_to_int64_loop sign ret cs)"
  by (induction cs arbitrary: ret) (auto simp: Let_def digit_byte_def)

lemma str_to_int64_loop_iff:
  assumes "sign = 1 \<or> sign = -1"
  shows "str_to_int64_loop sign 0 cs = Ret v \<longleftrightarrow>
     list_all digit_byte cs \<and> v = sign * dec_value cs \<and> in_int64 v"
proof (cases "list_all digit_byte cs")
  case True
  have "in_int64 0" by (simp add: in_int64_def INT64_MIN_def INT64_MAX_def)
  then show ?thesis
    using str_to_int64_loop_digits [OF True assms, of 0] True by (auto simp: dec_acc_0)
next
  case False
  then show ?thesis using str_to_int64_loop_nondigit [OF False, of sign 0]
    by (cases "str_to_int64_loop sign 0 cs") auto
qed

text \<open>\<open>ggl_str_to_int64\<close> accepts exactly the decimal integer literals whose value is representable
  in 64 bits, and returns that value.
\<close>

theorem ggl_str_to_int64_correct:
  "ggl_str_to_int64 s = Ret v \<longleftrightarrow>
   int_literal s = Some v \<and> INT64_MIN \<le> v \<and> v \<le> INT64_MAX"
  by (cases s)
     (auto simp: ggl_str_to_int64_def int_literal_def Let_def str_to_int64_loop_iff in_int64_def)

lemma ggl_str_to_int64_range:
  assumes "int_literal s = Some v" "\<not> in_int64 v"
  shows "ggl_str_to_int64 s = Fail GGL_ERR_RANGE"
proof -
  have "in_int64 0" by (simp add: in_int64_def INT64_MIN_def INT64_MAX_def)
  then show ?thesis using assms
    by (cases s)
       (auto simp: ggl_str_to_int64_def int_literal_def Let_def str_to_int64_loop_digits dec_acc_0
         simp del: str_to_int64_loop.simps dec_acc_simps split: if_splits)
qed

end
