(* ===== verification/GglAlloc.thy ===== *)
theory GglAlloc
  imports GglBuffer
begin

unbundle bit_operations_syntax

text \<open>
  The allocators: \<^verbatim>\<open>ggl-lib/src/bump_alloc.c\<close>, \<^verbatim>\<open>ggl-lib/src/arena.c\<close> and
  \<^verbatim>\<open>ggl-lib/include/ggl/arena.h\<close>, behind the interface of \<^verbatim>\<open>ggl-lib/include/ggl/alloc.h\<close>.

  The contract a client relies on is the locale \<open>region_allocator\<close>: an allocation lies between the
  old and the new high-water mark, inside the backing memory, at an aligned offset. The locale
  derives that any run of allocations yields pairwise disjoint regions. The bump allocator and the
  arena are its two interpretations.
\<close>

section \<open>The interface\<close>

locale region_allocator =
  fixes alloc :: "'s \<Rightarrow> nat \<Rightarrow> nat \<Rightarrow> (nat \<times> 's) option"
    and used :: "'s \<Rightarrow> nat"
    and cap :: "'s \<Rightarrow> nat"
    and inv :: "'s \<Rightarrow> bool"
    and req :: "nat \<Rightarrow> nat \<Rightarrow> bool"
  assumes inv_used: "inv s \<Longrightarrow> used s \<le> cap s"
    and alloc_region: "inv s \<Longrightarrow> req n a \<Longrightarrow> alloc s n a = Some (p, s') \<Longrightarrow>
          used s \<le> p \<and> p + n = used s'"
    and alloc_aligned: "inv s \<Longrightarrow> req n a \<Longrightarrow> alloc s n a = Some (p, s') \<Longrightarrow> p mod a = 0"
    and alloc_cap: "inv s \<Longrightarrow> req n a \<Longrightarrow> alloc s n a = Some (p, s') \<Longrightarrow> cap s' = cap s"
    and alloc_inv: "inv s \<Longrightarrow> req n a \<Longrightarrow> alloc s n a = Some (p, s') \<Longrightarrow> inv s'"
    and alloc_None: "inv s \<Longrightarrow> req n a \<Longrightarrow> alloc s n a = None \<Longrightarrow> cap s < used s + n + a"
begin

text \<open>A client that makes a list of requests, each a size and an alignment, and stops at the first
  that fails.\<close>

fun alloc_all :: "'s \<Rightarrow> (nat \<times> nat) list \<Rightarrow> (nat list \<times> 's) option" where
  "alloc_all s [] = Some ([], s)"
| "alloc_all s ((n, a) # rs) =
     (case alloc s n a of
        None \<Rightarrow> None
      | Some (p, s') \<Rightarrow>
          (case alloc_all s' rs of None \<Rightarrow> None | Some (ps, s'') \<Rightarrow> Some (p # ps, s'')))"

lemma alloc_all_inv:
  assumes "inv s" "list_all (\<lambda>(n, a). req n a) rs" "alloc_all s rs = Some (ps, s')"
  shows "inv s' \<and> used s \<le> used s' \<and> cap s' = cap s \<and> length ps = length rs"
  using assms
proof (induction rs arbitrary: s ps)
  case (Cons r rs)
  obtain n a where r: "r = (n, a)" by (cases r)
  from Cons.prems r obtain p t qs where
    t: "alloc s n a = Some (p, t)" and qs: "alloc_all t rs = Some (qs, s')" "ps = p # qs"
    by (auto split: option.splits prod.splits)
  from Cons.prems r have rq: "req n a" by simp
  note facts = alloc_region [OF Cons.prems(1) rq t] alloc_inv [OF Cons.prems(1) rq t]
    alloc_cap [OF Cons.prems(1) rq t]
  with Cons.IH [of t qs] Cons.prems(2) qs show ?case by auto
qed simp

lemma alloc_all_regions:
  assumes "inv s" "list_all (\<lambda>(n, a). req n a) rs" "alloc_all s rs = Some (ps, s')" "i < length rs"
  shows "used s \<le> ps ! i \<and> ps ! i + fst (rs ! i) \<le> used s' \<and> ps ! i mod snd (rs ! i) = 0"
  using assms
proof (induction rs arbitrary: s ps i)
  case (Cons r rs)
  obtain n a where r: "r = (n, a)" by (cases r)
  from Cons.prems r obtain p t qs where
    t: "alloc s n a = Some (p, t)" and qs: "alloc_all t rs = Some (qs, s')" "ps = p # qs"
    by (auto split: option.splits prod.splits)
  from Cons.prems r have rq: "req n a" by simp
  note facts = alloc_region [OF Cons.prems(1) rq t] alloc_inv [OF Cons.prems(1) rq t]
    alloc_aligned [OF Cons.prems(1) rq t]
  have rest: "used t \<le> used s'"
    using alloc_all_inv [of t rs qs s'] facts Cons.prems(2) qs by simp
  show ?case
  proof (cases i)
    case 0
    with facts rest qs r show ?thesis by simp
  next
    case (Suc j)
    with Cons.IH [of t qs j] facts Cons.prems(2,4) qs show ?thesis by force
  qed
qed simp

text \<open>Every region lies in the memory, and two regions of one run never overlap.\<close>

lemma alloc_all_disjoint:
  assumes "inv s" "list_all (\<lambda>(n, a). req n a) rs" "alloc_all s rs = Some (ps, s')"
    and "i < j" "j < length rs"
  shows "ps ! i + fst (rs ! i) \<le> ps ! j"
  using assms
proof (induction rs arbitrary: s ps i j)
  case (Cons r rs)
  obtain n a where r: "r = (n, a)" by (cases r)
  from Cons.prems r obtain p t qs where
    t: "alloc s n a = Some (p, t)" and qs: "alloc_all t rs = Some (qs, s')" "ps = p # qs"
    by (auto split: option.splits prod.splits)
  from Cons.prems r have rq: "req n a" by simp
  note facts = alloc_region [OF Cons.prems(1) rq t] alloc_inv [OF Cons.prems(1) rq t]
  from Cons.prems(4,5) obtain j' where j': "j = Suc j'" "j' < length rs" by (cases j) auto
  show ?case
  proof (cases i)
    case 0
    with facts alloc_all_regions [of t rs qs s' j'] Cons.prems(2) qs r j' show ?thesis by auto
  next
    case (Suc i')
    with Cons.IH [of t qs i' j'] facts Cons.prems(2,4) qs j' show ?thesis by simp
  qed
qed simp

end

section \<open>The bump allocator\<close>

text \<open>The backing buffer is its memory; the index is the offset of the first free byte.\<close>

record GglBumpAlloc =
  bump_buf :: buffer
  bump_index :: nat

definition ggl_bump_alloc_init :: "buffer \<Rightarrow> GglBumpAlloc" where
  "ggl_bump_alloc_init buf = \<lparr>bump_buf = buf, bump_index = 0\<rparr>"

text \<open>\<open>None\<close> is the null pointer; the offset of the allocation stands for its address.\<close>

definition bump_alloc_alloc :: "GglBumpAlloc \<Rightarrow> nat \<Rightarrow> nat \<Rightarrow> (nat \<times> GglBumpAlloc) option" where
  "bump_alloc_alloc ctx sz alignment =
     (let pad = (alignment - (bump_index ctx mod alignment)) mod alignment;
          idx = size_add (bump_index ctx) pad
      in if size_add idx sz > length (bump_buf ctx) then None
         else Some (idx, ctx\<lparr>bump_index := size_add idx sz\<rparr>))"

definition bump_inv :: "GglBumpAlloc \<Rightarrow> bool" where
  "bump_inv ctx \<longleftrightarrow> bump_index ctx \<le> length (bump_buf ctx) \<and> fits (bump_buf ctx)"

text \<open>A request that a caller can make without a wrap-around: a size that an object can have, and
  one of C's alignments.\<close>

definition bump_req :: "nat \<Rightarrow> nat \<Rightarrow> bool" where
  "bump_req n a \<longleftrightarrow> 0 < a \<and> n + a \<le> PTRDIFF_MAX"

lemma pad_aligned:
  assumes "0 < (a::nat)"
  shows "(i + (a - i mod a) mod a) mod a = 0"
proof (cases "i mod a = 0")
  case False
  then have "i + (a - i mod a) = i div a * a + a"
    using assms mod_less_divisor [OF assms, of i] div_mult_mod_eq [of i a] by linarith
  with False assms show ?thesis by (simp add: mod_less)
qed simp

lemma bump_alloc_cases:
  assumes "bump_inv s" "bump_req n a"
  shows "bump_alloc_alloc s n a =
    (let idx = bump_index s + (a - bump_index s mod a) mod a
     in if idx + n > length (bump_buf s) then None else Some (idx, s\<lparr>bump_index := idx + n\<rparr>))"
proof -
  have "(a - bump_index s mod a) mod a < a" using assms(2) by (simp add: bump_req_def)
  then have "bump_index s + (a - bump_index s mod a) mod a + n < 2 ^ 64"
    using assms by (simp add: bump_inv_def bump_req_def fits_def PTRDIFF_MAX_def)
  then show ?thesis by (simp add: bump_alloc_alloc_def Let_def size_add_def)
qed

interpretation bump: region_allocator bump_alloc_alloc bump_index "\<lambda>s. length (bump_buf s)"
  bump_inv bump_req
proof unfold_locales
  fix s :: GglBumpAlloc and n a p s'
  assume inv: "bump_inv s"
  show "bump_index s \<le> length (bump_buf s)" using inv by (simp add: bump_inv_def)
  assume req: "bump_req n a"
  { assume "bump_alloc_alloc s n a = None"
    moreover have "(a - bump_index s mod a) mod a < a" using req by (simp add: bump_req_def)
    ultimately show "length (bump_buf s) < bump_index s + n + a"
      using bump_alloc_cases [OF inv req] by (simp add: Let_def split: if_splits)
  }
  assume al: "bump_alloc_alloc s n a = Some (p, s')"
  note cases = bump_alloc_cases [OF inv req]
  show "bump_index s \<le> p \<and> p + n = bump_index s'"
    and "length (bump_buf s') = length (bump_buf s)" and "bump_inv s'"
    using cases al inv by (auto simp: Let_def bump_inv_def split: if_splits)
  show "p mod a = 0"
    using cases al req by (auto simp: Let_def bump_req_def pad_aligned split: if_splits)
qed

section \<open>The arena\<close>

text \<open>The backing memory starts at the address \<open>arena_MEM\<close>; capacity and index are 32 bits wide.\<close>

record GglArena =
  arena_MEM :: nat
  arena_CAPACITY :: u32
  arena_index :: u32

definition ggl_arena_init :: "nat \<Rightarrow> nat \<Rightarrow> GglArena" where
  "ggl_arena_init data len =
     \<lparr>arena_MEM = data,
      arena_CAPACITY = (if len \<le> UINT32_MAX then of_nat len else of_nat UINT32_MAX),
      arena_index = 0\<rparr>"

definition ggl_arena_alloc :: "GglArena \<Rightarrow> nat \<Rightarrow> nat \<Rightarrow> (nat option \<times> GglArena) res" where
  "ggl_arena_alloc arena sz alignment =
     res_bind (res_assert (alignment > 0 \<and> (alignment AND (alignment - 1)) = 0)) (\<lambda>_.
     res_bind (res_assert (alignment < UINT32_MAX)) (\<lambda>_.
     res_bind (res_assert (sz \<le> PTRDIFF_MAX)) (\<lambda>_.
       let align = (of_nat alignment :: u32);
           pad = (align - (arena_index arena AND (align - 1))) AND (align - 1)
       in if pad > arena_CAPACITY arena - arena_index arena then Ret (None, arena)
          else let idx = arena_index arena + pad
            in if sz > unat (arena_CAPACITY arena - idx) then Ret (None, arena)
               else Ret (Some (arena_MEM arena + unat idx),
                         arena\<lparr>arena_index := idx + of_nat sz\<rparr>))))"

definition ggl_arena_owns :: "GglArena \<Rightarrow> nat \<Rightarrow> bool" where
  "ggl_arena_owns arena ptr \<longleftrightarrow>
     ptr \<ge> arena_MEM arena \<and> ptr < arena_MEM arena + unat (arena_CAPACITY arena)"

definition ggl_arena_resize_last :: "GglArena \<Rightarrow> nat \<Rightarrow> nat \<Rightarrow> nat \<Rightarrow> GglArena res" where
  "ggl_arena_resize_last arena ptr old_size sz =
     res_bind (res_assert (old_size < UINT32_MAX)) (\<lambda>_.
     res_bind (res_assert (old_size \<le> PTRDIFF_MAX)) (\<lambda>_.
     res_bind (res_assert (sz \<le> PTRDIFF_MAX)) (\<lambda>_.
     res_bind (res_assert (ggl_arena_owns arena ptr)) (\<lambda>_.
       let idx = (of_nat (ptr - arena_MEM arena) :: u32)
       in res_bind (res_assert (\<not> idx > arena_index arena)) (\<lambda>_.
          res_bind (res_guard (unat (arena_index arena - idx) = old_size) GGL_ERR_INVALID) (\<lambda>_.
          res_bind (res_guard (\<not> sz > unat (arena_CAPACITY arena - idx)) GGL_ERR_NOMEM) (\<lambda>_.
            Ret (arena\<lparr>arena_index := idx + of_nat sz\<rparr>))))))))"

text \<open>The rest of the memory: its address and length, and the arena that is then full.\<close>

definition ggl_arena_alloc_rest :: "GglArena \<Rightarrow> (nat \<times> nat) \<times> GglArena" where
  "ggl_arena_alloc_rest arena =
     ((arena_MEM arena + unat (arena_index arena),
       unat (arena_CAPACITY arena - arena_index arena)),
      arena\<lparr>arena_index := arena_CAPACITY arena\<rparr>)"

definition arena_inv :: "GglArena \<Rightarrow> bool" where
  "arena_inv arena \<longleftrightarrow> arena_index arena \<le> arena_CAPACITY arena"

definition arena_req :: "nat \<Rightarrow> nat \<Rightarrow> bool" where
  "arena_req n a \<longleftrightarrow> (\<exists>k. a = 2 ^ k) \<and> a < UINT32_MAX \<and> n \<le> PTRDIFF_MAX"

text \<open>The arena as a region allocator: the offset of the allocation in the memory.\<close>

definition arena_alloc_offset :: "GglArena \<Rightarrow> nat \<Rightarrow> nat \<Rightarrow> (nat \<times> GglArena) option" where
  "arena_alloc_offset s n a =
     (case ggl_arena_alloc s n a of
        Ret (Some p, s') \<Rightarrow> Some (p - arena_MEM s, s')
      | _ \<Rightarrow> None)"

lemma pow2_and_pred: "(2 ^ k :: nat) AND (2 ^ k - 1) = 0"
proof -
  have "(2 ^ k :: nat) AND mask k = 0" by (simp flip: take_bit_eq_mask)
  then show ?thesis by (simp add: mask_eq_exp_minus_1)
qed

lemma arena_req_pow2:
  assumes "arena_req n a"
  obtains k where "a = 2 ^ k" "k < 32"
proof -
  from assms obtain k where k: "a = 2 ^ k" "(2 ^ k :: nat) < 2 ^ 32"
    by (auto simp: arena_req_def UINT32_MAX_def)
  then have "k < 32" by (metis power_less_imp_less_exp one_less_numeral_iff semiring_norm(76))
  with k that show thesis by blast
qed

lemma and_pow2_pred: "(w :: u32) AND (2 ^ k - 1) = take_bit k w"
  by (simp add: take_bit_eq_mask mask_eq_exp_minus_1)

lemma unat_take_bit_mod: "unat (take_bit k (w :: u32)) = unat w mod 2 ^ k"
  using unsigned_take_bit_eq [of k w, where 'a = nat] by (simp only: take_bit_eq_mod)

lemma unat_pow2: "k < 32 \<Longrightarrow> unat (2 ^ k :: u32) = 2 ^ k"
  by (simp add: unsigned_of_nat [of "2 ^ k", where 'b = 32, simplified] take_bit_nat_eq_self)

lemma arena_pad:
  fixes i :: u32
  assumes "k < 32"
  shows "unat ((2 ^ k - (i AND (2 ^ k - 1))) AND (2 ^ k - 1)) = (2 ^ k - unat i mod 2 ^ k) mod 2 ^ k"
proof -
  have "take_bit k i \<le> 2 ^ k"
    by (simp add: word_le_nat_alt unat_take_bit_mod unat_pow2 [OF assms] less_imp_le)
  then have "unat (2 ^ k - take_bit k i) = 2 ^ k - unat i mod 2 ^ k"
    by (simp add: unat_sub unat_pow2 [OF assms] unat_take_bit_mod)
  then show ?thesis by (simp add: and_pow2_pred unat_take_bit_mod)
qed


lemma arena_alloc_cases:
  assumes "arena_inv s" "arena_req n a"
  shows "ggl_arena_alloc s n a =
    (let idx = unat (arena_index s) + (a - unat (arena_index s) mod a) mod a
     in if idx + n > unat (arena_CAPACITY s) then Ret (None, s)
        else Ret (Some (arena_MEM s + idx), s\<lparr>arena_index := of_nat (idx + n)\<rparr>))"
proof -
  from arena_req_pow2 [OF assms(2)] obtain k where k: "a = 2 ^ k" "k < 32" by blast
  let ?pad = "(2 ^ k - (arena_index s AND (2 ^ k - 1))) AND (2 ^ k - 1) :: u32"
  let ?p = "(2 ^ k - unat (arena_index s) mod 2 ^ k) mod 2 ^ k :: nat"
  have le: "unat (arena_index s) \<le> unat (arena_CAPACITY s)"
    using assms(1) by (simp add: arena_inv_def word_le_nat_alt)
  have cap: "unat (arena_CAPACITY s) < 2 ^ 32" by (rule unat_u32_less)
  have pad: "unat ?pad = ?p" by (rule arena_pad [OF k(2)])
  have room: "?pad > arena_CAPACITY s - arena_index s \<longleftrightarrow>
      unat (arena_index s) + ?p > unat (arena_CAPACITY s)"
    using le assms(1) by (simp add: word_less_nat_alt unat_sub arena_inv_def pad) linarith
  have asserts: "a > 0 \<and> (a AND (a - 1)) = 0" "a < UINT32_MAX" "n \<le> PTRDIFF_MAX"
    using assms(2) pow2_and_pred [of k] k(1) by (auto simp: arena_req_def)
  show ?thesis
  proof (cases "unat (arena_index s) + ?p > unat (arena_CAPACITY s)")
    case True
    then show ?thesis using asserts room k(1) by (simp add: ggl_arena_alloc_def Let_def)
  next
    case False
    then have idx: "unat (arena_index s + ?pad) = unat (arena_index s) + ?p"
      using cap pad by (simp add: unat_word_ariths)
    with False have sub: "unat (arena_CAPACITY s - (arena_index s + ?pad)) =
        unat (arena_CAPACITY s) - (unat (arena_index s) + ?p)"
      by (subst unat_sub) (simp_all add: word_le_nat_alt)
    have wrd: "arena_index s + ?pad + of_nat n = of_nat (unat (arena_index s) + ?p + n)"
      using arg_cong [OF idx, of "of_nat :: nat \<Rightarrow> u32"] by (simp del: of_nat_add add: of_nat_add [of _ n])
    have "ggl_arena_alloc s n a =
      (if n > unat (arena_CAPACITY s - (arena_index s + ?pad)) then Ret (None, s)
       else Ret (Some (arena_MEM s + unat (arena_index s + ?pad)),
                 s\<lparr>arena_index := arena_index s + ?pad + of_nat n\<rparr>))"
      using asserts room False k(1) by (simp add: ggl_arena_alloc_def Let_def)
    then show ?thesis using False k(1) by (auto simp: sub idx wrd Let_def)
  qed
qed

lemma arena_alloc_offset_cases:
  assumes "arena_inv s" "arena_req n a"
  shows "arena_alloc_offset s n a =
    (let idx = unat (arena_index s) + (a - unat (arena_index s) mod a) mod a
     in if idx + n > unat (arena_CAPACITY s) then None
        else Some (idx, s\<lparr>arena_index := of_nat (idx + n)\<rparr>))"
  by (simp add: arena_alloc_offset_def arena_alloc_cases [OF assms] Let_def)

interpretation arena: region_allocator arena_alloc_offset "\<lambda>s. unat (arena_index s)"
  "\<lambda>s. unat (arena_CAPACITY s)" arena_inv arena_req
proof unfold_locales
  fix s :: GglArena and n a p s'
  assume inv: "arena_inv s"
  show "unat (arena_index s) \<le> unat (arena_CAPACITY s)"
    using inv by (simp add: arena_inv_def word_le_nat_alt)
  assume req: "arena_req n a"
  then have a: "0 < a" by (auto simp: arena_req_def)
  note cases = arena_alloc_offset_cases [OF inv req]
  { assume "arena_alloc_offset s n a = None"
    moreover have "(a - unat (arena_index s) mod a) mod a < a" using a by simp
    ultimately show "unat (arena_CAPACITY s) < unat (arena_index s) + n + a"
      using cases by (simp add: Let_def split: if_splits)
  }
  assume al: "arena_alloc_offset s n a = Some (p, s')"
  have cap: "unat (arena_CAPACITY s) < 2 ^ 32"
    by (rule unat_u32_less)
  from al cases have p: "p = unat (arena_index s) + (a - unat (arena_index s) mod a) mod a"
    "p + n \<le> unat (arena_CAPACITY s)" "s' = s\<lparr>arena_index := of_nat (p + n)\<rparr>"
    by (auto simp: Let_def split: if_splits)
  then have u: "unat (of_nat (p + n) :: u32) = p + n"
    using cap by (simp add: unat_of_nat del: of_nat_add)
  then show "unat (arena_index s) \<le> p \<and> p + n = unat (arena_index s')"
    using p by (simp del: of_nat_add)
  show "p mod a = 0" using p(1) pad_aligned [OF a] by simp
  show "unat (arena_CAPACITY s') = unat (arena_CAPACITY s)" using p(3) by simp
  show "arena_inv s'" using p u by (simp add: arena_inv_def word_le_nat_alt del: of_nat_add)
qed

section \<open>Properties\<close>

text \<open>
  C38: an arena allocation that succeeds lies between the old and the new index of the arena,
  inside its memory, and keeps the arena well-formed. Its offset from the start of that memory is a
  multiple of the alignment; the address is one if the memory itself starts at such a multiple, which
  the arena does not look at.
\<close>

theorem ggl_arena_alloc_sound:
  assumes "arena_inv s" "arena_req n a" "ggl_arena_alloc s n a = Ret (Some p, s')"
  shows "arena_MEM s + unat (arena_index s) \<le> p
    \<and> p + n = arena_MEM s + unat (arena_index s')
    \<and> p + n \<le> arena_MEM s + unat (arena_CAPACITY s)
    \<and> (p - arena_MEM s) mod a = 0 \<and> (arena_MEM s mod a = 0 \<longrightarrow> p mod a = 0)
    \<and> arena_inv s' \<and> arena_MEM s' = arena_MEM s \<and> arena_CAPACITY s' = arena_CAPACITY s"
proof -
  from assms(3) have off: "arena_alloc_offset s n a = Some (p - arena_MEM s, s')"
    by (simp add: arena_alloc_offset_def)
  have mem: "arena_MEM s \<le> p" "arena_MEM s' = arena_MEM s" "arena_CAPACITY s' = arena_CAPACITY s"
    using arena_alloc_cases [OF assms(1,2)] assms(3) by (auto simp: Let_def split: if_splits)
  note facts = arena.alloc_region [OF assms(1,2) off] arena.alloc_inv [OF assms(1,2) off]
    arena.alloc_aligned [OF assms(1,2) off]
  moreover have "p mod a = 0" if "arena_MEM s mod a = 0" "(p - arena_MEM s) mod a = 0"
    using that mem(1) by (metis dvd_diffD1 mod_eq_0_iff_dvd dvd_add le_add_diff_inverse)
  ultimately show ?thesis using mem arena.inv_used [of s'] by auto
qed

theorem ggl_arena_alloc_sound_witness:
  "ggl_arena_alloc \<lparr>arena_MEM = 4096, arena_CAPACITY = 64, arena_index = 5\<rparr> 16 8 =
     Ret (Some 4104, \<lparr>arena_MEM = 4096, arena_CAPACITY = 64, arena_index = 24\<rparr>)
   \<and> (4104 - 4096) mod 8 = (0::nat) \<and> 4104 mod 8 = (0::nat) \<and> 4104 + 16 \<le> 4096 + (64::nat)"
proof -
  let ?s = "\<lparr>arena_MEM = 4096, arena_CAPACITY = 64, arena_index = 5\<rparr>"
  let ?t = "\<lparr>arena_MEM = 4096, arena_CAPACITY = 64, arena_index = 24\<rparr>"
  have i: "arena_inv ?s" by (simp add: arena_inv_def)
  have "(8::nat) = 2 ^ 3" by simp
  then have r: "arena_req 16 8"
    unfolding arena_req_def UINT32_MAX_def PTRDIFF_MAX_def by (intro conjI exI [of _ 3]) simp_all
  have e: "ggl_arena_alloc ?s 16 8 = Ret (Some 4104, ?t)"
    by (simp add: arena_alloc_cases [OF i r] Let_def)
  show ?thesis using ggl_arena_alloc_sound [OF i r e] e by simp
qed

text \<open>The regions that a run of allocations from a bump allocator returns lie inside its buffer and
  do not overlap.
\<close>

theorem bump_alloc_disjoint:
  assumes "bump_inv s" "list_all (\<lambda>(n, a). bump_req n a) rs" "bump.alloc_all s rs = Some (ps, s')"
    and "i < j" "j < length rs"
  shows "ps ! i + fst (rs ! i) \<le> ps ! j \<and> ps ! j + fst (rs ! j) \<le> length (bump_buf s)"
proof -
  have "bump_inv s'" "length (bump_buf s') = length (bump_buf s)"
    using bump.alloc_all_inv [OF assms(1-3)] by auto
  then have "bump_index s' \<le> length (bump_buf s)" using bump.inv_used by metis
  with bump.alloc_all_regions [OF assms(1-3,5)] bump.alloc_all_disjoint [OF assms(1-5)]
  show ?thesis by simp
qed

theorem bump_alloc_disjoint_witness:
  "bump.alloc_all \<lparr>bump_buf = replicate 64 0, bump_index = 0\<rparr> [(5, 1), (24, 8)] =
     Some ([0, 8], \<lparr>bump_buf = replicate 64 0, bump_index = 32\<rparr>) \<and> 0 + 5 \<le> (8::nat)"
proof -
  let ?s = "\<lparr>bump_buf = replicate 64 0, bump_index = 0\<rparr>"
  let ?t = "\<lparr>bump_buf = replicate 64 0, bump_index = 32\<rparr>"
  have i: "bump_inv ?s" by (simp add: bump_inv_def fits_def PTRDIFF_MAX_def)
  have r: "list_all (\<lambda>(n, a). bump_req n a) [(5, 1), (24, 8)]"
    by (simp add: bump_req_def PTRDIFF_MAX_def)
  have e: "bump.alloc_all ?s [(5, 1), (24, 8)] = Some ([0, 8], ?t)"
    by (simp add: bump_alloc_alloc_def size_add_def Let_def)
  show ?thesis using bump_alloc_disjoint [OF i r e, of 0 1] e by simp
qed

text \<open>
  Outside the requests of \<open>bump_req\<close> the bound check of the bump allocator wraps around: a request of
  \<open>2 ^ 64 - i\<close> bytes at index \<open>i\<close> is granted and moves the index back to the start of the buffer.
\<close>

lemma bump_alloc_wraps:
  assumes "0 < bump_index s" "bump_index s < 2 ^ 64"
  shows "bump_alloc_alloc s (2 ^ 64 - bump_index s) 1 = Some (bump_index s, s\<lparr>bump_index := 0\<rparr>)"
  using assms by (simp add: bump_alloc_alloc_def size_add_def Let_def)

section \<open>Writing through the bump allocator\<close>

text \<open>\<open>bump_write\<close> is the idiom of the encoders: allocate unaligned bytes, give up with no memory left,
  otherwise copy into them. \<open>bump_put\<close> is what it amounts to.\<close>

definition bump_write :: "GglBumpAlloc \<Rightarrow> buffer \<Rightarrow> GglBumpAlloc res" where
  "bump_write ctx bs =
     (case bump_alloc_alloc ctx (length bs) 1 of
        None \<Rightarrow> Fail GGL_ERR_NOMEM
      | Some (p, ctx') \<Rightarrow> Ret (ctx'\<lparr>bump_buf := write_at (bump_buf ctx') p bs\<rparr>))"

definition bump_put :: "GglBumpAlloc \<Rightarrow> buffer \<Rightarrow> GglBumpAlloc res" where
  "bump_put ctx bs =
     (if bump_index ctx + length bs \<le> length (bump_buf ctx)
      then Ret \<lparr>bump_buf = write_at (bump_buf ctx) (bump_index ctx) bs,
                bump_index = bump_index ctx + length bs\<rparr>
      else Fail GGL_ERR_NOMEM)"

lemma bump_write_put:
  assumes "bump_inv ctx" "length bs < PTRDIFF_MAX"
  shows "bump_write ctx bs = bump_put ctx bs"
proof -
  have "bump_req (length bs) 1"
    using assms(2) by (simp add: bump_req_def)
  then show ?thesis
    using bump_alloc_cases [OF assms(1), of "length bs" 1] by (simp add: bump_write_def bump_put_def Let_def)
qed

lemma bump_put_inv: "bump_inv ctx \<Longrightarrow> bump_put ctx bs = Ret ctx' \<Longrightarrow> bump_inv ctx'"
  by (auto simp: bump_put_def bump_inv_def fits_def split: if_splits)

lemma bump_put_put: "res_bind (bump_put ctx a) (\<lambda>c. bump_put c b) = bump_put ctx (a @ b)"
  by (auto simp: bump_put_def add.assoc write_at_append)

end
