(* ===== verification/GglObject.thy ===== *)
theory GglObject
  imports GglAlloc
begin

text \<open>
  Generic objects and their containers: \<^verbatim>\<open>ggl-lib/include/ggl/object.h\<close>, \<^verbatim>\<open>ggl-lib/src/map.c\<close>,
  \<^verbatim>\<open>ggl-lib/src/list.c\<close> and \<^verbatim>\<open>ggl-lib/src/vector.c\<close>.

  A \<^verbatim>\<open>GglObject\<close> is a value of the datatype \<open>GglObject\<close>; a map is the list of its pairs in order,
  duplicates included, because that is what \<open>ggl_map_get\<close> walks. A 64-bit float is its bit pattern.
  The four vector types of the source have the same shape, a list and a capacity, and are instances
  of \<open>'a vec\<close>. What a client relies on when it appends to a vector is the locale
  \<open>bounded_append\<close>.
\<close>

section \<open>Objects\<close>

datatype GglObjectType =
    GGL_TYPE_NULL
  | GGL_TYPE_BOOLEAN
  | GGL_TYPE_I64
  | GGL_TYPE_F64
  | GGL_TYPE_BUF
  | GGL_TYPE_LIST
  | GGL_TYPE_MAP

datatype GglObject =
    OBJ_NULL
  | OBJ_BOOL bool
  | OBJ_I64 u64
  | OBJ_F64 u64
  | OBJ_BUF buffer
  | OBJ_LIST "GglObject list"
  | OBJ_MAP "(buffer \<times> GglObject) list"

type_synonym GglList = "GglObject list"
type_synonym GglKV = "buffer \<times> GglObject"
type_synonym GglMap = "GglKV list"

fun obj_type :: "GglObject \<Rightarrow> GglObjectType" where
  "obj_type OBJ_NULL = GGL_TYPE_NULL"
| "obj_type (OBJ_BOOL _) = GGL_TYPE_BOOLEAN"
| "obj_type (OBJ_I64 _) = GGL_TYPE_I64"
| "obj_type (OBJ_F64 _) = GGL_TYPE_F64"
| "obj_type (OBJ_BUF _) = GGL_TYPE_BUF"
| "obj_type (OBJ_LIST _) = GGL_TYPE_LIST"
| "obj_type (OBJ_MAP _) = GGL_TYPE_MAP"

text \<open>The numeric value of the tag, which the bus encoding writes.\<close>

fun type_code :: "GglObjectType \<Rightarrow> byte" where
  "type_code GGL_TYPE_NULL = 0"
| "type_code GGL_TYPE_BOOLEAN = 1"
| "type_code GGL_TYPE_I64 = 2"
| "type_code GGL_TYPE_F64 = 3"
| "type_code GGL_TYPE_BUF = 4"
| "type_code GGL_TYPE_LIST = 5"
| "type_code GGL_TYPE_MAP = 6"

lemma obj_type_BUF [simp]: "obj_type v = GGL_TYPE_BUF \<longleftrightarrow> (\<exists>b. v = OBJ_BUF b)"
  and obj_type_LIST [simp]: "obj_type v = GGL_TYPE_LIST \<longleftrightarrow> (\<exists>l. v = OBJ_LIST l)"
  and obj_type_MAP [simp]: "obj_type v = GGL_TYPE_MAP \<longleftrightarrow> (\<exists>m. v = OBJ_MAP m)"
  and obj_type_I64 [simp]: "obj_type v = GGL_TYPE_I64 \<longleftrightarrow> (\<exists>i. v = OBJ_I64 i)"
  by (cases v; simp)+

text \<open>The bytes of a C string literal.\<close>

definition GGL_STR :: "string \<Rightarrow> buffer" where
  "GGL_STR s = map of_char s"

section \<open>Maps and lists\<close>

fun ggl_map_get :: "GglMap \<Rightarrow> buffer \<Rightarrow> GglObject option" where
  "ggl_map_get [] key = None"
| "ggl_map_get ((k, v) # rest) key =
     (if ggl_buffer_eq key k then Some v else ggl_map_get rest key)"

lemma ggl_map_get_map_of: "ggl_map_get m k = map_of m k"
  by (induction m) auto

record GglMapSchemaEntry =
  entry_key :: buffer
  entry_required :: bool
  entry_type :: GglObjectType

text \<open>The values that \<^verbatim>\<open>*entry->value\<close> is set to, in the order of the schema; \<open>None\<close> is \<^verbatim>\<open>NULL\<close>.\<close>

fun ggl_map_validate :: "GglMap \<Rightarrow> GglMapSchemaEntry list \<Rightarrow> GglObject option list res" where
  "ggl_map_validate m [] = Ret []"
| "ggl_map_validate m (entry # entries) =
     (case ggl_map_get m (entry_key entry) of
        None \<Rightarrow>
          if entry_required entry then Fail GGL_ERR_NOENTRY
          else res_bind (ggl_map_validate m entries) (\<lambda>vs. Ret (None # vs))
      | Some v \<Rightarrow>
          if entry_type entry \<noteq> GGL_TYPE_NULL \<and> entry_type entry \<noteq> obj_type v
          then Fail GGL_ERR_PARSE
          else res_bind (ggl_map_validate m entries) (\<lambda>vs. Ret (Some v # vs)))"

text \<open>What a schema entry asks of the map.\<close>

definition entry_ok :: "GglMap \<Rightarrow> GglMapSchemaEntry \<Rightarrow> bool" where
  "entry_ok m e =
     (case map_of m (entry_key e) of
        None \<Rightarrow> \<not> entry_required e
      | Some v \<Rightarrow> entry_type e = GGL_TYPE_NULL \<or> obj_type v = entry_type e)"

lemma ggl_map_validate_Ret:
  "ggl_map_validate m es = Ret vs \<longleftrightarrow>
   list_all (entry_ok m) es \<and> vs = map (\<lambda>e. map_of m (entry_key e)) es"
proof (induction es arbitrary: vs)
  case (Cons e es)
  show ?case
  proof (cases "map_of m (entry_key e)")
    case None
    then show ?thesis by (auto simp: entry_ok_def ggl_map_get_map_of res_simps Cons.IH)
  next
    case (Some v)
    then have "ggl_map_validate m (e # es) = Ret vs \<longleftrightarrow>
        entry_ok m e \<and> (\<exists>ws. ggl_map_validate m es = Ret ws \<and> vs = Some v # ws)"
      by (simp add: entry_ok_def ggl_map_get_map_of res_simps) metis
    with Some show ?thesis by (auto simp: Cons.IH)
  qed
qed auto

lemma ggl_map_validate_not_Abort [simp]: "ggl_map_validate m es \<noteq> Abort"
  by (induction es) (simp_all add: res_simps split: option.split)

fun ggl_list_type_check :: "GglList \<Rightarrow> GglObjectType \<Rightarrow> GglError" where
  "ggl_list_type_check [] ty = GGL_ERR_OK"
| "ggl_list_type_check (elem # rest) ty =
     (if obj_type elem \<noteq> ty then GGL_ERR_PARSE else ggl_list_type_check rest ty)"

lemma ggl_list_type_check_OK:
  "ggl_list_type_check l ty = GGL_ERR_OK \<longleftrightarrow> list_all (\<lambda>v. obj_type v = ty) l"
  by (induction l) auto

section \<open>Vectors\<close>

record 'a vec =
  vec_items :: "'a list"
  vec_capacity :: nat

type_synonym GglObjVec = "GglObject vec"
type_synonym GglKVVec = "GglKV vec"
type_synonym GglByteVec = "byte vec"
type_synonym GglBufVec = "buffer vec"

definition vec_inv :: "'a vec \<Rightarrow> bool" where
  "vec_inv v \<longleftrightarrow> length (vec_items v) \<le> vec_capacity v \<and> vec_capacity v \<le> PTRDIFF_MAX"

text \<open>The body that the four push routines share, and the one the two append routines share.\<close>

definition vec_push :: "'a vec \<Rightarrow> 'a \<Rightarrow> GglError \<times> 'a vec" where
  "vec_push v x =
     (if length (vec_items v) \<ge> vec_capacity v then (GGL_ERR_NOMEM, v)
      else (GGL_ERR_OK, v\<lparr>vec_items := vec_items v @ [x]\<rparr>))"

definition vec_append :: "'a vec \<Rightarrow> 'a list \<Rightarrow> GglError \<times> 'a vec" where
  "vec_append v xs =
     (if size_sub (vec_capacity v) (length (vec_items v)) < length xs then (GGL_ERR_NOMEM, v)
      else (GGL_ERR_OK, v\<lparr>vec_items := vec_items v @ xs\<rparr>))"

text \<open>The chained variants do nothing once the error is set.\<close>

definition vec_chain :: "(GglError \<times> 'a vec) \<Rightarrow> ('a vec \<Rightarrow> GglError \<times> 'a vec) \<Rightarrow> GglError \<times> 'a vec"
  where "vec_chain s f = (case s of (err, v) \<Rightarrow> if err = GGL_ERR_OK then f v else (err, v))"

definition ggl_obj_vec_push :: "GglObjVec \<Rightarrow> GglObject \<Rightarrow> GglError \<times> GglObjVec" where
  "ggl_obj_vec_push v obj = vec_push v obj"

definition ggl_obj_vec_chain_push :: "GglError \<times> GglObjVec \<Rightarrow> GglObject \<Rightarrow> GglError \<times> GglObjVec" where
  "ggl_obj_vec_chain_push s obj = vec_chain s (\<lambda>v. ggl_obj_vec_push v obj)"

definition ggl_obj_vec_pop :: "GglObjVec \<Rightarrow> (GglObject \<times> GglObjVec) res" where
  "ggl_obj_vec_pop v =
     (if length (vec_items v) = 0 then Fail GGL_ERR_RANGE
      else Ret (vec_items v ! (length (vec_items v) - 1),
                v\<lparr>vec_items := take (length (vec_items v) - 1) (vec_items v)\<rparr>))"

definition ggl_obj_vec_append :: "GglObjVec \<Rightarrow> GglList \<Rightarrow> GglError \<times> GglObjVec" where
  "ggl_obj_vec_append v l = vec_append v l"

definition ggl_obj_vec_chain_append :: "GglError \<times> GglObjVec \<Rightarrow> GglList \<Rightarrow> GglError \<times> GglObjVec" where
  "ggl_obj_vec_chain_append s l = vec_chain s (\<lambda>v. ggl_obj_vec_append v l)"

definition ggl_kv_vec_push :: "GglKVVec \<Rightarrow> GglKV \<Rightarrow> GglError \<times> GglKVVec" where
  "ggl_kv_vec_push v kv = vec_push v kv"

definition ggl_byte_vec_init :: "nat \<Rightarrow> GglByteVec" where
  "ggl_byte_vec_init len = \<lparr>vec_items = [], vec_capacity = len\<rparr>"

definition ggl_byte_vec_push :: "GglByteVec \<Rightarrow> byte \<Rightarrow> GglError \<times> GglByteVec" where
  "ggl_byte_vec_push v b = vec_push v b"

definition ggl_byte_vec_chain_push :: "GglError \<times> GglByteVec \<Rightarrow> byte \<Rightarrow> GglError \<times> GglByteVec" where
  "ggl_byte_vec_chain_push s b = vec_chain s (\<lambda>v. ggl_byte_vec_push v b)"

definition ggl_byte_vec_append :: "GglByteVec \<Rightarrow> buffer \<Rightarrow> GglError \<times> GglByteVec" where
  "ggl_byte_vec_append v b = vec_append v b"

definition ggl_byte_vec_chain_append :: "GglError \<times> GglByteVec \<Rightarrow> buffer \<Rightarrow> GglError \<times> GglByteVec" where
  "ggl_byte_vec_chain_append s b = vec_chain s (\<lambda>v. ggl_byte_vec_append v b)"

text \<open>The length of the free space that follows the content.\<close>

definition ggl_byte_vec_remaining_capacity :: "GglByteVec \<Rightarrow> nat" where
  "ggl_byte_vec_remaining_capacity v = size_sub (vec_capacity v) (length (vec_items v))"

definition ggl_buf_vec_push :: "GglBufVec \<Rightarrow> buffer \<Rightarrow> GglError \<times> GglBufVec" where
  "ggl_buf_vec_push v b = vec_push v b"

definition ggl_buf_vec_chain_push :: "GglError \<times> GglBufVec \<Rightarrow> buffer \<Rightarrow> GglError \<times> GglBufVec" where
  "ggl_buf_vec_chain_push s b = vec_chain s (\<lambda>v. ggl_buf_vec_push v b)"

fun ggl_buf_vec_append_list :: "GglBufVec \<Rightarrow> GglList \<Rightarrow> GglError \<times> GglBufVec" where
  "ggl_buf_vec_append_list v [] = (GGL_ERR_OK, v)"
| "ggl_buf_vec_append_list v (item # rest) =
     (case item of
        OBJ_BUF b \<Rightarrow>
          (case ggl_buf_vec_push v b of
             (ret, v') \<Rightarrow> if ret \<noteq> GGL_ERR_OK then (ret, v') else ggl_buf_vec_append_list v' rest)
      | _ \<Rightarrow> (GGL_ERR_INVALID, v))"

definition ggl_buf_vec_chain_append_list :: "GglError \<times> GglBufVec \<Rightarrow> GglList \<Rightarrow> GglError \<times> GglBufVec" where
  "ggl_buf_vec_chain_append_list s l = vec_chain s (\<lambda>v. ggl_buf_vec_append_list v l)"

lemmas vec_defs =
  vec_push_def vec_append_def vec_chain_def
  ggl_obj_vec_push_def ggl_obj_vec_chain_push_def ggl_obj_vec_pop_def ggl_obj_vec_append_def
  ggl_obj_vec_chain_append_def ggl_kv_vec_push_def ggl_byte_vec_init_def ggl_byte_vec_push_def
  ggl_byte_vec_chain_push_def ggl_byte_vec_append_def ggl_byte_vec_chain_append_def
  ggl_buf_vec_push_def ggl_buf_vec_chain_push_def

lemma vec_append_iff:
  "vec_inv v \<Longrightarrow>
   vec_append v xs =
     (if length (vec_items v) + length xs \<le> vec_capacity v
      then (GGL_ERR_OK, v\<lparr>vec_items := vec_items v @ xs\<rparr>) else (GGL_ERR_NOMEM, v))"
  by (auto simp: vec_append_def vec_inv_def PTRDIFF_MAX_def SIZE_MAX_def)

lemma vec_push_append: "vec_inv v \<Longrightarrow> vec_push v x = vec_append v [x]"
  by (auto simp: vec_push_def vec_append_iff)

section \<open>Appending to a bounded container\<close>

text \<open>
  The interface of a bounded container: an append either adds exactly its argument or leaves the
  container alone and returns \<^verbatim>\<open>GGL_ERR_NOMEM\<close>, and which of the two depends on the room only.
\<close>

locale bounded_append =
  fixes append :: "'s \<Rightarrow> 'a list \<Rightarrow> GglError \<times> 's"
    and content :: "'s \<Rightarrow> 'a list"
    and room :: "'s \<Rightarrow> nat"
    and inv :: "'s \<Rightarrow> bool"
  assumes append_ok: "inv s \<Longrightarrow> length xs \<le> room s \<Longrightarrow> \<exists>s'. append s xs = (GGL_ERR_OK, s')"
    and append_content: "inv s \<Longrightarrow> append s xs = (GGL_ERR_OK, s') \<Longrightarrow>
          inv s' \<and> content s' = content s @ xs \<and> room s' + length xs = room s"
    and append_full: "inv s \<Longrightarrow> room s < length xs \<Longrightarrow> append s xs = (GGL_ERR_NOMEM, s)"
begin

text \<open>A chain of appends, as the chained variants write it.\<close>

fun chain :: "GglError \<times> 's \<Rightarrow> 'a list list \<Rightarrow> GglError \<times> 's" where
  "chain r [] = r"
| "chain r (xs # xss) =
     chain (case r of (err, s) \<Rightarrow> if err = GGL_ERR_OK then append s xs else (err, s)) xss"

lemma chain_error: "e \<noteq> GGL_ERR_OK \<Longrightarrow> chain (e, s) xss = (e, s)"
  by (induction xss) auto

lemma chain_ok:
  assumes "inv s" "length (concat xss) \<le> room s"
  shows "\<exists>s'. chain (GGL_ERR_OK, s) xss = (GGL_ERR_OK, s') \<and> inv s' \<and>
    content s' = content s @ concat xss"
  using assms
proof (induction xss arbitrary: s)
  case (Cons xs xss)
  from Cons.prems obtain t where t: "append s xs = (GGL_ERR_OK, t)"
    using append_ok [of s xs] by auto
  from append_content [OF Cons.prems(1) t] Cons.prems(2)
  have "inv t" "length (concat xss) \<le> room t" "content t = content s @ xs" by auto
  with Cons.IH [of t] t show ?case by auto
qed auto

lemma chain_full:
  assumes "inv s" "room s < length (concat xss)"
  shows "fst (chain (GGL_ERR_OK, s) xss) = GGL_ERR_NOMEM"
  using assms
proof (induction xss arbitrary: s)
  case (Cons xs xss)
  show ?case
  proof (cases "length xs \<le> room s")
    case True
    then obtain t where t: "append s xs = (GGL_ERR_OK, t)"
      using append_ok [of s xs] Cons.prems by auto
    from append_content [OF Cons.prems(1) t] Cons.prems(2)
    have "inv t" "room t < length (concat xss)" by auto
    with Cons.IH [of t] t show ?thesis by simp
  next
    case False
    with append_full [of s xs] Cons.prems(1) chain_error show ?thesis by simp
  qed
qed simp

end

lemma vec_append_laws:
  fixes v :: "'a vec"
  assumes "vec_inv v"
  shows "length xs \<le> vec_capacity v - length (vec_items v) \<Longrightarrow>
          \<exists>v'. vec_append v xs = (GGL_ERR_OK, v')"
    and "vec_append v xs = (GGL_ERR_OK, v') \<Longrightarrow>
          vec_inv v' \<and> vec_items v' = vec_items v @ xs \<and>
          vec_capacity v' - length (vec_items v') + length xs = vec_capacity v - length (vec_items v)"
    and "vec_capacity v - length (vec_items v) < length xs \<Longrightarrow> vec_append v xs = (GGL_ERR_NOMEM, v)"
proof -
  from assms have le: "length (vec_items v) \<le> vec_capacity v" by (simp add: vec_inv_def)
  show "\<exists>v'. vec_append v xs = (GGL_ERR_OK, v')"
    if "length xs \<le> vec_capacity v - length (vec_items v)"
    using that le by (simp add: vec_append_iff [OF assms])
  show "vec_append v xs = (GGL_ERR_NOMEM, v)"
    if "vec_capacity v - length (vec_items v) < length xs"
    using that le by (simp add: vec_append_iff [OF assms])
  assume "vec_append v xs = (GGL_ERR_OK, v')"
  then have "length (vec_items v) + length xs \<le> vec_capacity v"
    "v' = v\<lparr>vec_items := vec_items v @ xs\<rparr>"
    by (simp_all add: vec_append_iff [OF assms] split: if_splits)
  then show "vec_inv v' \<and> vec_items v' = vec_items v @ xs \<and>
      vec_capacity v' - length (vec_items v') + length xs = vec_capacity v - length (vec_items v)"
    using assms by (simp add: vec_inv_def)
qed

interpretation bytes: bounded_append ggl_byte_vec_append vec_items
  "\<lambda>v. vec_capacity v - length (vec_items v)" vec_inv
  by unfold_locales (unfold ggl_byte_vec_append_def, (rule vec_append_laws, assumption+)+)

interpretation objs: bounded_append ggl_obj_vec_append vec_items
  "\<lambda>v. vec_capacity v - length (vec_items v)" vec_inv
  by unfold_locales (unfold ggl_obj_vec_append_def, (rule vec_append_laws, assumption+)+)

end
