(* ===== verification/Crc32.thy ===== *)
theory Crc32
  imports GglBuffer
begin

unbundle bit_operations_syntax

text \<open>
  The checksum of the packet encoding: \<^verbatim>\<open>eventstream/src/crc32.c\<close>. The routine is driven by a table
  of 256 entries; the reference is the bit-serial definition, one shift per message bit. The theory
  shows that the two agree, that a checksum can be continued over further bytes, and that changing
  one byte always changes the checksum.
\<close>

section \<open>The table-driven routine\<close>

definition crc_step :: "u32 \<Rightarrow> u32" where
  "crc_step c = (if c AND 1 \<noteq> 0 then 0xEDB88320 XOR drop_bit 1 c else drop_bit 1 c)"

definition make_crc_entry :: "u32 \<Rightarrow> u32" where
  "make_crc_entry n = (crc_step ^^ 8) n"

definition crc_table :: "u32 list" where
  "crc_table = map (\<lambda>n. make_crc_entry (of_nat n)) [0..<256]"

definition crc_byte :: "u32 \<Rightarrow> byte \<Rightarrow> u32" where
  "crc_byte c b = crc_table ! unat ((c XOR ucast b) AND 0xFF) XOR drop_bit 8 c"

definition ggl_update_crc :: "u32 \<Rightarrow> buffer \<Rightarrow> u32" where
  "ggl_update_crc crc buf = NOT (foldl crc_byte (NOT crc) buf)"

section \<open>The bit-serial reference\<close>

text \<open>The register takes in one bit after the other, the lowest bit of a byte first: it is shifted, and
  the polynomial is added if the bit and the one that is shifted out differ.\<close>

definition crc_bit :: "u32 \<Rightarrow> bool \<Rightarrow> u32" where
  "crc_bit c b = (let c' = drop_bit 1 c in if bit c 0 \<noteq> b then c' XOR 0xEDB88320 else c')"

definition crc_byte_serial :: "u32 \<Rightarrow> byte \<Rightarrow> u32" where
  "crc_byte_serial c b = foldl crc_bit c (map (bit b) [0..<8])"

definition crc_serial :: "u32 \<Rightarrow> buffer \<Rightarrow> u32" where
  "crc_serial crc buf = NOT (foldl crc_byte_serial (NOT crc) buf)"

text \<open>The step is linear.\<close>

lemma crc_step_alt: "crc_step c = drop_bit 1 c XOR (if bit c 0 then 0xEDB88320 else 0)"
  by (simp add: crc_step_def and_one_eq odd_iff_mod_2_eq_one bit_0 xor.commute)

lemma crc_step_xor: "crc_step (a XOR b) = crc_step a XOR crc_step b"
  by (simp add: crc_step_alt bit_xor_iff drop_bit_xor xor.assoc xor.left_commute)

lemma crc_steps_xor: "(crc_step ^^ n) (a XOR b) = (crc_step ^^ n) a XOR (crc_step ^^ n) b"
  by (induction n) (simp_all add: crc_step_xor)

lemma crc_steps_low_zero:
  assumes "\<And>i. i < n \<Longrightarrow> \<not> bit c i"
  shows "(crc_step ^^ n) c = drop_bit n c"
  using assms
proof (induction n)
  case (Suc n)
  then have "(crc_step ^^ n) c = drop_bit n c" by simp
  moreover have "\<not> bit (drop_bit n c) 0"
    using Suc.prems [of n] by (simp add: bit_drop_bit_eq)
  ultimately show ?case by (simp add: crc_step_alt [of "drop_bit n c"])
qed simp

lemma crc_table_nth: "n < 256 \<Longrightarrow> crc_table ! n = make_crc_entry (of_nat n)"
  by (simp add: crc_table_def)

lemma low_byte_less: "unat (c AND 0xFF :: u32) < 256"
proof -
  have "c AND 0xFF = take_bit 8 c"
    by (simp add: take_bit_eq_mask mask_eq_exp_minus_1)
  then show ?thesis
    using unsigned_take_bit_eq [of 8 c, where 'a = nat] by (simp add: take_bit_eq_mod)
qed

lemma word_split_low: "(c :: u32) = (c AND 0xFF) XOR (c AND NOT 0xFF)"
  by (rule bit_word_eqI) (auto simp: bit_simps)

lemma crc_steps_byte: "(crc_step ^^ 8) c = make_crc_entry (c AND 0xFF) XOR drop_bit 8 c"
proof -
  have ff: "(0xFF :: u32) = mask 8"
    by (simp add: mask_eq_exp_minus_1)
  have "(crc_step ^^ 8) (c AND NOT 0xFF) = drop_bit 8 (c AND NOT 0xFF)"
    unfolding ff by (rule crc_steps_low_zero) (simp add: bit_simps)
  also have "\<dots> = drop_bit 8 c"
    unfolding ff by (rule bit_word_eqI) (auto simp: bit_simps dest: bit_imp_le_length)
  finally show ?thesis
    by (subst word_split_low) (simp only: crc_steps_xor make_crc_entry_def)
qed

text \<open>Taking in the bits of a byte one by one is adding the byte and then shifting.\<close>

lemma crc_bit_step: "crc_bit c b = crc_step (c XOR of_bool b)"
  by (cases b) (auto simp: crc_bit_def crc_step_alt Let_def bit_simps drop_bit_xor)

lemma crc_bits_steps:
  "n \<le> 8 \<Longrightarrow> foldl crc_bit c (map (bit b) [0..<n]) = (crc_step ^^ n) (c XOR take_bit n (ucast (b :: byte)))"
proof (induction n)
  case (Suc n)
  let ?w = "ucast b :: u32" and ?x = "of_bool (bit b n) :: u32"
  have "take_bit (Suc n) ?w = take_bit n ?w XOR push_bit n ?x"
    using Suc.prems by (intro bit_word_eqI) (auto simp: bit_simps less_Suc_eq)
  moreover have "drop_bit n (push_bit n ?x) = ?x"
    using Suc.prems by (intro bit_word_eqI) (auto simp: bit_simps)
  then have "(crc_step ^^ n) (push_bit n ?x) = ?x" by (subst crc_steps_low_zero) (auto simp: bit_simps)
  ultimately show ?case using Suc by (simp add: crc_bit_step crc_steps_xor crc_step_xor xor.assoc)
qed simp

lemma crc_byte_serial_steps: "crc_byte_serial c b = (crc_step ^^ 8) (c XOR ucast b)"
proof -
  have "take_bit 8 (ucast b :: u32) = ucast b" by (rule bit_word_eqI) (auto simp: bit_simps dest: bit_imp_le_length)
  with crc_bits_steps [of 8] show ?thesis by (simp add: crc_byte_serial_def)
qed

section \<open>Agreement, continuation, detection\<close>

lemma crc_byte_eq_serial: "crc_byte c b = crc_byte_serial c b"
proof -
  have "drop_bit 8 (ucast b :: u32) = 0"
    by (rule bit_word_eqI) (auto simp: bit_simps dest: bit_imp_le_length)
  then have "drop_bit 8 (c XOR ucast b) = drop_bit 8 c"
    by (simp add: drop_bit_xor)
  then show ?thesis
    by (simp add: crc_byte_def crc_byte_serial_steps crc_steps_byte crc_table_nth low_byte_less)
qed

text \<open>C37: the table-driven routine of the code computes the bit-serial checksum for every start value
  and every sequence of bytes.\<close>

theorem ggl_update_crc_serial: "ggl_update_crc crc buf = crc_serial crc buf"
  by (simp add: ggl_update_crc_def crc_serial_def crc_byte_eq_serial [abs_def])

text \<open>Evaluation goes through the bit-serial form, which does not rebuild the table for each byte.\<close>

lemma ggl_update_crc_code [code]:
  "ggl_update_crc crc buf = NOT (foldl crc_byte_serial (NOT crc) buf)"
  by (simp add: ggl_update_crc_def crc_byte_eq_serial [abs_def])

lemma crc_byte_serial_code [code]:
  "crc_byte_serial c b =
     crc_step (crc_step (crc_step (crc_step (crc_step (crc_step (crc_step (crc_step (c XOR ucast b))))))))"
  by (simp add: crc_byte_serial_steps eval_nat_numeral)

lemma ggl_update_crc_append:
  "ggl_update_crc (ggl_update_crc crc a) b = ggl_update_crc crc (a @ b)"
  by (simp add: ggl_update_crc_def)

lemma ggl_update_crc_Nil [simp]: "ggl_update_crc crc [] = crc"
  by (simp add: ggl_update_crc_def)

text \<open>The polynomial has its top bit set, so the bit that a step shifts out is the top bit of the
  result: a step loses nothing.\<close>

lemma bit_crc_step_31: "bit (crc_step c) 31 = bit c 0"
  using bit_imp_le_length [of c 32] by (auto simp: crc_step_alt bit_simps)

lemma word_xor_right_cancel: "a XOR x = b XOR x \<Longrightarrow> a = (b :: u32)"
  by (metis xor.assoc xor.right_neutral xor_self_eq)

lemma crc_step_inj: "crc_step a = crc_step b \<Longrightarrow> a = b"
proof -
  assume eq: "crc_step a = crc_step b"
  then have low: "bit a 0 = bit b 0"
    by (metis bit_crc_step_31)
  have "drop_bit 1 a = drop_bit 1 b"
    using eq unfolding crc_step_alt low by (rule word_xor_right_cancel)
  then have "bit a (Suc n) = bit b (Suc n)" for n
    by (metis One_nat_def bit_drop_bit_eq comp_apply plus_1_eq_Suc)
  with low have "bit a n = bit b n" for n
    by (cases n) auto
  then show "a = b"
    by (simp add: bit_eq_iff)
qed

lemma crc_steps_inj: "(crc_step ^^ n) a = (crc_step ^^ n) b \<Longrightarrow> a = b"
  by (induction n) (auto dest: crc_step_inj)

lemma crc_byte_inj_state: "crc_byte c b = crc_byte c' b \<Longrightarrow> c = c'"
  unfolding crc_byte_eq_serial crc_byte_serial_steps
  by (rule word_xor_right_cancel, rule crc_steps_inj)

lemma byte_ucast_ucast: "ucast (ucast b :: u32) = (b :: byte)"
  by (rule bit_word_eqI) (simp add: bit_simps)

lemma crc_byte_inj_byte: "crc_byte c b = crc_byte c b' \<Longrightarrow> b = b'"
proof -
  assume "crc_byte c b = crc_byte c b'"
  then have "c XOR ucast b = c XOR ucast b'"
    unfolding crc_byte_eq_serial crc_byte_serial_steps by (rule crc_steps_inj)
  then have "(ucast b :: u32) = ucast b'"
    by (metis word_xor_right_cancel xor.commute)
  then show "b = b'"
    by (metis byte_ucast_ucast)
qed

lemma foldl_crc_inj: "foldl crc_byte c bs = foldl crc_byte c' bs \<Longrightarrow> c = c'"
  by (induction bs arbitrary: c c') (auto dest: crc_byte_inj_state)

lemma ggl_update_crc_inj: "ggl_update_crc c bs = ggl_update_crc c' bs \<Longrightarrow> c = c'"
  by (auto simp: ggl_update_crc_def dest: foldl_crc_inj)

section \<open>The checksum as an interface\<close>

text \<open>What the packet encoding relies on: a checksum can be continued, an unchanged suffix keeps two
  checksums apart, and one changed byte is seen.\<close>

locale running_checksum =
  fixes update :: "u32 \<Rightarrow> buffer \<Rightarrow> u32"
  assumes update_append: "update (update c a) b = update c (a @ b)"
    and update_inj: "update c bs = update c' bs \<Longrightarrow> c = c'"
    and update_byte: "update c [x] = update c [x'] \<Longrightarrow> x = x'"
begin

lemma update_single_change:
  assumes "b \<noteq> b'"
  shows "update c (xs @ b # ys) \<noteq> update c (xs @ b' # ys)"
proof
  assume "update c (xs @ b # ys) = update c (xs @ b' # ys)"
  then have "update (update (update c xs) [b]) ys = update (update (update c xs) [b']) ys"
    by (simp add: update_append)
  then have "update (update c xs) [b] = update (update c xs) [b']"
    by (rule update_inj)
  with update_byte assms show False by blast
qed

lemma update_list_update:
  assumes "i < length bs" "b \<noteq> bs ! i"
  shows "update c (bs[i := b]) \<noteq> update c bs"
proof -
  have "bs[i := b] = take i bs @ b # drop (Suc i) bs"
    using assms by (simp add: upd_conv_take_nth_drop)
  moreover have "bs = take i bs @ bs ! i # drop (Suc i) bs"
    using assms by (simp add: id_take_nth_drop)
  ultimately show ?thesis
    using update_single_change [OF assms(2)] by metis
qed

end

interpretation crc: running_checksum ggl_update_crc
proof
  show "ggl_update_crc c [b] = ggl_update_crc c [b'] \<Longrightarrow> b = b'" for c b b'
    by (auto simp: ggl_update_crc_def dest: crc_byte_inj_byte)
qed (fact ggl_update_crc_append ggl_update_crc_inj)+

text \<open>Overwriting one byte of a sequence with a different one changes its checksum, whatever the
  start value and the other bytes.\<close>

theorem ggl_update_crc_single_byte:
  assumes "i < length bs" "b \<noteq> bs ! i"
  shows "ggl_update_crc c (bs[i := b]) \<noteq> ggl_update_crc c bs"
  using assms by (rule crc.update_list_update)

theorem ggl_update_crc_single_byte_witness:
  "ggl_update_crc 0 ([1, 2, 3][1 := 7]) \<noteq> ggl_update_crc 0 [1, 2, 3]"
  by (rule ggl_update_crc_single_byte) simp_all

end
