(* ===== verification/EventstreamEncode.thy ===== *)
theory EventstreamEncode
  imports Crc32 GglAlloc
begin

unbundle bit_operations_syntax

text \<open>
  The encoder of the AWS EventStream packets that the IPC socket carries:
  \<^verbatim>\<open>eventstream/include/ggl/eventstream/types.h\<close> and \<^verbatim>\<open>eventstream/src/encode.c\<close>, with the reader
  of \<^verbatim>\<open>ggl-lib/include/ggl/io.h\<close> that supplies the payload. The encoder writes a block of memory out
  of order (the length fields and the checksums of the prelude come after the headers and the
  payload); the reference \<open>packet\<close> is the packet as one concatenation. The theory shows when the
  encoder succeeds and that it then leaves exactly that packet.
\<close>

section \<open>Readers\<close>

text \<open>A reader is given the space there is and returns the bytes it put there. The null reader reads
  nothing. Returning more than the space is a write past the end of the buffer.\<close>

type_synonym GglReader = "(nat \<Rightarrow> buffer res) option"

definition ggl_reader_call :: "GglReader \<Rightarrow> nat \<Rightarrow> buffer res" where
  "ggl_reader_call reader len =
     (case reader of
        None \<Rightarrow> Ret []
      | Some rd \<Rightarrow> res_bind (rd len) (\<lambda>bs. res_bind (res_assert (length bs \<le> len)) (\<lambda>_. Ret bs)))"

definition ggl_reader_call_exact :: "GglReader \<Rightarrow> nat \<Rightarrow> buffer res" where
  "ggl_reader_call_exact reader len =
     res_bind (ggl_reader_call reader len) (\<lambda>copy.
     res_bind (res_guard (length copy = len) GGL_ERR_FAILURE) (\<lambda>_. Ret copy))"

lemma ggl_reader_call_length: "ggl_reader_call rd n = Ret bs \<Longrightarrow> length bs \<le> n"
  by (auto simp: ggl_reader_call_def res_simps split: option.splits)

section \<open>Headers\<close>

text \<open>An \<^verbatim>\<open>int32_t\<close> is kept as its 32-bit pattern.\<close>

datatype EventStreamHeaderValue = EVENTSTREAM_INT32 u32 | EVENTSTREAM_STRING buffer

fun header_value_type :: "EventStreamHeaderValue \<Rightarrow> byte" where
  "header_value_type (EVENTSTREAM_INT32 _) = 4"
| "header_value_type (EVENTSTREAM_STRING _) = 7"

record EventStreamHeader =
  header_name :: buffer
  header_value :: EventStreamHeaderValue

definition write_be_u32 :: "u32 \<Rightarrow> buffer" where
  "write_be_u32 val =
     [ucast (drop_bit 24 val), ucast (drop_bit 16 val AND 0xFF), ucast (drop_bit 8 val AND 0xFF),
      ucast (val AND 0xFF)]"

definition write_be_u16 :: "u16 \<Rightarrow> buffer" where
  "write_be_u16 val = [ucast (drop_bit 8 val), ucast (val AND 0xFF)]"

definition header_encode :: "GglBumpAlloc \<Rightarrow> EventStreamHeader \<Rightarrow> GglBumpAlloc res" where
  "header_encode alloc header =
     res_bind (res_guard (length (header_name header) \<le> 255) GGL_ERR_RANGE) (\<lambda>_.
     res_bind (bump_write alloc [of_nat (length (header_name header))]) (\<lambda>alloc.
     res_bind (bump_write alloc (header_name header)) (\<lambda>alloc.
     res_bind (bump_write alloc [header_value_type (header_value header)]) (\<lambda>alloc.
     case header_value header of
       EVENTSTREAM_INT32 val \<Rightarrow> bump_write alloc (write_be_u32 val)
     | EVENTSTREAM_STRING str \<Rightarrow>
         res_bind (res_guard (length str \<le> 65535) GGL_ERR_RANGE) (\<lambda>_.
         res_bind (bump_write alloc (write_be_u16 (of_nat (length str)))) (\<lambda>alloc.
         bump_write alloc str))))))"

fun headers_encode :: "GglBumpAlloc \<Rightarrow> EventStreamHeader list \<Rightarrow> GglBumpAlloc res" where
  "headers_encode alloc [] = Ret alloc"
| "headers_encode alloc (header # headers) =
     res_bind (header_encode alloc header) (\<lambda>alloc. headers_encode alloc headers)"

text \<open>The bytes of a header, and the headers that have any.\<close>

fun value_bytes :: "EventStreamHeaderValue \<Rightarrow> buffer" where
  "value_bytes (EVENTSTREAM_INT32 val) = write_be_u32 val"
| "value_bytes (EVENTSTREAM_STRING str) = write_be_u16 (of_nat (length str)) @ str"

definition header_bytes :: "EventStreamHeader \<Rightarrow> buffer" where
  "header_bytes h =
     of_nat (length (header_name h)) # header_name h @ header_value_type (header_value h)
       # value_bytes (header_value h)"

abbreviation headers_bytes :: "EventStreamHeader list \<Rightarrow> buffer" where
  "headers_bytes hs \<equiv> concat (map header_bytes hs)"

fun value_ok :: "EventStreamHeaderValue \<Rightarrow> bool" where
  "value_ok (EVENTSTREAM_INT32 _) = True"
| "value_ok (EVENTSTREAM_STRING str) = (length str \<le> 65535)"

definition header_ok :: "EventStreamHeader \<Rightarrow> bool" where
  "header_ok h \<longleftrightarrow> length (header_name h) \<le> 255 \<and> value_ok (header_value h)"

lemma length_write_be_u32 [simp]: "length (write_be_u32 v) = 4"
  by (simp add: write_be_u32_def)

lemma length_write_be_u16 [simp]: "length (write_be_u16 v) = 2"
  by (simp add: write_be_u16_def)

lemma bump_write_bind:
  assumes "bump_inv a" "length bs < PTRDIFF_MAX"
    and "\<And>c. bump_inv c \<Longrightarrow> f c = bump_put c r"
  shows "res_bind (bump_write a bs) f = bump_put a (bs @ r)"
proof -
  have "res_bind (bump_put a bs) f = res_bind (bump_put a bs) (\<lambda>c. bump_put c r)"
    by (rule res_bind_cong) (auto intro: assms(3) bump_put_inv [OF assms(1)])
  then show ?thesis
    by (simp add: bump_write_put [OF assms(1,2)] bump_put_put)
qed

lemma header_encode_put:
  assumes "bump_inv a" "header_ok h"
  shows "header_encode a h = bump_put a (header_bytes h)"
proof -
  have val: "(case header_value h of
       EVENTSTREAM_INT32 val \<Rightarrow> bump_write c (write_be_u32 val)
     | EVENTSTREAM_STRING str \<Rightarrow>
         res_bind (res_guard (length str \<le> 65535) GGL_ERR_RANGE) (\<lambda>_.
         res_bind (bump_write c (write_be_u16 (of_nat (length str)))) (\<lambda>alloc.
         bump_write alloc str))) = bump_put c (value_bytes (header_value h))"
    if "bump_inv c" for c
  proof (cases "header_value h")
    case (EVENTSTREAM_INT32 v)
    with that show ?thesis by (simp add: bump_write_put PTRDIFF_MAX_def)
  next
    case (EVENTSTREAM_STRING str)
    with assms(2) have "length str \<le> 65535" by (simp add: header_ok_def)
    with that EVENTSTREAM_STRING show ?thesis
      by (auto simp: PTRDIFF_MAX_def intro!: bump_write_bind bump_write_put)
  qed
  have n: "length (header_name h) \<le> 255" using assms(2) by (simp add: header_ok_def)
  have "header_encode a h = bump_put a ([of_nat (length (header_name h))] @ header_name h @
      [header_value_type (header_value h)] @ value_bytes (header_value h))"
    unfolding header_encode_def using n
    by (simp del: append.simps, intro bump_write_bind val assms) (simp_all add: PTRDIFF_MAX_def)
  then show ?thesis by (simp add: header_bytes_def)
qed

lemma header_encode_ok: "header_encode a h = Ret c \<Longrightarrow> header_ok h"
  by (cases "header_value h") (auto simp: header_encode_def header_ok_def res_simps)

lemma headers_encode_put:
  assumes "bump_inv a" "list_all header_ok hs"
  shows "headers_encode a hs = bump_put a (headers_bytes hs)"
  using assms
proof (induction hs arbitrary: a)
  case Nil
  then show ?case by (simp add: bump_put_def bump_inv_def)
next
  case (Cons h hs)
  have "res_bind (bump_put a (header_bytes h)) (\<lambda>c. headers_encode c hs)
      = res_bind (bump_put a (header_bytes h)) (\<lambda>c. bump_put c (headers_bytes hs))"
    using Cons by (intro res_bind_cong) (auto intro: bump_put_inv)
  with Cons.prems show ?case by (simp add: header_encode_put bump_put_put)
qed

lemma headers_encode_ok: "headers_encode a hs = Ret c \<Longrightarrow> list_all header_ok hs"
  by (induction hs arbitrary: a) (auto simp: res_simps dest: header_encode_ok)

section \<open>Packets\<close>

text \<open>\<open>eventstream_finish\<close> is the rest of \<^verbatim>\<open>eventstream_encode\<close> once the headers are in memory.\<close>

definition eventstream_finish :: "buffer \<Rightarrow> u32 \<Rightarrow> GglReader \<Rightarrow> buffer res" where
  "eventstream_finish mem headers_len payload =
     (let mem = write_at mem 4 (write_be_u32 headers_len);
          pos = 12 + unat headers_len in
      res_bind (ggl_reader_call payload (length mem - pos)) (\<lambda>payload_buf.
      let mem = write_at mem pos payload_buf;
          pos = pos + length payload_buf;
          message_len = 12 + headers_len + of_nat (length payload_buf) + 4;
          mem = write_at mem 0 (write_be_u32 message_len);
          prelude_crc = ggl_update_crc 0 (take 8 mem);
          mem = write_at mem 8 (write_be_u32 prelude_crc);
          message_crc = ggl_update_crc prelude_crc (take (unat (message_len - 8 - 4)) (drop 8 mem)) in
      res_bind (res_guard (4 \<le> length mem - pos) GGL_ERR_NOMEM) (\<lambda>_.
      let mem = write_at mem pos (write_be_u32 message_crc) in
      Ret (take (unat message_len) mem))))"

definition eventstream_encode ::
  "buffer \<Rightarrow> EventStreamHeader list option \<Rightarrow> GglReader \<Rightarrow> buffer res" where
  "eventstream_encode buf headers payload =
     (let mem = (if length buf > UINT32_MAX then take UINT32_MAX buf else buf) in
      res_bind (res_guard (12 \<le> length mem) GGL_ERR_NOMEM) (\<lambda>_.
      case headers of
        None \<Rightarrow> eventstream_finish mem 0 payload
      | Some hs \<Rightarrow>
          res_bind (headers_encode (ggl_bump_alloc_init (ggl_buffer_substr mem 12 SIZE_MAX)) hs)
            (\<lambda>bump_alloc. eventstream_finish (take 12 mem @ bump_buf bump_alloc)
               (of_nat (bump_index bump_alloc)) payload)))"

text \<open>The packet as one concatenation: the prelude with its checksum, the headers, the payload, and
  the checksum of everything before it.\<close>

definition prelude_bytes :: "nat \<Rightarrow> nat \<Rightarrow> buffer" where
  "prelude_bytes headers_len payload_len =
     write_be_u32 (of_nat (16 + headers_len + payload_len)) @ write_be_u32 (of_nat headers_len)"

definition packet_body :: "buffer \<Rightarrow> buffer \<Rightarrow> buffer" where
  "packet_body hb p =
     (let pre = prelude_bytes (length hb) (length p)
      in pre @ write_be_u32 (ggl_update_crc 0 pre) @ hb @ p)"

definition packet :: "buffer \<Rightarrow> buffer \<Rightarrow> buffer" where
  "packet hb p = packet_body hb p @ write_be_u32 (ggl_update_crc 0 (packet_body hb p))"

lemma length_prelude_bytes [simp]: "length (prelude_bytes h p) = 8"
  by (simp add: prelude_bytes_def)

lemma length_packet_body: "length (packet_body hb p) = 12 + length hb + length p"
  by (simp add: packet_body_def Let_def)

lemma length_packet: "length (packet hb p) = 16 + length hb + length p"
  by (simp add: packet_def length_packet_body)

lemma eventstream_finish_packet:
  assumes len: "length a = 4" "length b = 4" "length c = 4"
    and mem: "mem = a @ b @ c @ hb @ rest" and max: "length mem \<le> UINT32_MAX"
    and rd: "ggl_reader_call rd (length rest) = Ret p"
  shows "eventstream_finish mem (of_nat (length hb)) rd =
    (if length p + 4 \<le> length rest then Ret (packet hb p) else Fail GGL_ERR_NOMEM)"
proof -
  define hl where "hl = write_be_u32 (of_nat (length hb))"
  define ml where "ml = write_be_u32 (of_nat (16 + length hb + length p))"
  define pc where "pc = write_be_u32 (ggl_update_crc 0 (ml @ hl))"
  let ?r = "drop (length p) rest"
  note le = ggl_reader_call_length [OF rd]
  have max': "12 + length hb + length rest \<le> 2 ^ 32 - 1"
    using max len mem by (simp add: UINT32_MAX_def)
  then have hb32: "unat (of_nat (length hb) :: u32) = length hb"
    by (simp add: unat_of_nat)
  have crclen: "unat (of_nat (16 + length hb + length p) - 8 - 4 :: u32) = 4 + length hb + length p"
  proof -
    have "(of_nat (16 + length hb + length p) - 8 - 4 :: u32) = of_nat (4 + length hb + length p)"
      by simp
    with max' le show ?thesis by (simp only: unat_of_nat) simp
  qed
  have msglen: "(12 + of_nat (length hb) + of_nat (length p) + 4 :: u32)
      = of_nat (16 + length hb + length p)" by simp
  have w1: "write_at mem 4 hl = a @ hl @ c @ hb @ rest"
    unfolding mem using len by (intro write_at_middle) (auto simp: hl_def)
  have w2: "write_at (a @ hl @ c @ hb @ rest) (12 + length hb) p = a @ hl @ c @ hb @ p @ ?r"
    using write_at_suffix [of "a @ hl @ c @ hb" "12 + length hb" rest p] len by (simp add: hl_def)
  have w3: "write_at (a @ hl @ c @ hb @ p @ ?r) 0 ml = ml @ hl @ c @ hb @ p @ ?r"
    using write_at_middle [of "[]" 0 ml a] len by (simp add: ml_def)
  have w4: "write_at (ml @ hl @ c @ hb @ p @ ?r) 8 pc = ml @ hl @ pc @ hb @ p @ ?r"
    using write_at_middle [of "ml @ hl" 8 pc c] len by (simp add: ml_def hl_def pc_def)
  have body: "packet_body hb p = (ml @ hl) @ pc @ hb @ p"
    by (simp add: packet_body_def prelude_bytes_def ml_def hl_def pc_def Let_def)
  have pre: "take 8 (ml @ hl @ c @ hb @ p @ ?r) = ml @ hl"
    by (simp add: ml_def hl_def)
  have crc: "ggl_update_crc (ggl_update_crc 0 (ml @ hl))
      (take (4 + length hb + length p) (drop 8 (ml @ hl @ pc @ hb @ p @ ?r)))
      = ggl_update_crc 0 (packet_body hb p)"
    unfolding body ggl_update_crc_append [symmetric, of 0 "ml @ hl"]
    by (simp add: ml_def hl_def pc_def)
  define mc where "mc = write_be_u32 (ggl_update_crc 0 (packet_body hb p))"
  have w5: "write_at (ml @ hl @ pc @ hb @ p @ ?r) (12 + length hb + length p) mc
      = packet hb p @ drop 4 ?r"
    using write_at_suffix [of "packet_body hb p" "12 + length hb + length p" ?r mc]
    by (simp add: length_packet_body packet_def mc_def) (simp add: body)
  have "eventstream_finish mem (of_nat (length hb)) rd =
      (if length p + 4 \<le> length rest
       then Ret (take (unat (of_nat (16 + length hb + length p) :: u32)) (packet hb p @ drop 4 ?r))
       else Fail GGL_ERR_NOMEM)"
  proof -
    have space: "length (a @ hl @ c @ hb @ rest) - (12 + length hb) = length rest"
      using len by (simp add: hl_def)
    have left: "length (ml @ hl @ pc @ hb @ p @ ?r) - (12 + length hb + length p)
        = length rest - length p"
      using le by (simp add: ml_def hl_def pc_def)
    have room: "(4 \<le> length rest - length p) = (length p + 4 \<le> length rest)" by linarith
    show ?thesis
      unfolding eventstream_finish_def Let_def hb32 crclen hl_def [symmetric] w1 space rd
        res_bind.simps msglen w2 ml_def [symmetric] w3 pre pc_def [symmetric] w4 left crc
        mc_def [symmetric] w5 room
      by simp
  qed
  moreover have "length p + 4 \<le> length rest \<Longrightarrow>
      unat (of_nat (16 + length hb + length p) :: u32) = length (packet hb p)"
    using max' by (simp only: unat_of_nat length_packet) simp
  ultimately show ?thesis by simp
qed

lemma eventstream_finish_Ret:
  assumes "length pre = 12" "mem = pre @ hb @ rest" "length mem \<le> UINT32_MAX"
  shows "eventstream_finish mem (of_nat (length hb)) rd = Ret pkt \<longleftrightarrow>
    (\<exists>p. ggl_reader_call rd (length rest) = Ret p \<and> length p + 4 \<le> length rest \<and> pkt = packet hb p)"
proof -
  have split: "mem = take 4 pre @ take 4 (drop 4 pre) @ drop 8 pre @ hb @ rest"
    unfolding assms(2) by (metis append_assoc append_take_drop_id drop_drop numeral_plus_numeral
        semiring_norm(2) semiring_norm(6))
  note fin = eventstream_finish_packet [OF _ _ _ split assms(3)]
  have hb32: "unat (of_nat (length hb) :: u32) = length hb"
    using assms by (simp add: unat_of_nat UINT32_MAX_def)
  show ?thesis
  proof (cases "ggl_reader_call rd (length rest)")
    case (Ret p)
    then show ?thesis using fin [of rd p] assms(1) by auto
  next
    case (Fail e)
    then show ?thesis using assms by (simp add: eventstream_finish_def Let_def hb32)
  next
    case Abort
    then show ?thesis using assms by (simp add: eventstream_finish_def Let_def hb32)
  qed
qed

definition given_headers :: "EventStreamHeader list option \<Rightarrow> EventStreamHeader list" where
  "given_headers headers = (case headers of None \<Rightarrow> [] | Some hs \<Rightarrow> hs)"

lemma eventstream_encode_Ret:
  assumes "fits buf"
  shows "eventstream_encode buf headers rd = Ret pkt \<longleftrightarrow>
    (let hs = given_headers headers; hb = headers_bytes hs; cap = min (length buf) UINT32_MAX in
     list_all header_ok hs \<and> 12 + length hb \<le> cap \<and>
     (\<exists>p. ggl_reader_call rd (cap - (12 + length hb)) = Ret p \<and> 16 + length hb + length p \<le> cap \<and>
          pkt = packet hb p))"
proof -
  define mem where "mem = (if length buf > UINT32_MAX then take UINT32_MAX buf else buf)"
  have mem: "length mem = min (length buf) UINT32_MAX" "fits mem" "length mem \<le> UINT32_MAX"
    using assms by (auto simp: mem_def fits_def)
  let ?hs = "given_headers headers" and ?a = "ggl_bump_alloc_init (drop 12 mem)"
  have enc: "eventstream_encode buf headers rd = Ret pkt \<longleftrightarrow> 12 \<le> length mem \<and>
    (\<exists>c. headers_encode ?a ?hs = Ret c \<and>
      eventstream_finish (take 12 mem @ bump_buf c) (of_nat (bump_index c)) rd = Ret pkt)"
    using mem(2) by (cases headers)
      (auto simp: eventstream_encode_def mem_def [symmetric] res_simps given_headers_def
        ggl_bump_alloc_init_def)
  have inv: "bump_inv ?a"
    using mem(2) by (auto simp: bump_inv_def ggl_bump_alloc_init_def)
  show ?thesis
  proof (cases "list_all header_ok ?hs \<and> 12 + length (headers_bytes ?hs) \<le> length mem")
    case True
    let ?hb = "headers_bytes ?hs" and ?m = "take 12 mem @ headers_bytes ?hs @
      drop (12 + length (headers_bytes ?hs)) mem"
    have "headers_encode ?a ?hs = Ret \<lparr>bump_buf = ?hb @ drop (12 + length ?hb) mem,
        bump_index = length ?hb\<rparr>"
      using headers_encode_put [OF inv] True
      by (auto simp: bump_put_def ggl_bump_alloc_init_def write_at_def add.commute)
    moreover have "length ?m = length mem" using True by simp
    ultimately show ?thesis
      using True eventstream_finish_Ret [of "take 12 mem" ?m ?hb] mem
      by (auto simp: enc Let_def)
  next
    case False
    have "12 + length (headers_bytes ?hs) \<le> length mem"
      if "12 \<le> length mem" "headers_encode ?a ?hs = Ret c" for c
      using that headers_encode_put [OF inv headers_encode_ok [OF that(2)]]
      by (simp add: bump_put_def ggl_bump_alloc_init_def split: if_splits)
    with False show ?thesis
      using headers_encode_ok [of ?a ?hs] by (auto simp: enc Let_def mem(1))
  qed
qed

text \<open>C35: the encoder succeeds exactly when every name and string is within the limits of the format
  and the packet fits into the buffer and into 32 bits, and what it leaves is then the packet of the
  headers and of the payload that the reader supplied.\<close>

theorem eventstream_encode_correct:
  assumes "fits buf"
  shows "eventstream_encode buf headers rd = Ret pkt \<longleftrightarrow>
    (let hs = given_headers headers; hb = headers_bytes hs; cap = min (length buf) UINT32_MAX in
     list_all header_ok hs \<and> 12 + length hb \<le> cap \<and>
     (\<exists>p. ggl_reader_call rd (cap - (12 + length hb)) = Ret p \<and> 16 + length hb + length p \<le> cap \<and>
          pkt = packet hb p))"
  using assms by (rule eventstream_encode_Ret)

theorem eventstream_encode_correct_witness:
  "eventstream_encode (replicate 20 0) None None = Ret (packet [] [])"
proof -
  have "fits (replicate 20 (0 :: byte))"
    by (simp add: fits_def PTRDIFF_MAX_def)
  then show ?thesis
    using eventstream_encode_correct [of "replicate 20 0" None None "packet [] []"]
    by (simp add: given_headers_def ggl_reader_call_def UINT32_MAX_def)
qed

text \<open>The empty message of the published EventStream test vectors.\<close>

lemma packet_empty:
  "packet [] [] = [0, 0, 0, 16, 0, 0, 0, 0, 0x05, 0xC2, 0x48, 0xEB, 0x7D, 0x98, 0xC8, 0xFF]"
  by code_simp

end
