(* ===== verification/EventstreamDecode.thy ===== *)
theory EventstreamDecode
  imports EventstreamEncode GglObject
begin

unbundle bit_operations_syntax

text \<open>
  The decoder of EventStream packets: \<^verbatim>\<open>eventstream/src/decode.c\<close> and \<^verbatim>\<open>eventstream/src/rpc.c\<close>.
  The header iterator walks over raw memory without bounds checks; a read or a slice that leaves the
  data section is \<open>Abort\<close>, as is a failed assertion. The theory shows that no input makes the
  decoder or the iterator abort, that decoding a packet gives back its headers and its payload, and
  that a packet with one byte changed is refused.
\<close>

section \<open>The decoder\<close>

definition read_be_uint32 :: "buffer \<Rightarrow> u32 res" where
  "read_be_uint32 buf =
     res_bind (res_assert (length buf = 4)) (\<lambda>_.
     Ret (push_bit 24 (ucast (buf ! 0)) OR push_bit 16 (ucast (buf ! 1))
          OR push_bit 8 (ucast (buf ! 2)) OR ucast (buf ! 3)))"

text \<open>The two-byte length of a string, computed at 16 bits.\<close>

definition be_u16 :: "byte \<Rightarrow> byte \<Rightarrow> u16" where
  "be_u16 hi lo = push_bit 8 (ucast hi) + ucast lo"

record EventStreamPrelude =
  data_len :: u32
  headers_len :: u32
  prelude_crc :: u32

definition eventstream_decode_prelude :: "buffer \<Rightarrow> EventStreamPrelude res" where
  "eventstream_decode_prelude buf =
     res_bind (res_guard (12 \<le> length buf) GGL_ERR_RANGE) (\<lambda>_.
     let crc = ggl_update_crc 0 (ggl_buffer_substr buf 0 8) in
     res_bind (read_be_uint32 (ggl_buffer_substr buf 8 12)) (\<lambda>pcrc.
     res_bind (res_guard (crc = pcrc) GGL_ERR_PARSE) (\<lambda>_.
     res_bind (read_be_uint32 (ggl_buffer_substr buf 0 4)) (\<lambda>message_len.
     res_bind (read_be_uint32 (ggl_buffer_substr buf 4 8)) (\<lambda>hlen.
     res_bind (res_guard (16 \<le> message_len) GGL_ERR_PARSE) (\<lambda>_.
     res_bind (res_guard (hlen \<le> message_len - 16) GGL_ERR_PARSE) (\<lambda>_.
     Ret \<lparr>data_len = message_len - 12, headers_len = hlen,
          prelude_crc = ggl_update_crc pcrc (ggl_buffer_substr buf 8 12)\<rparr>)))))))"

text \<open>\<open>take_header\<close> drops one header. Every subtraction of \<open>pos\<close> is from a length that the check before
  it has shown to be at least \<open>pos\<close>.\<close>

definition take_header :: "buffer \<Rightarrow> buffer res" where
  "take_header headers_buf =
     res_bind (res_guard (\<not> length headers_buf < 1) GGL_ERR_PARSE) (\<lambda>_.
     let header_name_len = unat (headers_buf ! 0); pos = 1 in
     res_bind (res_guard (\<not> length headers_buf - pos < header_name_len) GGL_ERR_PARSE) (\<lambda>_.
     let pos = pos + header_name_len in
     res_bind (res_guard (\<not> length headers_buf - pos < 1) GGL_ERR_PARSE) (\<lambda>_.
     let header_value_type = headers_buf ! pos; pos = pos + 1 in
     res_bind
       (if header_value_type = 4 then
          res_bind (res_guard (\<not> length headers_buf - pos < 4) GGL_ERR_PARSE) (\<lambda>_. Ret (pos + 4))
        else if header_value_type = 7 then
          res_bind (res_guard (\<not> length headers_buf - pos < 2) GGL_ERR_PARSE) (\<lambda>_.
          let value_len = unat (be_u16 (headers_buf ! pos) (headers_buf ! (pos + 1)));
              pos = pos + 2 in
          res_bind (res_guard (\<not> length headers_buf - pos < value_len) GGL_ERR_PARSE) (\<lambda>_.
          Ret (pos + value_len)))
        else Fail GGL_ERR_PARSE) (\<lambda>pos.
     Ret (ggl_buffer_substr headers_buf pos SIZE_MAX)))))"

lemma take_header_shrinks:
  assumes "take_header hb = Ret rest"
  shows "length rest < length hb"
  using assms
  by (auto simp: take_header_def res_simps Let_def ggl_buffer_substr_take_drop split: if_splits)

function count_headers :: "buffer \<Rightarrow> u32 \<Rightarrow> u32 res" where
  "count_headers headers headers_count =
     (if length headers > 0 then
        res_bind (take_header headers) (\<lambda>headers. count_headers headers (headers_count + 1))
      else Ret headers_count)"
  by pat_completeness auto
termination
  by (relation "measure (length \<circ> fst)") (auto dest: take_header_shrinks)

declare count_headers.simps [simp del]

text \<open>The iterator holds a pointer into the data section, here an offset.\<close>

record EventStreamHeaderIter =
  iter_count :: u32
  iter_pos :: nat

record EventStreamMessage =
  msg_headers :: EventStreamHeaderIter
  msg_payload :: buffer

definition mem_byte :: "buffer \<Rightarrow> nat \<Rightarrow> byte res" where
  "mem_byte mem i = (if i < length mem then Ret (mem ! i) else Abort)"

definition mem_slice :: "buffer \<Rightarrow> nat \<Rightarrow> nat \<Rightarrow> buffer res" where
  "mem_slice mem i n = (if i + n \<le> length mem then Ret (take n (drop i mem)) else Abort)"

text \<open>\<open>header_next_value\<close> is the switch of \<^verbatim>\<open>eventstream_header_next\<close> on the type of the value.\<close>

definition header_next_value :: "buffer \<Rightarrow> byte \<Rightarrow> nat \<Rightarrow> (EventStreamHeaderValue \<times> nat) res" where
  "header_next_value mem value_type pos =
     (if value_type = 4 then
        res_bind (mem_slice mem pos 4) (\<lambda>bytes.
        res_bind (read_be_uint32 bytes) (\<lambda>v.
        Ret (EVENTSTREAM_INT32 v, pos + 4)))
      else if value_type = 7 then
        res_bind (mem_byte mem pos) (\<lambda>hi.
        res_bind (mem_byte mem (pos + 1)) (\<lambda>lo.
        let str_len = unat (be_u16 hi lo); pos = pos + 2 in
        res_bind (mem_slice mem pos str_len) (\<lambda>str.
        Ret (EVENTSTREAM_STRING str, pos + str_len))))
      else Abort)"

definition eventstream_header_next ::
  "buffer \<Rightarrow> EventStreamHeaderIter \<Rightarrow> (EventStreamHeader \<times> EventStreamHeaderIter) res" where
  "eventstream_header_next mem headers =
     res_bind (res_guard (\<not> iter_count headers < 1) GGL_ERR_RANGE) (\<lambda>_.
     let pos = iter_pos headers in
     res_bind (mem_byte mem pos) (\<lambda>header_name_len.
     let pos = pos + 1 in
     res_bind (mem_slice mem pos (unat header_name_len)) (\<lambda>name.
     let pos = pos + unat header_name_len in
     res_bind (mem_byte mem pos) (\<lambda>header_value_type.
     let pos = pos + 1 in
     res_bind (header_next_value mem header_value_type pos) (\<lambda>(val, pos).
     Ret (\<lparr>header_name = name, header_value = val\<rparr>,
          \<lparr>iter_count = iter_count headers - 1, iter_pos = pos\<rparr>))))))"

lemma header_next_count:
  assumes "eventstream_header_next mem it = Ret (h, it')"
  shows "unat (iter_count it') < unat (iter_count it)"
proof -
  have "iter_count it' = iter_count it - 1" "\<not> iter_count it < 1"
    using assms by (auto simp: eventstream_header_next_def res_simps Let_def)
  then show ?thesis using unat_minus_one [of "iter_count it"] by (simp add: unat_gt_0)
qed

text \<open>The loop that visits the headers until the iterator reports an error.\<close>

function header_loop :: "buffer \<Rightarrow> EventStreamHeaderIter \<Rightarrow> EventStreamHeader list res" where
  "header_loop mem iter =
     (case eventstream_header_next mem iter of
        Ret (h, iter') \<Rightarrow> res_bind (header_loop mem iter') (\<lambda>hs. Ret (h # hs))
      | Fail e \<Rightarrow> Ret []
      | Abort \<Rightarrow> Abort)"
  by pat_completeness auto
termination
  by (relation "measure (\<lambda>(mem, iter). unat (iter_count iter))") (auto dest: header_next_count)

declare header_loop.simps [simp del]

definition eventstream_decode :: "EventStreamPrelude \<Rightarrow> buffer \<Rightarrow> EventStreamMessage res" where
  "eventstream_decode prelude data_section =
     (let len = length data_section; hlen = unat (headers_len prelude) in
      res_bind (res_assert (4 \<le> len)) (\<lambda>_.
      let crc = ggl_update_crc (prelude_crc prelude) (ggl_buffer_substr data_section 0 (len - 4)) in
      res_bind (read_be_uint32 (ggl_buffer_substr data_section (len - 4) len)) (\<lambda>message_crc.
      res_bind (res_guard (crc = message_crc) GGL_ERR_PARSE) (\<lambda>_.
      let headers_buf = ggl_buffer_substr data_section 0 hlen;
          payload = ggl_buffer_substr data_section hlen (len - 4) in
      res_bind (res_assert (length headers_buf = hlen)) (\<lambda>_.
      res_bind (count_headers headers_buf 0) (\<lambda>headers_count.
      let header_iter = \<lparr>iter_count = headers_count, iter_pos = 0\<rparr> in
      res_bind (header_loop data_section header_iter) (\<lambda>_.
      Ret \<lparr>msg_headers = header_iter, msg_payload = payload\<rparr>)))))))"

section \<open>Common headers of an RPC message\<close>

record EventStreamCommonHeaders =
  stream_id :: u32
  message_type :: u32
  message_flags :: u32

function common_headers_loop ::
  "buffer \<Rightarrow> EventStreamHeaderIter \<Rightarrow> EventStreamCommonHeaders \<Rightarrow> EventStreamCommonHeaders res" where
  "common_headers_loop mem iter out =
     (case eventstream_header_next mem iter of
        Ret (header, iter') \<Rightarrow>
          if ggl_buffer_eq (header_name header) (GGL_STR '':message-type'') then
            (case header_value header of
               EVENTSTREAM_INT32 v \<Rightarrow> common_headers_loop mem iter' (out\<lparr>message_type := v\<rparr>)
             | EVENTSTREAM_STRING _ \<Rightarrow> Fail GGL_ERR_INVALID)
          else if ggl_buffer_eq (header_name header) (GGL_STR '':message-flags'') then
            (case header_value header of
               EVENTSTREAM_INT32 v \<Rightarrow> common_headers_loop mem iter' (out\<lparr>message_flags := v\<rparr>)
             | EVENTSTREAM_STRING _ \<Rightarrow> Fail GGL_ERR_INVALID)
          else if ggl_buffer_eq (header_name header) (GGL_STR '':stream-id'') then
            (case header_value header of
               EVENTSTREAM_INT32 v \<Rightarrow> common_headers_loop mem iter' (out\<lparr>stream_id := v\<rparr>)
             | EVENTSTREAM_STRING _ \<Rightarrow> Fail GGL_ERR_INVALID)
          else common_headers_loop mem iter' out
      | Fail e \<Rightarrow> Ret out
      | Abort \<Rightarrow> Abort)"
  by pat_completeness auto
termination
  by (relation "measure (\<lambda>(mem, iter, out). unat (iter_count iter))") (auto dest: header_next_count)

declare common_headers_loop.simps [simp del]

definition eventstream_get_common_headers ::
  "buffer \<Rightarrow> EventStreamMessage \<Rightarrow> EventStreamCommonHeaders res" where
  "eventstream_get_common_headers mem msg =
     common_headers_loop mem (msg_headers msg)
       \<lparr>stream_id = 0, message_type = - 1, message_flags = 0\<rparr>"

section \<open>Reading back what was written\<close>

lemma length_4_cases: "length xs = 4 \<Longrightarrow> \<exists>a b c d. xs = [a, b, c, d]"
  by (auto simp: eval_nat_numeral length_Suc_conv)

lemma read_write_be_u32 [simp]: "read_be_uint32 (write_be_u32 v) = Ret v"
proof -
  have "push_bit 24 (ucast (ucast (drop_bit 24 v) :: byte)) OR
      push_bit 16 (ucast (ucast (drop_bit 16 v AND 0xFF) :: byte)) OR
      push_bit 8 (ucast (ucast (drop_bit 8 v AND 0xFF) :: byte)) OR
      ucast (ucast (v AND 0xFF) :: byte) = v" (is "?l = v")
  proof (rule bit_word_eqI)
    fix n assume "n < LENGTH(32)"
    then consider "n < 8" | "8 \<le> n" "n < 16" | "16 \<le> n" "n < 24" | "24 \<le> n" "n < 32"
      by fastforce
    then show "bit ?l n = bit v n"
      by cases (auto simp: bit_simps)
  qed
  then show ?thesis by (simp add: read_be_uint32_def write_be_u32_def)
qed

lemma write_read_be_u32:
  assumes "read_be_uint32 bs = Ret v"
  shows "write_be_u32 v = bs"
proof -
  from assms have "length bs = 4" by (auto simp: read_be_uint32_def res_simps)
  then obtain a b c d where bs: "bs = [a, b, c, d]" using length_4_cases by blast
  from assms have v: "v = push_bit 24 (ucast a) OR push_bit 16 (ucast b) OR push_bit 8 (ucast c) OR ucast d"
    by (simp add: read_be_uint32_def bs eval_nat_numeral)
  have "ucast (drop_bit 24 v) = a" "ucast (drop_bit 16 v AND 0xFF) = b"
    "ucast (drop_bit 8 v AND 0xFF) = c" "ucast (v AND 0xFF) = d"
    unfolding v by (rule bit_word_eqI; auto simp: bit_simps)+
  then show ?thesis by (simp add: write_be_u32_def bs)
qed

lemma be_u16_or: "be_u16 hi lo = push_bit 8 (ucast hi) OR ucast lo"
  unfolding be_u16_def by (rule disjunctive_add) (auto simp: bit_simps)

lemma write_be_u16_be_u16 [simp]: "write_be_u16 (be_u16 hi lo) = [hi, lo]"
proof -
  have "ucast (drop_bit 8 (be_u16 hi lo)) = hi" "ucast (be_u16 hi lo AND 0xFF) = lo"
    unfolding be_u16_or by (rule bit_word_eqI; auto simp: bit_simps)+
  then show ?thesis by (simp add: write_be_u16_def)
qed

lemma be_u16_split [simp]: "be_u16 (ucast (drop_bit 8 v)) (ucast (v AND 0xFF)) = (v :: u16)"
  (is "?l = v")
proof (rule bit_word_eqI)
  fix n assume "n < LENGTH(16)"
  then consider "n < 8" | "8 \<le> n" "n < 16" by fastforce
  then show "bit ?l n = bit v n"
    unfolding be_u16_or by cases (auto simp: bit_simps)
qed

section \<open>Headers are read as they were written\<close>

text \<open>What \<open>take_header\<close> accepts starts with the bytes of a header, and it drops exactly those.\<close>

lemma header_name_type:
  assumes "hb = x # t" "unat x < length t"
  obtains name ty r where "t = name @ ty # r" "length name = unat x" "hb ! (1 + unat x) = ty"
    "drop (2 + unat x) hb = r"
proof
  show "t = take (unat x) t @ t ! unat x # drop (Suc (unat x)) t"
    using assms(2) by (rule id_take_nth_drop)
qed (use assms in \<open>simp_all\<close>)

lemma take_header_eq:
  assumes "hb = x # name @ ty # r" "length name = unat x" "fits hb"
  shows "take_header hb =
    (if ty = 4 then if length r < 4 then Fail GGL_ERR_PARSE else Ret (drop 4 r)
     else if ty = 7 then
       (case r of
          hi # lo # q \<Rightarrow> if length q < unat (be_u16 hi lo) then Fail GGL_ERR_PARSE
                         else Ret (drop (unat (be_u16 hi lo)) q)
        | _ \<Rightarrow> Fail GGL_ERR_PARSE)
     else Fail GGL_ERR_PARSE)"
proof -
  have idx: "hb ! 0 = x" "hb ! Suc (unat x) = ty" "length hb = 2 + unat x + length r"
    "\<And>k. drop (Suc (Suc (unat x + k))) hb = drop k r"
    "\<And>k. hb ! (Suc (Suc (unat x + k))) = r ! k"
    using assms by (simp_all add: nth_append)
  show ?thesis
  proof (cases r)
    case Nil
    then show ?thesis by (simp add: take_header_def Let_def idx res_guard_def)
  next
    case (Cons hi r')
    then have hi: "hb ! Suc (Suc (unat x)) = hi" using idx(5) [of 0] by simp
    show ?thesis
    proof (cases r')
      case Nil
      with Cons show ?thesis by (simp add: take_header_def Let_def idx res_guard_def)
    next
      case (Cons lo q)
      with \<open>r = hi # r'\<close> have lo: "hb ! Suc (Suc (Suc (unat x))) = lo"
        using idx(5) [of 1] by simp
      with \<open>r = hi # r'\<close> Cons hi assms(3) show ?thesis
        using idx(4) [of 4] idx(4) [of "Suc (Suc (unat (be_u16 hi lo)))"] 
        by (simp add: take_header_def Let_def idx(1-3) res_guard_def)
    qed
  qed
qed

lemma of_nat_unat_byte: "length name = unat (x :: byte) \<Longrightarrow> of_nat (length name) = x"
  by simp

lemma take_header_not_Abort: "take_header hb \<noteq> Abort"
  by (auto simp: take_header_def res_simps Let_def)

lemma take_header_short:
  assumes "take_header hb = Ret rest"
  obtains x t where "hb = x # t" "unat x < length t"
  using assms by (cases hb) (auto simp: take_header_def res_simps Let_def not_less Suc_le_eq)

lemma take_header_Ret:
  assumes "take_header hb = Ret rest" "fits hb"
  shows "\<exists>h. header_ok h \<and> hb = header_bytes h @ rest"
proof -
  from take_header_short [OF assms(1)] obtain x t where xt: "hb = x # t" "unat x < length t" .
  from header_name_type [OF xt] obtain name ty r where t: "t = name @ ty # r" "length name = unat x"
    by metis
  let ?h = "\<lambda>v. \<lparr>header_name = name, header_value = v\<rparr>"
  note eq = take_header_eq [of hb x name ty r, OF _ t(2) assms(2)]
  have n: "length name \<le> 255" "of_nat (length name) = x"
    using t(2) unat_u8_less [of x] by auto
  consider "ty = 4" "\<not> length r < 4" "rest = drop 4 r"
    | hi lo q where "ty = 7" "r = hi # lo # q" "\<not> length q < unat (be_u16 hi lo)"
        "rest = drop (unat (be_u16 hi lo)) q"
    using assms(1) eq xt t by (auto split: if_splits list.splits)
  then show ?thesis
  proof cases
    case 1
    then obtain v where "read_be_uint32 (take 4 r) = Ret v"
      by (simp add: read_be_uint32_def)
    with 1 xt t n show ?thesis
      by (intro exI [of _ "?h (EVENTSTREAM_INT32 v)"])
        (simp add: header_ok_def header_bytes_def write_read_be_u32)
  next
    case 2
    let ?s = "take (unat (be_u16 hi lo)) q"
    have "length ?s = unat (be_u16 hi lo)" using 2 by simp
    moreover have "length ?s \<le> 65535"
      using calculation unat_u16_less [of "be_u16 hi lo"] by simp
    ultimately show ?thesis using 2 xt t n
      by (intro exI [of _ "?h (EVENTSTREAM_STRING ?s)"]) (simp add: header_ok_def header_bytes_def)
  qed
qed

lemma write_be_u16_Cons: "write_be_u16 v = [ucast (drop_bit 8 v), ucast (v AND 0xFF)]"
  by (simp add: write_be_u16_def)

lemma take_header_bytes:
  assumes "header_ok h" "fits (header_bytes h @ rest)"
  shows "take_header (header_bytes h @ rest) = Ret rest"
proof -
  let ?x = "of_nat (length (header_name h)) :: byte"
  have n: "length (header_name h) = unat ?x"
    using assms(1) by (simp add: header_ok_def unat_of_nat)
  have "header_bytes h @ rest = ?x # header_name h @ header_value_type (header_value h)
      # (value_bytes (header_value h) @ rest)"
    by (simp add: header_bytes_def)
  note eq = take_header_eq [OF this n assms(2)]
  show ?thesis
  proof (cases "header_value h")
    case (EVENTSTREAM_INT32 v)
    then show ?thesis unfolding eq by simp
  next
    case (EVENTSTREAM_STRING str)
    then have "unat (of_nat (length str) :: u16) = length str"
      using assms(1) by (simp add: header_ok_def unat_of_nat)
    with EVENTSTREAM_STRING show ?thesis unfolding eq by (simp add: write_be_u16_Cons)
  qed
qed

lemma mem_byte_drop: "drop pos mem = b # t \<Longrightarrow> mem_byte mem pos = Ret b"
  by (metis mem_byte_def drop_all list.distinct(1) not_less nth_via_drop)

lemma mem_slice_drop:
  assumes "drop pos mem = xs @ t" "length xs = n" "pos \<le> length mem"
  shows "mem_slice mem pos n = Ret xs"
proof -
  have "length mem - pos = n + length t" using assms(1,2) by (metis length_append length_drop)
  with assms show ?thesis by (auto simp: mem_slice_def)
qed

lemma drop_add_append:
  assumes "drop pos mem = xs @ t" "pos \<le> length mem"
  shows "drop (pos + length xs) mem = t \<and> pos + length xs \<le> length mem"
proof -
  have "length mem - pos = length xs + length t" using assms(1) by (metis length_append length_drop)
  with assms show ?thesis by (auto simp: add.commute [of pos] drop_drop [symmetric] simp del: drop_drop)
qed

lemma header_next_value_bytes:
  assumes "drop pos mem = value_bytes v @ t" "pos \<le> length mem" "value_ok v"
  shows "header_next_value mem (header_value_type v) pos = Ret (v, pos + length (value_bytes v))"
proof (cases v)
  case (EVENTSTREAM_INT32 w)
  with assms show ?thesis by (simp add: header_next_value_def mem_slice_drop [where xs = "write_be_u32 w"])
next
  case (EVENTSTREAM_STRING str)
  let ?n = "of_nat (length str) :: u16"
  have n: "unat ?n = length str"
    using assms(3) EVENTSTREAM_STRING by (simp add: unat_of_nat)
  have d: "drop pos mem = [ucast (drop_bit 8 ?n)] @ ucast (?n AND 0xFF) # str @ t"
    using assms(1) EVENTSTREAM_STRING by (simp add: write_be_u16_Cons)
  have d2: "drop pos mem = write_be_u16 ?n @ str @ t"
    using assms(1) EVENTSTREAM_STRING by simp
  have "mem_byte mem (pos + 1) = Ret (ucast (?n AND 0xFF))"
    using drop_add_append [OF d assms(2)] by (auto intro: mem_byte_drop)
  moreover have "mem_slice mem (pos + 2) (length str) = Ret str"
    using drop_add_append [OF d2 assms(2)] by (auto intro: mem_slice_drop)
  moreover have "mem_byte mem pos = Ret (ucast (drop_bit 8 ?n))"
    using d by (auto intro: mem_byte_drop)
  ultimately show ?thesis
    using EVENTSTREAM_STRING by (simp add: header_next_value_def n)
qed

lemma header_next_bytes:
  assumes "drop pos mem = header_bytes h @ t" "pos \<le> length mem" "header_ok h" "c \<noteq> 0"
  shows "eventstream_header_next mem \<lparr>iter_count = c, iter_pos = pos\<rparr> =
    Ret (h, \<lparr>iter_count = c - 1, iter_pos = pos + length (header_bytes h)\<rparr>)"
proof -
  let ?x = "of_nat (length (header_name h)) :: byte"
  have n: "unat ?x = length (header_name h)"
    using assms(3) by (simp add: header_ok_def unat_of_nat)
  have d0: "drop pos mem = [?x] @ header_name h @ header_value_type (header_value h)
      # value_bytes (header_value h) @ t"
    using assms(1) by (simp add: header_bytes_def)
  note d1 = drop_add_append [OF d0 assms(2)]
  note d2 = drop_add_append [OF conjunct1 [OF d1] conjunct2 [OF d1]]
  have d3: "drop (pos + 1 + length (header_name h)) mem =
      [header_value_type (header_value h)] @ value_bytes (header_value h) @ t"
    using d2 by simp
  have p3: "pos + 1 + length (header_name h) \<le> length mem" using d2 by simp
  note d4 = drop_add_append [OF d3 p3]
  have "mem_byte mem pos = Ret ?x" using d0 by (auto intro: mem_byte_drop)
  moreover have "mem_slice mem (pos + 1) (length (header_name h)) = Ret (header_name h)"
    using d1 by (auto intro: mem_slice_drop)
  moreover have "mem_byte mem (pos + 1 + length (header_name h))
      = Ret (header_value_type (header_value h))"
    using d3 by (auto intro: mem_byte_drop)
  moreover have "\<not> c < 1" using assms(4) by simp
  moreover have "header_next_value mem (header_value_type (header_value h))
      (pos + 1 + length (header_name h) + 1) =
      Ret (header_value h, pos + length (header_bytes h))"
    using d4 assms(3) by (subst header_next_value_bytes) (simp_all add: header_ok_def header_bytes_def)
  ultimately show ?thesis
    by (simp add: eventstream_header_next_def Let_def n)
qed

lemma header_next_none: "eventstream_header_next mem \<lparr>iter_count = 0, iter_pos = pos\<rparr> = Fail GGL_ERR_RANGE"
  by (simp add: eventstream_header_next_def)

text \<open>Counting the headers validates them: the section is then the bytes of that many headers.\<close>

lemma count_headers_Ret:
  assumes "count_headers hb c = Ret n" "fits hb"
  shows "\<exists>hs. list_all header_ok hs \<and> hb = headers_bytes hs \<and> n = c + of_nat (length hs)"
  using assms
proof (induction hb c rule: count_headers.induct)
  case (1 hb c)
  show ?case
  proof (cases "hb = []")
    case True
    with 1 show ?thesis by (intro exI [of _ "[]"]) (simp add: count_headers.simps)
  next
    case False
    then obtain rest where rest: "take_header hb = Ret rest" "count_headers rest (c + 1) = Ret n"
      using 1 by (auto simp: count_headers.simps [of hb] res_simps)
    obtain h where h: "header_ok h" "hb = header_bytes h @ rest"
      using take_header_Ret [OF rest(1) 1(3)] by blast
    then have "fits rest" using 1(3) fits_append2 by metis
    with 1(1) False rest obtain hs where
      "list_all header_ok hs" "rest = headers_bytes hs" "n = c + 1 + of_nat (length hs)" by auto
    with h show ?thesis by (intro exI [of _ "h # hs"]) (simp add: algebra_simps)
  qed
qed

lemma count_headers_bytes:
  "list_all header_ok hs \<Longrightarrow> fits (headers_bytes hs) \<Longrightarrow>
   count_headers (headers_bytes hs) c = Ret (c + of_nat (length hs))"
proof (induction hs arbitrary: c)
  case (Cons h hs)
  then have "fits (headers_bytes hs)" by (auto dest: fits_append2)
  moreover have "headers_bytes (h # hs) \<noteq> []" by (simp add: header_bytes_def)
  moreover have "take_header (headers_bytes (h # hs)) = Ret (headers_bytes hs)"
    using Cons.prems by (simp add: take_header_bytes)
  ultimately show ?case
    using Cons by (subst count_headers.simps) (simp add: algebra_simps del: concat.simps list.map)
qed (simp add: count_headers.simps)

lemma count_headers_not_Abort: "count_headers hb c \<noteq> Abort"
proof (induction hb c rule: count_headers.induct)
  case (1 hb c)
  then show ?case
    by (subst count_headers.simps) (auto simp: res_simps take_header_not_Abort)
qed

lemma header_loop_bytes:
  assumes "drop pos mem = headers_bytes hs @ t" "pos \<le> length mem" "list_all header_ok hs"
    and "length hs < 2 ^ 32"
  shows "header_loop mem \<lparr>iter_count = of_nat (length hs), iter_pos = pos\<rparr> = Ret hs"
  using assms
proof (induction hs arbitrary: pos)
  case Nil
  then show ?case by (simp add: header_loop.simps header_next_none)
next
  case (Cons h hs)
  have d: "drop pos mem = header_bytes h @ headers_bytes hs @ t" using Cons.prems by simp
  have "unat (of_nat (Suc (length hs)) :: u32) = Suc (length hs)"
    using Cons.prems(4) by (simp only: unat_of_nat) simp
  then have "(of_nat (Suc (length hs)) :: u32) \<noteq> 0" by (metis nat.distinct(1) unat_0)
  moreover note drop_add_append [OF d Cons.prems(2)]
  ultimately show ?case
    using Cons header_next_bytes [OF d Cons.prems(2)] by (subst header_loop.simps) simp
qed

lemma length_headers_bytes: "2 * length hs \<le> length (headers_bytes hs)"
  by (induction hs) (auto simp: header_bytes_def)

section \<open>Packets are read as they were written\<close>

text \<open>A sequence of bytes that ends in the checksum of what precedes it. Both the prelude and the whole
  packet are sealed in this way.\<close>

definition seal :: "buffer \<Rightarrow> buffer" where
  "seal bs = bs @ write_be_u32 (ggl_update_crc 0 bs)"

lemma seal_eq_iff: "length bs = length cs + 4 \<Longrightarrow>
    seal cs = bs \<longleftrightarrow> cs = take (length cs) bs \<and> write_be_u32 (ggl_update_crc 0 cs) = drop (length cs) bs"
  by (metis append_eq_conv_conj append_take_drop_id seal_def)

lemma seal_single_change:
  assumes "i < length (seal x)" "b \<noteq> seal x ! i" "length y = length x"
  shows "(seal x)[i := b] \<noteq> seal y"
proof
  assume eq: "(seal x)[i := b] = seal y"
  show False
  proof (cases "i < length x")
    case True
    then have "x[i := b] @ write_be_u32 (ggl_update_crc 0 x) = y @ write_be_u32 (ggl_update_crc 0 y)"
      using eq by (simp add: seal_def list_update_append1)
    then have "x[i := b] = y" "write_be_u32 (ggl_update_crc 0 x) = write_be_u32 (ggl_update_crc 0 y)"
      using assms(3) by auto
    then have "ggl_update_crc 0 (x[i := b]) = ggl_update_crc 0 x"
      by (metis read_write_be_u32 res.inject(1))
    then show False
      using crc.update_list_update [of i x b 0] True assms(2) by (simp add: seal_def nth_append)
  next
    case False
    then have "x = y"
      using eq assms(3) by (simp add: seal_def list_update_append)
    with eq assms(1,2) show False
      by (metis nth_list_update_eq)
  qed
qed

lemma packet_seal: "packet hb p = seal (packet_body hb p)"
  by (simp add: packet_def seal_def)

lemma packet_body_seal:
  "packet_body hb p = seal (prelude_bytes (length hb) (length p)) @ hb @ p"
  by (simp add: packet_body_def seal_def Let_def)

lemma decode_prelude_seal:
  assumes "length buf = 12" "eventstream_decode_prelude buf = Ret pre"
  shows "buf = seal (take 8 buf)" "prelude_crc pre = ggl_update_crc 0 buf"
    "unat (headers_len pre) + 4 \<le> unat (data_len pre)" "unat (data_len pre) + 12 < 2 ^ 32"
    "take 8 buf = write_be_u32 (data_len pre + 12) @ write_be_u32 (headers_len pre)"
proof -
  have d8: "take 4 (drop 8 buf) = drop 8 buf" using assms(1) by simp
  obtain ml hl pc where
    pc: "read_be_uint32 (drop 8 buf) = Ret pc" "ggl_update_crc 0 (take 8 buf) = pc" and
    ml: "read_be_uint32 (take 4 buf) = Ret ml" and hl: "read_be_uint32 (take 4 (drop 4 buf)) = Ret hl" and
    le: "16 \<le> ml" "hl \<le> ml - 16" and
    pre: "pre = \<lparr>data_len = ml - 12, headers_len = hl,
      prelude_crc = ggl_update_crc pc (drop 8 buf)\<rparr>"
    using assms
    by (auto simp: eventstream_decode_prelude_def ggl_buffer_substr_take_drop Let_def res_simps d8)
  show "buf = seal (take 8 buf)"
    using write_read_be_u32 [OF pc(1)] pc(2) by (simp add: seal_def)
  show "prelude_crc pre = ggl_update_crc 0 buf"
    unfolding pre using ggl_update_crc_append [of 0 "take 8 buf" "drop 8 buf"] pc(2) by simp
  have 16: "16 \<le> unat ml" using le(1) by (simp add: word_le_nat_alt)
  then have ml12: "unat (ml - 12) = unat ml - 12" "unat (ml - 16) = unat ml - 16"
    by (simp_all add: unat_sub word_le_nat_alt)
  then show "unat (headers_len pre) + 4 \<le> unat (data_len pre)" "unat (data_len pre) + 12 < 2 ^ 32"
    using le(2) 16 unat_u32_less [of ml] by (simp_all add: pre word_le_nat_alt)
  have "take 8 buf = take 4 buf @ take 4 (drop 4 buf)"
    by (simp add: take_add [symmetric])
  then show "take 8 buf = write_be_u32 (data_len pre + 12) @ write_be_u32 (headers_len pre)"
    using write_read_be_u32 [OF ml] write_read_be_u32 [OF hl] by (simp add: pre)
qed

lemma decode_prelude_packet:
  assumes "16 + h + p < 2 ^ 32"
  shows "eventstream_decode_prelude (seal (prelude_bytes h p)) =
    Ret \<lparr>data_len = of_nat (4 + h + p), headers_len = of_nat h,
         prelude_crc = ggl_update_crc 0 (seal (prelude_bytes h p))\<rparr>"
proof -
  let ?b = "seal (prelude_bytes h p)" and ?ml = "of_nat (16 + h + p) :: u32"
  have parts: "take 8 ?b = prelude_bytes h p" "drop 8 ?b = write_be_u32 (ggl_update_crc 0 (prelude_bytes h p))"
    "take 4 ?b = write_be_u32 ?ml" "take 4 (drop 4 ?b) = write_be_u32 (of_nat h)" "length ?b = 12"
    by (simp_all add: seal_def prelude_bytes_def)
  have ml: "unat ?ml = 16 + h + p" "unat (of_nat h :: u32) = h"
    using assms by (simp_all only: unat_of_nat) simp_all
  then have 16: "16 \<le> ?ml" by (simp add: word_le_nat_alt)
  then have "unat (?ml - 16) = h + p" using unat_sub [OF 16] ml by (simp del: of_nat_add)
  then have "of_nat h \<le> ?ml - 16" using ml by (simp add: word_le_nat_alt)
  moreover have "?ml - 12 = of_nat (4 + h + p)" by simp
  moreover have "ggl_update_crc (ggl_update_crc 0 (prelude_bytes h p)) (drop 8 ?b) = ggl_update_crc 0 ?b"
    by (subst ggl_update_crc_append) (simp add: seal_def)
  ultimately show ?thesis
    using 16 parts
    by (simp add: eventstream_decode_prelude_def ggl_buffer_substr_take_drop Let_def del: of_nat_add)
qed

lemma eventstream_decode_iff:
  assumes "4 \<le> length data" "unat (headers_len pre) + 4 \<le> length data" "fits data"
  shows "eventstream_decode pre data =
    (if write_be_u32 (ggl_update_crc (prelude_crc pre) (take (length data - 4) data))
          = drop (length data - 4) data
     then res_bind (count_headers (take (unat (headers_len pre)) data) 0) (\<lambda>n.
          res_bind (header_loop data \<lparr>iter_count = n, iter_pos = 0\<rparr>) (\<lambda>_.
          Ret \<lparr>msg_headers = \<lparr>iter_count = n, iter_pos = 0\<rparr>,
               msg_payload = drop (unat (headers_len pre)) (take (length data - 4) data)\<rparr>))
     else Fail GGL_ERR_PARSE)"
proof -
  let ?c = "drop (length data - 4) data"
  obtain v where v: "read_be_uint32 ?c = Ret v"
    using assms(1) by (simp add: read_be_uint32_def)
  then have "(ggl_update_crc c d = v) = (write_be_u32 (ggl_update_crc c d) = ?c)" for c d
    by (metis read_write_be_u32 res.inject(1) write_read_be_u32)
  then show ?thesis
    using assms v
    by (simp add: eventstream_decode_def ggl_buffer_substr_take_drop Let_def drop_take)
qed

text \<open>Once the headers are counted, iterating over them stays inside the data section.\<close>

lemma header_loop_counted:
  assumes "count_headers (take k data) 0 = Ret n" "k \<le> length data" "length data < 2 ^ 32"
  obtains hs where "list_all header_ok hs" "take k data = headers_bytes hs" "n = of_nat (length hs)"
    "header_loop data \<lparr>iter_count = n, iter_pos = 0\<rparr> = Ret hs"
proof -
  have "fits (take k data)" using assms(3) by (simp add: fits_def PTRDIFF_MAX_def)
  from count_headers_Ret [OF assms(1) this] obtain hs where
    hs: "list_all header_ok hs" "take k data = headers_bytes hs" "n = of_nat (length hs)" by auto
  moreover have "drop 0 data = headers_bytes hs @ drop k data"
    using hs(2) by (metis append_take_drop_id drop0)
  moreover have "length hs < 2 ^ 32"
    using length_headers_bytes [of hs] hs(2) assms(2,3) by (metis (no_types, lifting) le_less_trans
        length_take min.absorb2 mult_2 le_add1)
  ultimately have "header_loop data \<lparr>iter_count = of_nat (length hs), iter_pos = 0\<rparr> = Ret hs"
    by (intro header_loop_bytes) auto
  with hs show ?thesis using that by metis
qed

lemma eventstream_decode_not_Abort:
  assumes "length buf = 12" "eventstream_decode_prelude buf = Ret pre"
    and "length data = unat (data_len pre)"
  shows "eventstream_decode pre data \<noteq> Abort \<and>
    (\<forall>msg. eventstream_decode pre data = Ret msg \<longrightarrow> is_Ret (header_loop data (msg_headers msg)))"
proof -
  note p = decode_prelude_seal [OF assms(1,2)]
  have len: "4 \<le> length data" "unat (headers_len pre) + 4 \<le> length data" "length data < 2 ^ 32"
    using p(3,4) assms(3) by auto
  then have f: "fits data" by (simp add: fits_def PTRDIFF_MAX_def)
  let ?n = "count_headers (take (unat (headers_len pre)) data) 0"
  show ?thesis
  proof (cases ?n)
    case (Ret n)
    have "unat (headers_len pre) \<le> length data" using len(2) by simp
    from header_loop_counted [OF Ret this len(3)] obtain hs where
      "header_loop data \<lparr>iter_count = n, iter_pos = 0\<rparr> = Ret hs" by metis
    with Ret show ?thesis by (simp add: eventstream_decode_iff [OF len(1,2) f])
  next
    case (Fail e)
    then show ?thesis by (simp add: eventstream_decode_iff [OF len(1,2) f])
  next
    case Abort
    with count_headers_not_Abort show ?thesis by metis
  qed
qed

text \<open>For every prelude that the decoder accepts and every data section of the length it announces,
  decoding neither reads outside the data section nor fails an assertion, and neither does a loop
  over the headers of the decoded message.\<close>

theorem eventstream_decode_safe:
  assumes "length buf = 12" "eventstream_decode_prelude buf = Ret pre"
    and "length data = unat (data_len pre)"
  shows "eventstream_decode pre data \<noteq> Abort \<and>
    (\<forall>msg. eventstream_decode pre data = Ret msg \<longrightarrow> is_Ret (header_loop data (msg_headers msg)))"
  using assms by (rule eventstream_decode_not_Abort)

definition decode_packet :: "buffer \<Rightarrow> (EventStreamPrelude \<times> EventStreamMessage) res" where
  "decode_packet buf =
     res_bind (eventstream_decode_prelude (take 12 buf)) (\<lambda>pre.
     res_bind (eventstream_decode pre (drop 12 buf)) (\<lambda>msg. Ret (pre, msg)))"

lemma decode_packet_packet:
  assumes "list_all header_ok hs" "16 + length (headers_bytes hs) + length p < 2 ^ 32"
  shows "decode_packet (packet (headers_bytes hs) p) =
      Ret (\<lparr>data_len = of_nat (4 + length (headers_bytes hs) + length p),
            headers_len = of_nat (length (headers_bytes hs)),
            prelude_crc = ggl_update_crc 0 (seal (prelude_bytes (length (headers_bytes hs)) (length p)))\<rparr>,
           \<lparr>msg_headers = \<lparr>iter_count = of_nat (length hs), iter_pos = 0\<rparr>, msg_payload = p\<rparr>) \<and>
    header_loop (drop 12 (packet (headers_bytes hs) p))
      \<lparr>iter_count = of_nat (length hs), iter_pos = 0\<rparr> = Ret hs"
proof -
  let ?hb = "headers_bytes hs" and ?pre = "seal (prelude_bytes (length (headers_bytes hs)) (length p))"
  define data where "data = ?hb @ p @ write_be_u32 (ggl_update_crc 0 (packet_body ?hb p))"
  have l: "length ?pre = 12" by (simp add: seal_def)
  have pkt: "packet ?hb p = ?pre @ data"
    by (simp add: packet_def packet_body_seal data_def)
  then have split: "take 12 (packet ?hb p) = ?pre" "drop 12 (packet ?hb p) = data"
    using l by simp_all
  have n: "unat (of_nat (length ?hb) :: u32) = length ?hb"
    "unat (of_nat (4 + length ?hb + length p) :: u32) = 4 + length ?hb + length p"
    using assms(2) by (simp_all only: unat_of_nat) simp_all
  have f: "fits data" "fits ?hb"
    using assms(2) by (simp_all add: fits_def data_def PTRDIFF_MAX_def)
  have hs: "length hs < 2 ^ 32"
    using length_headers_bytes [of hs] assms(2) by simp
  have loop: "header_loop data \<lparr>iter_count = of_nat (length hs), iter_pos = 0\<rparr> = Ret hs"
    using assms(1) hs by (intro header_loop_bytes) (auto simp: data_def)
  have crc: "ggl_update_crc (ggl_update_crc 0 ?pre) (?hb @ p) = ggl_update_crc 0 (packet_body ?hb p)"
    by (simp add: ggl_update_crc_append packet_body_seal)
  have "eventstream_decode \<lparr>data_len = of_nat (4 + length ?hb + length p),
      headers_len = of_nat (length ?hb), prelude_crc = ggl_update_crc 0 ?pre\<rparr> data =
    Ret \<lparr>msg_headers = \<lparr>iter_count = of_nat (length hs), iter_pos = 0\<rparr>, msg_payload = p\<rparr>"
    using count_headers_bytes [OF assms(1) f(2), of 0] loop
    by (subst eventstream_decode_iff) (simp_all add: n f [unfolded data_def] data_def crc)
  with loop show ?thesis
    unfolding decode_packet_def split decode_prelude_packet [OF assms(2)]
    by (simp del: of_nat_add)
qed

text \<open>C34: a packet is decoded to the headers and the payload it was made from: the prelude announces
  the length of the rest, and looping over the decoded message visits the headers in order.\<close>

theorem eventstream_roundtrip:
  assumes "list_all header_ok hs" "16 + length (headers_bytes hs) + length p < 2 ^ 32"
  shows "\<exists>pre msg. decode_packet (packet (headers_bytes hs) p) = Ret (pre, msg) \<and>
    unat (data_len pre) = length (packet (headers_bytes hs) p) - 12 \<and>
    header_loop (drop 12 (packet (headers_bytes hs) p)) (msg_headers msg) = Ret hs \<and>
    msg_payload msg = p"
proof -
  have "unat (of_nat (4 + length (headers_bytes hs) + length p) :: u32)
      = length (packet (headers_bytes hs) p) - 12"
    using assms(2) by (simp only: unat_of_nat length_packet) simp
  with decode_packet_packet [OF assms] show ?thesis by (simp del: of_nat_add)
qed

theorem eventstream_roundtrip_witness:
  "\<exists>pre msg. decode_packet (packet (headers_bytes
      [\<lparr>header_name = GGL_STR '':stream-id'', header_value = EVENTSTREAM_INT32 5\<rparr>]) [1, 2, 3])
    = Ret (pre, msg) \<and> msg_payload msg = [1, 2, 3]"
  using eventstream_roundtrip [of "[\<lparr>header_name = GGL_STR '':stream-id'',
      header_value = EVENTSTREAM_INT32 5\<rparr>]" "[1, 2, 3]"]
  by (auto simp: header_ok_def header_bytes_def GGL_STR_def)

lemma decode_packet_seal:
  assumes "decode_packet buf = Ret (pre, msg)" "length buf - 12 = unat (data_len pre)"
  shows "\<exists>hs. list_all header_ok hs \<and> buf = packet (headers_bytes hs) (msg_payload msg) \<and>
    header_loop (drop 12 buf) (msg_headers msg) = Ret hs"
proof -
  let ?b = "take 12 buf" and ?d = "drop 12 buf" and ?k = "unat (headers_len pre)"
  from assms(1) have dec: "eventstream_decode_prelude ?b = Ret pre" "eventstream_decode pre ?d = Ret msg"
    by (auto simp: decode_packet_def res_simps)
  then have l: "length ?b = 12"
    by (auto simp: eventstream_decode_prelude_def res_simps)
  note p = decode_prelude_seal [OF l dec(1)]
  have ld: "length ?d = unat (data_len pre)" using assms(2) by simp
  then have len: "4 \<le> length ?d" "?k + 4 \<le> length ?d" "length ?d < 2 ^ 32" and f: "fits ?d"
    using p(3,4) by (simp_all add: fits_def PTRDIFF_MAX_def)
  obtain n where n: "count_headers (take ?k ?d) 0 = Ret n"
    and msg: "msg = \<lparr>msg_headers = \<lparr>iter_count = n, iter_pos = 0\<rparr>,
               msg_payload = drop ?k (take (length ?d - 4) ?d)\<rparr>"
    and crc: "write_be_u32 (ggl_update_crc (prelude_crc pre) (take (length ?d - 4) ?d))
          = drop (length ?d - 4) ?d"
    using dec(2) unfolding eventstream_decode_iff [OF len(1,2) f]
    by (auto simp: res_simps split: if_splits)
  have "?k \<le> length ?d" using len(2) by simp
  from header_loop_counted [OF n this len(3)] obtain hs where hs: "list_all header_ok hs"
    "take ?k ?d = headers_bytes hs" "header_loop ?d \<lparr>iter_count = n, iter_pos = 0\<rparr> = Ret hs" by metis
  define pl where "pl = drop ?k (take (length ?d - 4) ?d)"
  have sizes: "length (headers_bytes hs) = ?k" "length pl = length ?d - 4 - ?k"
    using hs(2) len by (auto simp: pl_def hs(2) [symmetric])
  have "?k \<le> length ?d - 4" using len(2) by linarith
  then have "take ?k (take (length ?d - 4) ?d) = headers_bytes hs"
    using hs(2) by (metis min.absorb1 take_take)
  then have body: "take (length ?d - 4) ?d = headers_bytes hs @ pl"
    unfolding pl_def by (metis append_take_drop_id)
  have "16 + ?k + length pl = unat (data_len pre) + 12"
    using sizes(2) ld len(2) by linarith
  then have ml: "of_nat (16 + ?k + length pl) = data_len pre + 12"
    by (simp only: of_nat_add unsigned_of_nat) simp
  have "take 8 ?b = prelude_bytes ?k (length pl)"
    unfolding prelude_bytes_def ml using p(5) by simp
  then have "?b = seal (prelude_bytes ?k (length pl))"
    using p(1) by simp
  then have pb: "packet_body (headers_bytes hs) pl = ?b @ take (length ?d - 4) ?d"
    unfolding body by (simp add: packet_body_seal sizes(1))
  have "write_be_u32 (ggl_update_crc 0 (?b @ take (length ?d - 4) ?d)) = drop (length ?d - 4) ?d"
    using crc p(2) by (simp only: ggl_update_crc_append)
  then have "packet (headers_bytes hs) pl = ?b @ take (length ?d - 4) ?d @ drop (length ?d - 4) ?d"
    by (simp only: packet_def pb append_assoc)
  then have "packet (headers_bytes hs) pl = buf"
    by (simp only: append_take_drop_id)
  with hs msg show ?thesis by (auto simp: pl_def)
qed

text \<open>C33: the decoder accepts nothing else: if a prelude and a data section of the announced length are
  decoded, then together they are, byte for byte, the packet of the headers and the payload that the
  decoded message yields, and those headers are within the limits of the format.\<close>

theorem eventstream_decode_exact:
  assumes "decode_packet buf = Ret (pre, msg)" "length buf - 12 = unat (data_len pre)"
  shows "\<exists>hs. header_loop (drop 12 buf) (msg_headers msg) = Ret hs \<and> list_all header_ok hs \<and>
    buf = packet (headers_bytes hs) (msg_payload msg)"
  using decode_packet_seal [OF assms] by blast

theorem eventstream_decode_exact_witness:
  "\<exists>hs. list_all header_ok hs \<and> packet [] [7] = packet (headers_bytes hs) [7]"
proof -
  from decode_packet_packet [of "[]" "[7]"]
  have "decode_packet (packet [] [7]) = Ret (\<lparr>data_len = 5, headers_len = 0,
      prelude_crc = ggl_update_crc 0 (seal (prelude_bytes 0 1))\<rparr>,
      \<lparr>msg_headers = \<lparr>iter_count = 0, iter_pos = 0\<rparr>, msg_payload = [7]\<rparr>)" by simp
  from eventstream_decode_exact [OF this] show ?thesis by (auto simp: length_packet)
qed

theorem eventstream_decode_safe_witness:
  "eventstream_decode \<lparr>data_len = 4, headers_len = 0,
     prelude_crc = ggl_update_crc 0 (seal (prelude_bytes 0 0))\<rparr> [1, 2, 3, 4] \<noteq> Abort"
  using eventstream_decode_safe [of "seal (prelude_bytes 0 0)" _ "[1, 2, 3, 4]"]
    decode_prelude_packet [of 0 0] by (simp add: seal_def)

text \<open>C36: changing any single byte of a packet makes decoding fail, whichever byte it is.\<close>

theorem eventstream_corruption_detected:
  assumes "16 + length hb + length p < 2 ^ 32" "i < length (packet hb p)" "b \<noteq> packet hb p ! i"
  shows "\<not> is_Ret (decode_packet ((packet hb p)[i := b]))"
proof
  let ?q = "(packet hb p)[i := b]" and ?s = "seal (prelude_bytes (length hb) (length p))"
  assume "is_Ret (decode_packet ?q)"
  then obtain pre msg where dec: "decode_packet ?q = Ret (pre, msg)"
    by (cases "decode_packet ?q") auto
  then have pre: "eventstream_decode_prelude (take 12 ?q) = Ret pre"
    by (auto simp: decode_packet_def res_simps)
  have ls: "length ?s = 12" by (simp add: seal_def)
  have s: "take 12 (packet hb p) = ?s"
    using ls by (simp add: packet_def packet_body_seal)
  have l: "length (take 12 ?q) = 12" by (simp add: length_packet)
  note sealed = decode_prelude_seal [OF l pre]
  show False
  proof (cases "i < 12")
    case True
    then have "take 12 ?q = ?s[i := b]" by (simp add: take_update_swap s)
    moreover have "b \<noteq> ?s ! i" using True assms(3) by (metis nth_take s)
    ultimately show False
      using seal_single_change [of i "prelude_bytes (length hb) (length p)" b "take 8 (take 12 ?q)"]
        sealed(1) True ls by (simp add: length_packet)
  next
    case False
    then have "take 12 ?q = ?s" using s by simp
    then have "pre = \<lparr>data_len = of_nat (4 + length hb + length p), headers_len = of_nat (length hb),
         prelude_crc = ggl_update_crc 0 ?s\<rparr>"
      using pre decode_prelude_packet [OF assms(1)] by simp
    then have "length ?q - 12 = unat (data_len pre)"
      using assms(1) by (simp only: length_list_update length_packet) (simp add: unat_of_nat del: of_nat_add)
    from decode_packet_seal [OF dec this] obtain hs where "?q = packet (headers_bytes hs) (msg_payload msg)"
      by blast
    then show False
      using seal_single_change [of i "packet_body hb p" b "packet_body (headers_bytes hs) (msg_payload msg)"]
        assms(2,3) by (metis add_right_cancel length_append length_list_update length_write_be_u32
          packet_def packet_seal)
  qed
qed

theorem eventstream_corruption_detected_witness:
  "\<not> is_Ret (decode_packet ((packet [] [1, 2, 3])[0 := 1]))"
  by (rule eventstream_corruption_detected)
    (simp_all add: length_packet packet_def packet_body_def prelude_bytes_def write_be_u32_def Let_def)

section \<open>The common headers of a decoded message\<close>

fun int32_value :: "EventStreamHeader \<Rightarrow> u32 option" where
  "int32_value h = (case header_value h of EVENTSTREAM_INT32 v \<Rightarrow> Some v | EVENTSTREAM_STRING _ \<Rightarrow> None)"

definition named_ints :: "string \<Rightarrow> EventStreamHeader list \<Rightarrow> u32 option list" where
  "named_ints nm hs = map int32_value (filter (\<lambda>h. header_name h = GGL_STR nm) hs)"

definition last_int :: "string \<Rightarrow> u32 \<Rightarrow> EventStreamHeader list \<Rightarrow> u32" where
  "last_int nm d hs = foldl (\<lambda>d v. case v of Some w \<Rightarrow> w | None \<Rightarrow> d) d (named_ints nm hs)"

definition common_names :: "string list" where
  "common_names = ['':message-type'', '':message-flags'', '':stream-id'']"

lemma named_ints_Cons:
  "named_ints nm (h # hs) =
    (if header_name h = GGL_STR nm then int32_value h # named_ints nm hs else named_ints nm hs)"
  by (simp add: named_ints_def)

lemma last_int_Cons:
  "last_int nm d (h # hs) =
    (if header_name h = GGL_STR nm then
       last_int nm (case int32_value h of Some w \<Rightarrow> w | None \<Rightarrow> d) hs else last_int nm d hs)"
  by (simp add: last_int_def named_ints_Cons)

lemma header_loop_Cons:
  "header_loop mem it = Ret (h # hs) \<longleftrightarrow>
    (\<exists>it'. eventstream_header_next mem it = Ret (h, it') \<and> header_loop mem it' = Ret hs)"
  by (subst header_loop.simps) (auto simp: res_simps split: res.splits)

lemma header_loop_Nil: "header_loop mem it = Ret [] \<longleftrightarrow> (\<exists>e. eventstream_header_next mem it = Fail e)"
  by (subst header_loop.simps) (auto simp: res_simps split: res.splits)

lemma common_names_distinct:
  "GGL_STR '':message-type'' \<noteq> GGL_STR '':message-flags''"
  "GGL_STR '':message-type'' \<noteq> GGL_STR '':stream-id''"
  "GGL_STR '':message-flags'' \<noteq> GGL_STR '':stream-id''"
  by (simp_all add: GGL_STR_def)

lemma common_headers_loop_eq:
  assumes "header_loop mem it = Ret hs"
  shows "common_headers_loop mem it out =
    (if \<exists>nm \<in> set common_names. None \<in> set (named_ints nm hs) then Fail GGL_ERR_INVALID
     else Ret \<lparr>stream_id = last_int '':stream-id'' (stream_id out) hs,
               message_type = last_int '':message-type'' (message_type out) hs,
               message_flags = last_int '':message-flags'' (message_flags out) hs\<rparr>)"
  using assms
proof (induction hs arbitrary: it out)
  case Nil
  then show ?case
    by (subst common_headers_loop.simps) (auto simp: header_loop_Nil last_int_def named_ints_def)
next
  case (Cons h hs)
  then obtain it' where it: "eventstream_header_next mem it = Ret (h, it')" "header_loop mem it' = Ret hs"
    by (auto simp: header_loop_Cons)
  note IH = Cons.IH [OF it(2)]
  show ?case
    using common_names_distinct
    by (subst common_headers_loop.simps)
      (auto simp: it IH common_names_def named_ints_Cons last_int_Cons ggl_buffer_eq_def
        split: EventStreamHeaderValue.splits)
qed

text \<open>For a message whose headers have been decoded, the common headers are the last 32-bit values
  under the three names, with -1 and 0 for those that do not occur, and a common header that is a
  string is refused.\<close>

theorem eventstream_get_common_headers_last:
  assumes "header_loop mem (msg_headers msg) = Ret hs"
  shows "eventstream_get_common_headers mem msg =
    (if \<exists>nm \<in> set common_names. None \<in> set (named_ints nm hs) then Fail GGL_ERR_INVALID
     else Ret \<lparr>stream_id = last_int '':stream-id'' 0 hs,
               message_type = last_int '':message-type'' (- 1) hs,
               message_flags = last_int '':message-flags'' 0 hs\<rparr>)"
  using common_headers_loop_eq [OF assms] by (simp add: eventstream_get_common_headers_def)

theorem eventstream_get_common_headers_last_witness:
  "eventstream_get_common_headers (headers_bytes [\<lparr>header_name = GGL_STR '':stream-id'',
       header_value = EVENTSTREAM_INT32 5\<rparr>])
     \<lparr>msg_headers = \<lparr>iter_count = 1, iter_pos = 0\<rparr>, msg_payload = []\<rparr> =
   Ret \<lparr>stream_id = 5, message_type = - 1, message_flags = 0\<rparr>"
proof -
  let ?hs = "[\<lparr>header_name = GGL_STR '':stream-id'', header_value = EVENTSTREAM_INT32 5\<rparr>]"
  have "list_all header_ok ?hs" by (simp add: header_ok_def GGL_STR_def)
  then have "header_loop (headers_bytes ?hs) \<lparr>iter_count = 1, iter_pos = 0\<rparr> = Ret ?hs"
    using header_loop_bytes [of 0 "headers_bytes ?hs" ?hs "[]"] by simp
  then show ?thesis
    using eventstream_get_common_headers_last [of "headers_bytes ?hs"
        "\<lparr>msg_headers = \<lparr>iter_count = 1, iter_pos = 0\<rparr>, msg_payload = []\<rparr>" ?hs] common_names_distinct
    by (simp add: common_names_def named_ints_def last_int_def)
qed

end
