(* ===== verification/ByteCodec.thy ===== *)
theory ByteCodec
  imports GglBuffer
begin

unbundle bit_operations_syntax

text \<open>
  Machine words as bytes in memory. The core bus encoding copies integers with \<^verbatim>\<open>memcpy\<close> on a
  little-endian host (\<^verbatim>\<open>core-bus/src/object_serde.c\<close> asserts that): \<open>le_bytes\<close> and \<open>le_word\<close> are that
  representation at any width. The locale \<open>fixed_codec\<close> is what a reader of a byte stream relies on;
  the 32-bit and the 64-bit codec interpret it.
\<close>

section \<open>Little-endian words\<close>

fun le_bytes :: "nat \<Rightarrow> 'a :: len word \<Rightarrow> buffer" where
  "le_bytes 0 w = []"
| "le_bytes (Suc n) w = ucast w # le_bytes n (drop_bit 8 w)"

fun le_word :: "buffer \<Rightarrow> 'a :: len word" where
  "le_word [] = 0"
| "le_word (b # bs) = ucast b OR push_bit 8 (le_word bs)"

lemma length_le_bytes [simp]: "length (le_bytes n w) = n"
  by (induction n arbitrary: w) auto

lemma le_word_le_bytes: "le_word (le_bytes n w) = take_bit (8 * n) (w :: 'a :: len word)"
proof (induction n arbitrary: w)
  case (Suc n)
  have "bit (ucast (ucast w :: byte) OR push_bit 8 (take_bit (8 * n) (drop_bit 8 w))) i
      = bit (take_bit (8 * Suc n) w) i" if "i < LENGTH('a)" for i
    using that by (cases "i < 8") (auto simp: bit_simps)
  then show ?case
    by (simp only: le_bytes.simps le_word.simps Suc.IH) (rule bit_word_eqI)
qed simp

lemma le_word_bits: "bit (le_word bs :: 'a :: len word) i \<Longrightarrow> i < 8 * length bs"
proof (induction bs arbitrary: i)
  case (Cons b bs)
  then show ?case
    by (cases "i < 8") (auto simp: bit_simps dest: Cons.IH)
qed simp

lemma le_bytes_le_word:
  "8 * length bs \<le> LENGTH('a) \<Longrightarrow> le_bytes (length bs) (le_word bs :: 'a :: len word) = bs"
proof (induction bs)
  case (Cons b bs)
  let ?w = "le_word bs :: 'a word"
  have "ucast (ucast b OR push_bit 8 ?w) = b"
    using Cons.prems by (intro bit_word_eqI) (auto simp: bit_simps)
  moreover have "drop_bit 8 (ucast b OR push_bit 8 ?w) = ?w"
    using Cons.prems le_word_bits [of bs, where 'a = 'a]
    by (intro bit_word_eqI) (fastforce simp: bit_simps)
  ultimately show ?case using Cons by simp
qed simp

section \<open>Codecs of a fixed width\<close>

text \<open>\<open>buf_take\<close> splits a buffer. A buffer is its bytes: the address of one without bytes, which may be null in the
  source, is not part of it.\<close>

definition buf_take :: "nat \<Rightarrow> buffer \<Rightarrow> (buffer \<times> buffer) res" where
  "buf_take n buf = (if n > length buf then Fail GGL_ERR_PARSE else Ret (take n buf, drop n buf))"

lemma buf_take_Ret: "buf_take n buf = Ret (a, r) \<longleftrightarrow> buf = a @ r \<and> length a = n"
  by (auto simp: buf_take_def append_eq_conv_conj)

lemma buf_take_not_Abort [simp]: "buf_take n buf \<noteq> Abort"
  by (simp add: buf_take_def)

locale fixed_codec =
  fixes enc :: "'a \<Rightarrow> buffer" and dec :: "buffer \<Rightarrow> 'a" and width :: nat
  assumes enc_length: "length (enc x) = width"
    and dec_enc: "dec (enc x) = x"
    and enc_dec: "length bs = width \<Longrightarrow> enc (dec bs) = bs"
begin

definition take_word :: "buffer \<Rightarrow> ('a \<times> buffer) res" where
  "take_word buf = res_bind (buf_take width buf) (\<lambda>(bs, rest). Ret (dec bs, rest))"

lemma take_word_enc: "take_word (enc x @ rest) = Ret (x, rest)"
  by (simp add: take_word_def buf_take_def enc_length dec_enc)

lemma take_word_Ret: "take_word buf = Ret (x, rest) \<longleftrightarrow> buf = enc x @ rest"
proof
  assume "take_word buf = Ret (x, rest)"
  then obtain bs where "buf = bs @ rest" "length bs = width" "x = dec bs"
    by (auto simp: take_word_def res_simps buf_take_Ret)
  then show "buf = enc x @ rest" by (simp add: enc_dec)
qed (simp add: take_word_enc)

lemma take_word_not_Abort: "take_word buf \<noteq> Abort"
  by (auto simp: take_word_def res_simps)

lemma enc_inj: "enc x = enc y \<Longrightarrow> x = y"
  by (metis dec_enc)

end

lemma fixed_codec_le:
  assumes "8 * n = LENGTH('a)"
  shows "fixed_codec (le_bytes n :: 'a :: len word \<Rightarrow> buffer) le_word n"
proof
  fix w :: "'a word" and bs :: buffer
  show "length (le_bytes n w) = n" by simp
  have "take_bit (8 * n) w = w"
    unfolding assms by (rule bit_word_eqI) (simp add: bit_simps)
  then show "le_word (le_bytes n w) = w" by (simp add: le_word_le_bytes)
  show "le_bytes n (le_word bs :: 'a word) = bs" if "length bs = n"
    using le_bytes_le_word [of bs, where 'a = 'a] assms that by simp
qed

interpretation le32: fixed_codec "le_bytes 4 :: u32 \<Rightarrow> buffer" le_word 4
  by (rule fixed_codec_le) simp

interpretation le64: fixed_codec "le_bytes 8 :: u64 \<Rightarrow> buffer" le_word 8
  by (rule fixed_codec_le) simp

end
