(* ===== verification/ObjectSerde.thy ===== *)
theory ObjectSerde
  imports ByteCodec GglObject
begin

text \<open>
  The object encoding of the core bus: \<^verbatim>\<open>core-bus/src/object_serde.c\<close>. Serializing and deserializing
  are loops over an explicit stack of nesting levels, bounded by \<^verbatim>\<open>GGL_MAX_OBJECT_DEPTH\<close>; the
  reference is the recursive encoding \<open>ser\<close>. The theory shows that serializing succeeds exactly on the
  objects within the limits that fit the buffer and gives \<open>ser\<close>, that deserializing terminates on
  every input, that what it accepts is an encoding of the object it returns, and that serialized
  objects are read back.
\<close>

section \<open>Serializing\<close>

definition GGL_MAX_OBJECT_DEPTH :: nat where
  "GGL_MAX_OBJECT_DEPTH = 15"

text \<open>A level of the writer: the objects, or the pairs, that are still to be written. The pointer and
  the count of the source are the remaining part of the array.\<close>

datatype NestingLevel = HANDLING_OBJ "GglObject list" | HANDLING_KV "GglKV list"

definition push_parse_state :: "'l list \<Rightarrow> 'l \<Rightarrow> 'l list res" where
  "push_parse_state levels level =
     (if length levels \<ge> GGL_MAX_OBJECT_DEPTH then Fail GGL_ERR_RANGE else Ret (level # levels))"

definition write_bool :: "GglBumpAlloc \<Rightarrow> bool \<Rightarrow> GglBumpAlloc res" where
  "write_bool alloc boolean = bump_write alloc [if boolean then 1 else 0]"

definition write_i64 :: "GglBumpAlloc \<Rightarrow> u64 \<Rightarrow> GglBumpAlloc res" where
  "write_i64 alloc i64 = bump_write alloc (le_bytes 8 i64)"

definition write_f64 :: "GglBumpAlloc \<Rightarrow> u64 \<Rightarrow> GglBumpAlloc res" where
  "write_f64 alloc f64 = bump_write alloc (le_bytes 8 f64)"

definition write_buf :: "GglBumpAlloc \<Rightarrow> buffer \<Rightarrow> GglBumpAlloc res" where
  "write_buf alloc buf =
     res_bind (res_guard (length buf \<le> UINT32_MAX) GGL_ERR_RANGE) (\<lambda>_.
     bump_write alloc (le_bytes 4 (of_nat (length buf) :: u32) @ buf))"

text \<open>\<open>write_list\<close> and \<open>write_map\<close> write the number of items and push a level. The stack is given and
  returned with the innermost level first.\<close>

definition write_list ::
  "GglBumpAlloc \<Rightarrow> NestingLevel list \<Rightarrow> GglList \<Rightarrow> (GglBumpAlloc \<times> NestingLevel list) res" where
  "write_list alloc levels list =
     res_bind (res_guard (length list \<le> UINT32_MAX) GGL_ERR_RANGE) (\<lambda>_.
     res_bind (bump_write alloc (le_bytes 4 (of_nat (length list) :: u32))) (\<lambda>alloc.
     res_bind (push_parse_state levels (HANDLING_OBJ list)) (\<lambda>levels. Ret (alloc, levels))))"

definition write_map ::
  "GglBumpAlloc \<Rightarrow> NestingLevel list \<Rightarrow> GglMap \<Rightarrow> (GglBumpAlloc \<times> NestingLevel list) res" where
  "write_map alloc levels mp =
     res_bind (res_guard (length mp \<le> UINT32_MAX) GGL_ERR_RANGE) (\<lambda>_.
     res_bind (bump_write alloc (le_bytes 4 (of_nat (length mp) :: u32))) (\<lambda>alloc.
     res_bind (push_parse_state levels (HANDLING_KV mp)) (\<lambda>levels. Ret (alloc, levels))))"

definition write_obj ::
  "GglBumpAlloc \<Rightarrow> NestingLevel list \<Rightarrow> GglObject \<Rightarrow> (GglBumpAlloc \<times> NestingLevel list) res" where
  "write_obj alloc levels obj =
     res_bind (bump_write alloc [type_code (obj_type obj)]) (\<lambda>alloc.
     case obj of
       OBJ_NULL \<Rightarrow> Ret (alloc, levels)
     | OBJ_BOOL b \<Rightarrow> res_bind (write_bool alloc b) (\<lambda>alloc. Ret (alloc, levels))
     | OBJ_I64 i \<Rightarrow> res_bind (write_i64 alloc i) (\<lambda>alloc. Ret (alloc, levels))
     | OBJ_F64 f \<Rightarrow> res_bind (write_f64 alloc f) (\<lambda>alloc. Ret (alloc, levels))
     | OBJ_BUF b \<Rightarrow> res_bind (write_buf alloc b) (\<lambda>alloc. Ret (alloc, levels))
     | OBJ_LIST xs \<Rightarrow> write_list alloc levels xs
     | OBJ_MAP kvs \<Rightarrow> write_map alloc levels kvs)"

lemmas write_obj_defs = write_obj_def write_bool_def write_i64_def write_f64_def

text \<open>One turn of the loop takes a pointer to the innermost level; after \<open>write_obj\<close>, which may have
  pushed another level on top, that level moves on to its next item.\<close>

definition advance_level :: "'l list \<Rightarrow> 'l list \<Rightarrow> 'l \<Rightarrow> 'l list" where
  "advance_level levels pushed next_level = pushed[length pushed - length levels := next_level]"

definition serialize_step ::
  "GglBumpAlloc \<Rightarrow> NestingLevel list \<Rightarrow> (GglBumpAlloc \<times> NestingLevel list) res" where
  "serialize_step mem levels =
     (case levels of
        [] \<Rightarrow> Ret (mem, [])
      | HANDLING_OBJ [] # rest \<Rightarrow> Ret (mem, rest)
      | HANDLING_KV [] # rest \<Rightarrow> Ret (mem, rest)
      | HANDLING_OBJ (x # xs) # rest \<Rightarrow>
          res_bind (write_obj mem levels x) (\<lambda>(mem, pushed).
          Ret (mem, advance_level levels pushed (HANDLING_OBJ xs)))
      | HANDLING_KV ((k, v) # kvs) # rest \<Rightarrow>
          res_bind (write_buf mem k) (\<lambda>mem.
          res_bind (write_obj mem levels v) (\<lambda>(mem, pushed).
          Ret (mem, advance_level levels pushed (HANDLING_KV kvs)))))"

text \<open>The work that is left, for the termination of the loop: every object and every level counts.\<close>

fun obj_weight :: "GglObject \<Rightarrow> nat" where
  "obj_weight (OBJ_LIST xs) = 2 + sum_list (map obj_weight xs)"
| "obj_weight (OBJ_MAP kvs) = 2 + sum_list (map (\<lambda>kv. obj_weight (snd kv)) kvs)"
| "obj_weight _ = 1"

fun level_weight :: "NestingLevel \<Rightarrow> nat" where
  "level_weight (HANDLING_OBJ xs) = 1 + sum_list (map obj_weight xs)"
| "level_weight (HANDLING_KV kvs) = 1 + sum_list (map (\<lambda>kv. obj_weight (snd kv)) kvs)"

abbreviation levels_weight :: "NestingLevel list \<Rightarrow> nat" where
  "levels_weight ls \<equiv> sum_list (map level_weight ls)"

lemma obj_weight_pos: "0 < obj_weight x"
  by (cases x) auto

lemma write_obj_pushes:
  assumes "write_obj mem levels x = Ret (mem', pushed)"
  shows "(\<exists>lv. pushed = lv # levels \<and> level_weight lv < obj_weight x) \<or> pushed = levels"
  using assms
  by (cases x) (auto simp: write_obj_defs write_list_def write_map_def push_parse_state_def res_simps
      split: if_splits)

lemma advance_level_same [simp]: "advance_level (l # ls) (l # ls) n = n # ls"
  by (simp add: advance_level_def)

lemma advance_level_pushed [simp]: "advance_level (l # ls) (p # l # ls) n = p # n # ls"
  by (simp add: advance_level_def)

lemma serialize_step_weight:
  assumes "serialize_step mem levels = Ret (mem', levels')" "levels \<noteq> []"
  shows "levels_weight levels' < levels_weight levels"
proof -
  obtain l ls where levels: "levels = l # ls" using assms(2) by (cases levels) auto
  show ?thesis
  proof (cases l)
    case (HANDLING_OBJ xs)
    with assms levels show ?thesis
      by (cases xs) (auto simp: serialize_step_def res_simps obj_weight_pos dest!: write_obj_pushes)
  next
    case (HANDLING_KV kvs)
    with assms levels show ?thesis
      by (cases kvs) (auto simp: serialize_step_def res_simps obj_weight_pos dest!: write_obj_pushes)
  qed
qed

function serialize_loop :: "GglBumpAlloc \<Rightarrow> NestingLevel list \<Rightarrow> GglBumpAlloc res" where
  "serialize_loop mem levels =
     (if length levels > 0 then
        res_bind (serialize_step mem levels) (\<lambda>(mem, levels). serialize_loop mem levels)
      else Ret mem)"
  by pat_completeness auto
termination
  by (relation "measure (\<lambda>(mem, levels). levels_weight levels)") (auto dest: serialize_step_weight)

declare serialize_loop.simps [simp del]

text \<open>The result is the written part of the buffer.\<close>

definition ggl_serialize :: "GglObject \<Rightarrow> buffer \<Rightarrow> buffer res" where
  "ggl_serialize obj buf =
     res_bind (serialize_loop (ggl_bump_alloc_init buf) [HANDLING_OBJ [obj]]) (\<lambda>mem.
     Ret (take (bump_index mem) (bump_buf mem)))"

section \<open>The encoding\<close>

definition ser_buf :: "buffer \<Rightarrow> buffer" where
  "ser_buf b = le_bytes 4 (of_nat (length b) :: u32) @ b"

fun ser :: "GglObject \<Rightarrow> buffer" where
  "ser OBJ_NULL = [0]"
| "ser (OBJ_BOOL b) = [1, if b then 1 else 0]"
| "ser (OBJ_I64 i) = 2 # le_bytes 8 i"
| "ser (OBJ_F64 f) = 3 # le_bytes 8 f"
| "ser (OBJ_BUF b) = 4 # ser_buf b"
| "ser (OBJ_LIST xs) = 5 # le_bytes 4 (of_nat (length xs) :: u32) @ concat (map ser xs)"
| "ser (OBJ_MAP kvs) = 6 # le_bytes 4 (of_nat (length kvs) :: u32) @
     concat (map (\<lambda>kv. ser_buf (fst kv) @ ser (snd kv)) kvs)"

text \<open>An object is within the limits when no buffer, list or map is longer than 32 bits can say, and no
  item is nested deeper than there are levels; \<open>n\<close> counts the levels in use.\<close>

fun obj_ok :: "nat \<Rightarrow> GglObject \<Rightarrow> bool" where
  "obj_ok n (OBJ_BUF b) = (length b \<le> UINT32_MAX)"
| "obj_ok n (OBJ_LIST xs) =
     (length xs \<le> UINT32_MAX \<and> n < GGL_MAX_OBJECT_DEPTH \<and> list_all (obj_ok (Suc n)) xs)"
| "obj_ok n (OBJ_MAP kvs) =
     (length kvs \<le> UINT32_MAX \<and> n < GGL_MAX_OBJECT_DEPTH \<and>
      list_all (\<lambda>kv. length (fst kv) \<le> UINT32_MAX \<and> obj_ok (Suc n) (snd kv)) kvs)"
| "obj_ok n _ = True"

text \<open>An object is written as its head, here, and its items, later, from the level that is pushed.\<close>

fun head_bytes :: "GglObject \<Rightarrow> buffer" where
  "head_bytes (OBJ_LIST xs) = 5 # le_bytes 4 (of_nat (length xs) :: u32)"
| "head_bytes (OBJ_MAP kvs) = 6 # le_bytes 4 (of_nat (length kvs) :: u32)"
| "head_bytes x = ser x"

fun children :: "GglObject \<Rightarrow> NestingLevel list" where
  "children (OBJ_LIST xs) = [HANDLING_OBJ xs]"
| "children (OBJ_MAP kvs) = [HANDLING_KV kvs]"
| "children _ = []"

fun head_ok :: "nat \<Rightarrow> GglObject \<Rightarrow> bool" where
  "head_ok n (OBJ_BUF b) = (length b \<le> UINT32_MAX)"
| "head_ok n (OBJ_LIST xs) = (length xs \<le> UINT32_MAX \<and> n < GGL_MAX_OBJECT_DEPTH)"
| "head_ok n (OBJ_MAP kvs) = (length kvs \<le> UINT32_MAX \<and> n < GGL_MAX_OBJECT_DEPTH)"
| "head_ok n _ = True"

fun level_bytes :: "NestingLevel \<Rightarrow> buffer" where
  "level_bytes (HANDLING_OBJ xs) = concat (map ser xs)"
| "level_bytes (HANDLING_KV kvs) = concat (map (\<lambda>kv. ser_buf (fst kv) @ ser (snd kv)) kvs)"

fun level_ok :: "nat \<Rightarrow> NestingLevel \<Rightarrow> bool" where
  "level_ok n (HANDLING_OBJ xs) = list_all (obj_ok n) xs"
| "level_ok n (HANDLING_KV kvs) = list_all (\<lambda>kv. length (fst kv) \<le> UINT32_MAX \<and> obj_ok n (snd kv)) kvs"

fun levels_ok :: "NestingLevel list \<Rightarrow> bool" where
  "levels_ok [] = True"
| "levels_ok (l # ls) = (level_ok (Suc (length ls)) l \<and> levels_ok ls)"

abbreviation levels_bytes :: "NestingLevel list \<Rightarrow> buffer" where
  "levels_bytes ls \<equiv> concat (map level_bytes ls)"

lemma ser_head: "ser x = head_bytes x @ levels_bytes (children x)"
  by (cases x) auto

lemma obj_ok_head: "obj_ok n x \<longleftrightarrow> head_ok n x \<and> list_all (level_ok (Suc n)) (children x)"
  by (cases x) auto

lemma bump_put_Ret_append:
  "bump_put m (a @ b) = Ret m' \<longleftrightarrow> (\<exists>m1. bump_put m a = Ret m1 \<and> bump_put m1 b = Ret m')"
  by (simp only: bump_put_put [symmetric] res_bind_eq_Ret)

lemma write_buf_Ret:
  assumes "bump_inv m"
  shows "write_buf m b = Ret m' \<longleftrightarrow> length b \<le> UINT32_MAX \<and> bump_put m (ser_buf b) = Ret m'"
  by (auto simp: write_buf_def res_simps bump_write_put [OF assms] ser_buf_def UINT32_MAX_def
      PTRDIFF_MAX_def)

lemma bump_write_small:
  assumes "bump_inv m" "length bs \<le> 8"
  shows "bump_write m bs = bump_put m bs"
  using assms by (intro bump_write_put) (auto simp: PTRDIFF_MAX_def)

lemma write_obj_Ret:
  assumes inv: "bump_inv m"
  shows "write_obj m ls x = Ret (m', pushed) \<longleftrightarrow>
    head_ok (length ls) x \<and> bump_put m (head_bytes x) = Ret m' \<and> pushed = children x @ ls"
proof -
  have tag: "bump_write m [t] = Ret m1 \<longleftrightarrow> bump_put m [t] = Ret m1" for t m1
    using inv by (simp add: bump_write_small)
  have w: "bump_put m [t] = Ret m1 \<Longrightarrow> length bs \<le> 8 \<Longrightarrow> bump_write m1 bs = bump_put m1 bs" for t m1 bs
    using bump_put_inv [OF inv] by (rule bump_write_small)
  have cons: "bump_put m (t # bs) = Ret m2 \<longleftrightarrow> (\<exists>m1. bump_put m [t] = Ret m1 \<and> bump_put m1 bs = Ret m2)"
    for t bs m2 using bump_put_Ret_append [of m "[t]" bs] by simp
  show ?thesis
  proof (cases x)
    case (OBJ_BUF b)
    then show ?thesis
      by (auto simp: write_obj_defs res_simps tag cons [of 4 "ser_buf b"] write_buf_Ret [OF bump_put_inv [OF inv]])
  next
    case (OBJ_LIST xs)
    then show ?thesis
      by (auto simp: write_obj_defs write_list_def push_parse_state_def res_simps tag
          cons [of 5 "le_bytes 4 _"] w split: if_splits)
  next
    case (OBJ_MAP kvs)
    then show ?thesis
      by (auto simp: write_obj_defs write_map_def push_parse_state_def res_simps tag
          cons [of 6 "le_bytes 4 _"] w split: if_splits)
  next
    case (OBJ_BOOL b)
    then show ?thesis
      by (auto simp: write_obj_defs res_simps tag cons [of 1 "[_]"] w)
  qed (auto simp: write_obj_defs res_simps tag cons [of _ "le_bytes 8 _"] w)
qed

lemma levels_ok_append: "list_all (level_ok (Suc (length ls))) (children x) \<and> levels_ok ls \<longleftrightarrow> levels_ok (children x @ ls)"
  by (cases x) auto

lemma serialize_step_Ret:
  assumes inv: "bump_inv m"
  shows "(\<exists>m1 ls1. serialize_step m (l # ls) = Ret (m1, ls1) \<and> levels_ok ls1 \<and>
      bump_put m1 (levels_bytes ls1) = Ret m') \<longleftrightarrow>
    levels_ok (l # ls) \<and> bump_put m (levels_bytes (l # ls)) = Ret m'"
proof -
  have nil: "bump_put m [] = Ret m" using inv by (simp add: bump_put_def bump_inv_def)
  have adv: "advance_level (l # ls) (children x @ l # ls) n = children x @ n # ls" for x n
    by (cases x) auto
  have ok: "levels_ok (children x @ n # ls) \<longleftrightarrow>
      list_all (level_ok (Suc (Suc (length ls)))) (children x) \<and> level_ok (Suc (length ls)) n \<and> levels_ok ls"
    for x n using levels_ok_append [of "n # ls" x] by auto
  show ?thesis
  proof (cases l)
    case (HANDLING_OBJ xs)
    show ?thesis
    proof (cases xs)
      case Nil
      with HANDLING_OBJ show ?thesis by (auto simp: serialize_step_def)
    next
      case (Cons x xs')
      with HANDLING_OBJ adv [of x "HANDLING_OBJ xs'"] ok [of x "HANDLING_OBJ xs'"] show ?thesis
        by (auto simp: serialize_step_def res_simps write_obj_Ret [OF inv] obj_ok_head ser_head
            bump_put_Ret_append)
    qed
  next
    case (HANDLING_KV kvs)
    show ?thesis
    proof (cases kvs)
      case Nil
      with HANDLING_KV show ?thesis by (auto simp: serialize_step_def)
    next
      case (Cons kv kvs')
      obtain k v where kv: "kv = (k, v)" by (cases kv)
      with HANDLING_KV Cons adv [of v "HANDLING_KV kvs'"] ok [of v "HANDLING_KV kvs'"] show ?thesis
        by (auto simp: serialize_step_def res_simps write_buf_Ret [OF inv]
            write_obj_Ret [OF bump_put_inv [OF inv]] obj_ok_head ser_head bump_put_Ret_append)
    qed
  qed
qed

lemma write_obj_inv: "bump_inv m \<Longrightarrow> write_obj m ls x = Ret (m', p) \<Longrightarrow> bump_inv m'"
  by (auto simp: write_obj_Ret intro: bump_put_inv)

lemma write_buf_inv: "bump_inv m \<Longrightarrow> write_buf m b = Ret m' \<Longrightarrow> bump_inv m'"
  by (auto simp: write_buf_Ret intro: bump_put_inv)

lemma serialize_step_inv:
  assumes "bump_inv m" "serialize_step m (l # ls) = Ret (m', ls')"
  shows "bump_inv m'"
  using assms
  by (auto simp: serialize_step_def res_simps split: NestingLevel.splits list.splits)
    (blast dest: write_buf_inv write_obj_inv)+

lemma serialize_loop_Ret:
  "bump_inv m \<Longrightarrow> serialize_loop m ls = Ret m' \<longleftrightarrow>
   levels_ok ls \<and> bump_put m (levels_bytes ls) = Ret m'"
proof (induction m ls rule: serialize_loop.induct)
  case (1 m ls)
  show ?case
  proof (cases ls)
    case Nil
    with 1 show ?thesis by (auto simp: serialize_loop.simps bump_put_def bump_inv_def)
  next
    case (Cons l ls')
    have "serialize_loop m1 ls1 = Ret m' \<longleftrightarrow> levels_ok ls1 \<and> bump_put m1 (levels_bytes ls1) = Ret m'"
      if "serialize_step m ls = Ret (m1, ls1)" for m1 ls1
      using 1 that Cons serialize_step_inv [of m l ls'] by simp
    then have "serialize_loop m ls = Ret m' \<longleftrightarrow> (\<exists>m1 ls1. serialize_step m ls = Ret (m1, ls1) \<and>
        levels_ok ls1 \<and> bump_put m1 (levels_bytes ls1) = Ret m')"
      using Cons by (subst serialize_loop.simps) (auto simp: res_simps)
    with serialize_step_Ret [OF 1(2), of l ls' m'] Cons show ?thesis by simp
  qed
qed

lemma ggl_serialize_Ret:
  assumes "fits buf"
  shows "ggl_serialize obj buf = Ret out \<longleftrightarrow>
    obj_ok 1 obj \<and> length (ser obj) \<le> length buf \<and> out = ser obj"
proof -
  have "bump_inv (ggl_bump_alloc_init buf)"
    using assms by (simp add: bump_inv_def ggl_bump_alloc_init_def)
  then show ?thesis
    by (auto simp: ggl_serialize_def res_simps serialize_loop_Ret bump_put_def
        ggl_bump_alloc_init_def write_at_def split: if_splits)
qed

text \<open>C29: serializing succeeds exactly when no length exceeds 32 bits, no item is nested deeper than the
  limit and the encoding fits the buffer, and it then gives the recursive encoding of the object.\<close>

theorem ggl_serialize_correct:
  assumes "fits buf"
  shows "ggl_serialize obj buf = Ret out \<longleftrightarrow>
    obj_ok 1 obj \<and> length (ser obj) \<le> length buf \<and> out = ser obj"
  using assms by (rule ggl_serialize_Ret)

theorem ggl_serialize_correct_witness:
  "ggl_serialize (OBJ_MAP [([1, 2], OBJ_LIST [OBJ_BOOL True])]) (replicate 64 0) =
     Ret [6, 1, 0, 0, 0, 2, 0, 0, 0, 1, 2, 5, 1, 0, 0, 0, 1, 1]"
proof -
  have "fits (replicate 64 (0 :: byte))" by (simp add: fits_def PTRDIFF_MAX_def)
  moreover have "ser (OBJ_MAP [([1, 2], OBJ_LIST [OBJ_BOOL True])]) =
      [6, 1, 0, 0, 0, 2, 0, 0, 0, 1, 2, 5, 1, 0, 0, 0, 1, 1]"
    by code_simp
  ultimately show ?thesis
    using ggl_serialize_correct [of "replicate 64 0" "OBJ_MAP [([1, 2], OBJ_LIST [OBJ_BOOL True])]"]
    by (simp add: UINT32_MAX_def GGL_MAX_OBJECT_DEPTH_def ser_buf_def)
qed

section \<open>Deserializing\<close>

text \<open>
  A level of the reader is an array that is being filled: the items stored so far, newest first, and
  the number of items to come. The source stores the header of a list or map in its parent's array,
  allocates the item array it points to, and fills it from the level it pushes; here the header is
  stored as an empty container and \<open>fill_last\<close> puts the items in when their level is finished.
\<close>

datatype ReadLevel = READ_OBJ "GglObject list" nat | READ_KV "GglKV list" nat

fun level_remaining :: "ReadLevel \<Rightarrow> nat" where
  "level_remaining (READ_OBJ _ n) = n"
| "level_remaining (READ_KV _ n) = n"

fun level_add :: "ReadLevel \<Rightarrow> buffer \<Rightarrow> GglObject \<Rightarrow> ReadLevel" where
  "level_add (READ_OBJ xs n) k v = READ_OBJ (v # xs) (n - 1)"
| "level_add (READ_KV kvs n) k v = READ_KV ((k, v) # kvs) (n - 1)"

fun level_obj :: "ReadLevel \<Rightarrow> GglObject" where
  "level_obj (READ_OBJ xs _) = OBJ_LIST (rev xs)"
| "level_obj (READ_KV kvs _) = OBJ_MAP (rev kvs)"

fun fill_last :: "ReadLevel \<Rightarrow> GglObject \<Rightarrow> ReadLevel" where
  "fill_last (READ_OBJ (_ # xs) n) v = READ_OBJ (v # xs) n"
| "fill_last (READ_KV ((k, _) # kvs) n) v = READ_KV ((k, v) # kvs) n"
| "fill_last level v = level"

text \<open>Allocating from a null allocator is a failed assertion.\<close>

definition ggl_alloc :: "GglBumpAlloc option \<Rightarrow> nat \<Rightarrow> nat \<Rightarrow> GglBumpAlloc option res" where
  "ggl_alloc alloc sz alignment =
     (case alloc of
        None \<Rightarrow> Abort
      | Some a \<Rightarrow> (case bump_alloc_alloc a sz alignment of
                     None \<Rightarrow> Fail GGL_ERR_NOMEM
                   | Some (_, a') \<Rightarrow> Ret (Some a')))"

definition read_bool :: "buffer \<Rightarrow> (GglObject \<times> buffer) res" where
  "read_bool buf =
     res_bind (buf_take 1 buf) (\<lambda>(temp_buf, buf). Ret (OBJ_BOOL (hd temp_buf \<noteq> 0), buf))"

definition read_i64 :: "buffer \<Rightarrow> (GglObject \<times> buffer) res" where
  "read_i64 buf =
     res_bind (buf_take 8 buf) (\<lambda>(temp_buf, buf). Ret (OBJ_I64 (le_word temp_buf), buf))"

definition read_f64 :: "buffer \<Rightarrow> (GglObject \<times> buffer) res" where
  "read_f64 buf =
     res_bind (buf_take 8 buf) (\<lambda>(temp_buf, buf). Ret (OBJ_F64 (le_word temp_buf), buf))"

definition read_u32 :: "buffer \<Rightarrow> (u32 \<times> buffer) res" where
  "read_u32 buf = res_bind (buf_take 4 buf) (\<lambda>(temp_buf, rest). Ret (le_word temp_buf, rest))"

definition read_buf_raw ::
  "GglBumpAlloc option \<Rightarrow> bool \<Rightarrow> buffer \<Rightarrow> (buffer \<times> GglBumpAlloc option \<times> buffer) res" where
  "read_buf_raw alloc copy_bufs buf =
     res_bind (read_u32 buf) (\<lambda>(len, buf).
     res_bind (buf_take (unat len) buf) (\<lambda>(temp_buf, buf).
     if copy_bufs then
       (case alloc of
          None \<Rightarrow> Abort
        | Some a \<Rightarrow> res_bind (bump_write a temp_buf) (\<lambda>a. Ret (temp_buf, Some a, buf)))
     else Ret (temp_buf, alloc, buf)))"

definition read_buf ::
  "GglBumpAlloc option \<Rightarrow> bool \<Rightarrow> buffer \<Rightarrow> (GglObject \<times> GglBumpAlloc option \<times> buffer) res" where
  "read_buf alloc copy_bufs buf =
     res_bind (read_buf_raw alloc copy_bufs buf) (\<lambda>(val, alloc, buf). Ret (OBJ_BUF val, alloc, buf))"

text \<open>\<open>read_items\<close> is the common part of \<^verbatim>\<open>read_list\<close> and \<^verbatim>\<open>read_map\<close>: an array of \<open>len\<close> items of \<open>sz\<close>
  bytes is allocated and a level pushed, unless there are none.\<close>

definition read_items ::
  "GglBumpAlloc option \<Rightarrow> ReadLevel list \<Rightarrow> nat \<Rightarrow> nat \<Rightarrow> ReadLevel \<Rightarrow>
   (GglBumpAlloc option \<times> ReadLevel list) res" where
  "read_items alloc levels sz len level =
     (if len > 0 then
        res_bind (res_guard (alloc \<noteq> None) GGL_ERR_NOMEM) (\<lambda>_.
        res_bind (ggl_alloc alloc (len * sz) 8) (\<lambda>alloc.
        res_bind (push_parse_state levels level) (\<lambda>levels. Ret (alloc, levels))))
      else Ret (alloc, levels))"

definition read_list ::
  "GglBumpAlloc option \<Rightarrow> ReadLevel list \<Rightarrow> buffer \<Rightarrow>
   (GglObject \<times> GglBumpAlloc option \<times> ReadLevel list \<times> buffer) res" where
  "read_list alloc levels buf =
     res_bind (read_u32 buf) (\<lambda>(len, buf).
     res_bind (read_items alloc levels 24 (unat len) (READ_OBJ [] (unat len))) (\<lambda>(alloc, levels).
     Ret (OBJ_LIST [], alloc, levels, buf)))"

definition read_map ::
  "GglBumpAlloc option \<Rightarrow> ReadLevel list \<Rightarrow> buffer \<Rightarrow>
   (GglObject \<times> GglBumpAlloc option \<times> ReadLevel list \<times> buffer) res" where
  "read_map alloc levels buf =
     res_bind (read_u32 buf) (\<lambda>(len, buf).
     res_bind (read_items alloc levels 40 (unat len) (READ_KV [] (unat len))) (\<lambda>(alloc, levels).
     Ret (OBJ_MAP [], alloc, levels, buf)))"

definition read_obj ::
  "GglBumpAlloc option \<Rightarrow> bool \<Rightarrow> ReadLevel list \<Rightarrow> buffer \<Rightarrow>
   (GglObject \<times> GglBumpAlloc option \<times> ReadLevel list \<times> buffer) res" where
  "read_obj alloc copy_bufs levels buf =
     res_bind (buf_take 1 buf) (\<lambda>(temp_buf, buf).
     let tag = hd temp_buf in
     if tag = 0 then Ret (OBJ_NULL, alloc, levels, buf)
     else if tag = 1 then
       res_bind (read_bool buf) (\<lambda>(val, buf). Ret (val, alloc, levels, buf))
     else if tag = 2 then
       res_bind (read_i64 buf) (\<lambda>(val, buf). Ret (val, alloc, levels, buf))
     else if tag = 3 then
       res_bind (read_f64 buf) (\<lambda>(val, buf). Ret (val, alloc, levels, buf))
     else if tag = 4 then
       res_bind (read_buf alloc copy_bufs buf) (\<lambda>(val, alloc, buf). Ret (val, alloc, levels, buf))
     else if tag = 5 then read_list alloc levels buf
     else if tag = 6 then read_map alloc levels buf
     else Fail GGL_ERR_INVALID)"

lemmas read_obj_defs = read_obj_def read_bool_def read_i64_def read_f64_def read_buf_def

text \<open>One turn of the loop on a level with items to come: the key, if the level has keys, and the
  value.\<close>

definition deserialize_item ::
  "GglBumpAlloc option \<Rightarrow> bool \<Rightarrow> ReadLevel \<Rightarrow> ReadLevel list \<Rightarrow> buffer \<Rightarrow>
   (GglBumpAlloc option \<times> ReadLevel list \<times> buffer) res" where
  "deserialize_item alloc copy_bufs level below rest =
     res_bind
       (case level of
          READ_OBJ _ _ \<Rightarrow> Ret ([], alloc, rest)
        | READ_KV _ _ \<Rightarrow> read_buf_raw alloc copy_bufs rest) (\<lambda>(key, alloc, rest).
     res_bind (read_obj alloc copy_bufs (level # below) rest) (\<lambda>(val, alloc, pushed, rest).
     Ret (alloc, advance_level (level # below) pushed (level_add level key val), rest)))"

lemma read_u32_length: "read_u32 buf = Ret (n, r) \<Longrightarrow> length buf = 4 + length r"
  by (auto simp: read_u32_def res_simps buf_take_Ret)

lemma read_buf_raw_length: "read_buf_raw a c buf = Ret (k, a', r) \<Longrightarrow> length r < length buf"
  by (auto simp: read_buf_raw_def res_simps buf_take_Ret dest!: read_u32_length
      split: if_splits option.splits)

lemma read_obj_length:
  assumes "read_obj a c ls buf = Ret (v, a', ls', r)"
  shows "length r < length buf"
  using assms
  by (auto simp: read_obj_defs read_list_def read_map_def Let_def res_simps buf_take_Ret
      dest!: read_u32_length read_buf_raw_length split: if_splits)

lemma deserialize_item_length:
  "deserialize_item a c l ls buf = Ret (a', ls', r) \<Longrightarrow> length r < length buf"
  by (cases l) (fastforce simp: deserialize_item_def res_simps dest!: read_obj_length read_buf_raw_length)+

text \<open>The loop ends when the outermost level is finished; there is always at least one level.\<close>

function deserialize_loop ::
  "GglBumpAlloc option \<Rightarrow> bool \<Rightarrow> ReadLevel list \<Rightarrow> buffer \<Rightarrow>
   (ReadLevel \<times> GglBumpAlloc option \<times> buffer) res" where
  "deserialize_loop alloc copy_bufs levels rest =
     (case levels of
        [] \<Rightarrow> Abort
      | level # below \<Rightarrow>
          if level_remaining level = 0 then
            (case below of
               [] \<Rightarrow> Ret (level, alloc, rest)
             | parent # outer \<Rightarrow>
                 deserialize_loop alloc copy_bufs (fill_last parent (level_obj level) # outer) rest)
          else
            res_bind (deserialize_item alloc copy_bufs level below rest) (\<lambda>(alloc, levels, rest).
            deserialize_loop alloc copy_bufs levels rest))"
  by pat_completeness auto
termination
  by (relation "measures [\<lambda>(_, _, _, rest). length rest, \<lambda>(_, _, levels, _). length levels]")
    (auto dest: deserialize_item_length)

declare deserialize_loop.simps [simp del]

definition ggl_deserialize ::
  "GglBumpAlloc option \<Rightarrow> bool \<Rightarrow> buffer \<Rightarrow> (GglObject \<times> GglBumpAlloc option) res" where
  "ggl_deserialize alloc copy_bufs buf =
     res_bind (deserialize_loop alloc copy_bufs [READ_OBJ [] 1] buf) (\<lambda>(root, alloc, rest).
     res_bind (res_guard (length rest = 0) GGL_ERR_PARSE) (\<lambda>_.
     case root of READ_OBJ [obj] _ \<Rightarrow> Ret (obj, alloc) | _ \<Rightarrow> Abort))"

section \<open>What is accepted is an encoding\<close>

text \<open>The encodings of an object: those of \<open>ser\<close>, except that any byte other than 0 reads as true.\<close>

inductive encodes :: "GglObject \<Rightarrow> buffer \<Rightarrow> bool"
  and encodes_items :: "GglObject list \<Rightarrow> buffer \<Rightarrow> bool"
  and encodes_pairs :: "GglKV list \<Rightarrow> buffer \<Rightarrow> bool" where
  encodes_NULL: "encodes OBJ_NULL [0]"
| encodes_BOOL: "encodes (OBJ_BOOL (b \<noteq> 0)) [1, b]"
| encodes_I64: "encodes (OBJ_I64 i) (2 # le_bytes 8 i)"
| encodes_F64: "encodes (OBJ_F64 f) (3 # le_bytes 8 f)"
| encodes_BUF: "length b \<le> UINT32_MAX \<Longrightarrow> encodes (OBJ_BUF b) (4 # ser_buf b)"
| encodes_LIST: "length xs \<le> UINT32_MAX \<Longrightarrow> encodes_items xs bs \<Longrightarrow>
    encodes (OBJ_LIST xs) (5 # le_bytes 4 (of_nat (length xs) :: u32) @ bs)"
| encodes_MAP: "length kvs \<le> UINT32_MAX \<Longrightarrow> encodes_pairs kvs bs \<Longrightarrow>
    encodes (OBJ_MAP kvs) (6 # le_bytes 4 (of_nat (length kvs) :: u32) @ bs)"
| encodes_items_Nil: "encodes_items [] []"
| encodes_items_Cons: "encodes x b \<Longrightarrow> encodes_items xs bs \<Longrightarrow> encodes_items (x # xs) (b @ bs)"
| encodes_pairs_Nil: "encodes_pairs [] []"
| encodes_pairs_Cons: "length k \<le> UINT32_MAX \<Longrightarrow> encodes v b \<Longrightarrow> encodes_pairs kvs bs \<Longrightarrow>
    encodes_pairs ((k, v) # kvs) (ser_buf k @ b @ bs)"

lemmas encodes_intros = encodes_encodes_items_encodes_pairs.intros

text \<open>\<open>level_reads l bs l'\<close>: the bytes hold the items that are still missing from \<open>l\<close>, and \<open>l'\<close> is the
  level with them filled in.\<close>

fun level_reads :: "ReadLevel \<Rightarrow> buffer \<Rightarrow> ReadLevel \<Rightarrow> bool" where
  "level_reads (READ_OBJ xs n) bs l \<longleftrightarrow>
     (\<exists>ys. encodes_items ys bs \<and> length ys = n \<and> l = READ_OBJ (rev ys @ xs) 0)"
| "level_reads (READ_KV kvs n) bs l \<longleftrightarrow>
     (\<exists>ys. encodes_pairs ys bs \<and> length ys = n \<and> l = READ_KV (rev ys @ kvs) 0)"

fun key_reads :: "ReadLevel \<Rightarrow> buffer \<Rightarrow> buffer \<Rightarrow> bool" where
  "key_reads (READ_OBJ _ _) k bs \<longleftrightarrow> k = [] \<and> bs = []"
| "key_reads (READ_KV _ _) k bs \<longleftrightarrow> length k \<le> UINT32_MAX \<and> bs = ser_buf k"

lemma level_reads_done: "level_remaining l = 0 \<Longrightarrow> level_reads l bs l' \<longleftrightarrow> bs = [] \<and> l' = l"
  by (cases l) (auto elim: encodes_items.cases encodes_pairs.cases intro: encodes_intros)

lemma level_reads_add:
  assumes "level_remaining l \<noteq> 0" "key_reads l k kb" "encodes v vb" "level_reads (level_add l k v) bs l'"
  shows "level_reads l (kb @ vb @ bs) l'"
proof (cases l)
  case (READ_OBJ xs n)
  with assms obtain ys where "encodes_items ys bs" "length ys = n - 1" "l' = READ_OBJ (rev ys @ v # xs) 0"
    by auto
  with assms READ_OBJ show ?thesis
    by (auto intro!: exI [of _ "v # ys"] encodes_intros)
next
  case (READ_KV kvs n)
  with assms obtain ys where "encodes_pairs ys bs" "length ys = n - 1" "l' = READ_KV (rev ys @ (k, v) # kvs) 0"
    by auto
  with assms READ_KV show ?thesis
    by (auto intro!: exI [of _ "(k, v) # ys"] encodes_intros)
qed

text \<open>\<open>stack_reads ls bs l'\<close>: the bytes complete all levels, from the innermost to the outermost.\<close>

function stack_reads :: "ReadLevel list \<Rightarrow> buffer \<Rightarrow> ReadLevel \<Rightarrow> bool" where
  "stack_reads [] bs out = False"
| "stack_reads [l] bs out = level_reads l bs out"
| "stack_reads (l # p # ls) bs out =
     (\<exists>b1 b2 l'. bs = b1 @ b2 \<and> level_reads l b1 l' \<and> stack_reads (fill_last p (level_obj l') # ls) b2 out)"
  by pat_completeness auto
termination by (relation "measure (\<lambda>(ls, _, _). length ls)") auto

lemma stack_reads_add:
  assumes "level_remaining l \<noteq> 0" "key_reads l k kb" "encodes v vb"
    and "stack_reads (level_add l k v # ls) bs out"
  shows "stack_reads (l # ls) (kb @ vb @ bs) out"
proof (cases ls)
  case Nil
  with assms show ?thesis using level_reads_add by simp
next
  case (Cons p ls')
  with assms obtain b1 b2 l' where "bs = b1 @ b2" "level_reads (level_add l k v) b1 l'"
    "stack_reads (fill_last p (level_obj l') # ls') b2 out" by auto
  with level_reads_add [OF assms(1-3)] show ?thesis
    unfolding Cons stack_reads.simps
    by (intro exI [of _ "kb @ vb @ b1"] exI [of _ b2] exI [of _ l']) simp
qed

lemma fill_last_add: "fill_last (level_add l k v) w = level_add l k w"
  by (cases l) auto

text \<open>A container whose items are read from the level that was pushed for it.\<close>

lemma stack_reads_pushed:
  assumes "level_remaining l \<noteq> 0" "key_reads l k kb"
    and "stack_reads (c # level_add l k v # ls) bs out"
    and "\<And>c' b. level_reads c b c' \<Longrightarrow> encodes (level_obj c') (hb @ b)"
  shows "stack_reads (l # ls) (kb @ hb @ bs) out"
proof -
  from assms(3) obtain b1 b2 c' where b: "bs = b1 @ b2" "level_reads c b1 c'"
    "stack_reads (level_add l k (level_obj c') # ls) b2 out" by (auto simp: fill_last_add)
  from stack_reads_add [OF assms(1,2) assms(4) [OF b(2)] b(3)] b(1) show ?thesis by simp
qed

lemma read_u32_Ret: "read_u32 buf = Ret (n, r) \<longleftrightarrow> buf = le_bytes 4 n @ r"
  using le32.take_word_Ret [of buf n r] by (simp add: read_u32_def le32.take_word_def)

lemma unat_le_UINT32_MAX [simp]: "unat (n :: u32) \<le> UINT32_MAX"
  using unat_u32_less [of n] by (simp add: UINT32_MAX_def)

lemma read_buf_raw_Ret:
  assumes "read_buf_raw a c buf = Ret (k, a', r)"
  shows "buf = ser_buf k @ r \<and> length k \<le> UINT32_MAX"
proof -
  from assms obtain n where "read_u32 buf = Ret (n, k @ r)" "length k = unat n"
    by (auto simp: read_buf_raw_def res_simps buf_take_Ret split: if_splits option.splits)
  then show ?thesis by (simp add: read_u32_Ret ser_buf_def)
qed

lemma read_items_cases:
  assumes "read_items a ls sz n l = Ret (a', ls')"
  shows "n = 0 \<and> ls' = ls \<or> 0 < n \<and> ls' = l # ls"
  using assms by (auto simp: read_items_def push_parse_state_def res_simps split: if_splits)

lemma level_reads_LIST:
  assumes "level_reads (READ_OBJ [] (unat n)) b l'"
  shows "encodes (level_obj l') ((5 # le_bytes 4 (n :: u32)) @ b)"
proof -
  from assms obtain ys where ys: "encodes_items ys b" "length ys = unat n" "l' = READ_OBJ (rev ys) 0"
    by auto
  then have "(of_nat (length ys) :: u32) = n" by simp
  with encodes_LIST [OF _ ys(1)] ys show ?thesis by simp
qed

lemma level_reads_MAP:
  assumes "level_reads (READ_KV [] (unat n)) b l'"
  shows "encodes (level_obj l') ((6 # le_bytes 4 (n :: u32)) @ b)"
proof -
  from assms obtain ys where ys: "encodes_pairs ys b" "length ys = unat n" "l' = READ_KV (rev ys) 0"
    by auto
  then have "(of_nat (length ys) :: u32) = n" by simp
  with encodes_MAP [OF _ ys(1)] ys show ?thesis by simp
qed

text \<open>What \<open>read_obj\<close> consumes is a whole object, or the head of a container whose items are to be read
  from the level it pushes.\<close>

lemma read_obj_Ret:
  assumes "read_obj a c ls buf = Ret (v, a', ls', r)"
  obtains (whole) vb where "buf = vb @ r" "encodes v vb" "ls' = ls"
  | (head) hb l where "buf = hb @ r" "ls' = l # ls" "level_remaining l \<noteq> 0"
      "\<And>l' b. level_reads l b l' \<Longrightarrow> encodes (level_obj l') (hb @ b)"
proof -
  from assms obtain t r0 where buf: "buf = t # r0"
    by (auto simp: read_obj_defs res_simps buf_take_Ret length_Suc_conv)
  consider "t = 0" "v = OBJ_NULL" "r = r0" "ls' = ls"
    | b where "t = 1" "v = OBJ_BOOL (b \<noteq> 0)" "r0 = b # r" "ls' = ls"
    | w where "t = 2" "v = OBJ_I64 w" "r0 = le_bytes 8 w @ r" "ls' = ls"
    | w where "t = 3" "v = OBJ_F64 w" "r0 = le_bytes 8 w @ r" "ls' = ls"
    | k where "t = 4" "v = OBJ_BUF k" "r0 = ser_buf k @ r" "length k \<le> UINT32_MAX" "ls' = ls"
    | n where "t = 5" "v = OBJ_LIST []" "r0 = le_bytes 4 (n :: u32) @ r"
        "unat n = 0 \<and> ls' = ls \<or> 0 < unat n \<and> ls' = READ_OBJ [] (unat n) # ls"
    | n where "t = 6" "v = OBJ_MAP []" "r0 = le_bytes 4 (n :: u32) @ r"
        "unat n = 0 \<and> ls' = ls \<or> 0 < unat n \<and> ls' = READ_KV [] (unat n) # ls"
    using assms buf
    by (auto simp: read_obj_defs read_list_def read_map_def Let_def res_simps buf_take_Ret read_u32_Ret
        length_Suc_conv le64.enc_dec split: if_splits dest!: read_buf_raw_Ret read_items_cases)
      (metis le64.dec_enc le64.enc_dec)+
  then show thesis
  proof cases
    case 1 then show ?thesis using that(1) [of "[0]"] buf encodes_NULL by simp
  next
    case (2 b) then show ?thesis using that(1) [of "[1, b]"] buf encodes_BOOL by simp
  next
    case (3 w) then show ?thesis using that(1) [of "2 # le_bytes 8 w"] buf encodes_I64 by simp
  next
    case (4 w) then show ?thesis using that(1) [of "3 # le_bytes 8 w"] buf encodes_F64 by simp
  next
    case (5 k) then show ?thesis using that(1) [of "4 # ser_buf k"] buf encodes_BUF by simp
  next
    case (6 n)
    then show ?thesis
      using that(1) [of "5 # le_bytes 4 n"] that(2) [of "5 # le_bytes 4 n"] buf level_reads_LIST [of n]
        encodes_items_Nil by (cases "unat n = 0") force+
  next
    case (7 n)
    then show ?thesis
      using that(1) [of "6 # le_bytes 4 n"] that(2) [of "6 # le_bytes 4 n"] buf level_reads_MAP [of n]
        encodes_pairs_Nil by (cases "unat n = 0") force+
  qed
qed

lemma deserialize_loop_Nil: "deserialize_loop a c [] buf = Abort"
  by (subst deserialize_loop.simps) simp

lemma deserialize_loop_root: "level_remaining l = 0 \<Longrightarrow> deserialize_loop a c [l] buf = Ret (l, a, buf)"
  by (subst deserialize_loop.simps) simp

lemma deserialize_loop_pop:
  "level_remaining l = 0 \<Longrightarrow>
   deserialize_loop a c (l # p # ls) buf = deserialize_loop a c (fill_last p (level_obj l) # ls) buf"
  by (subst deserialize_loop.simps) simp

lemma deserialize_loop_item:
  "level_remaining l \<noteq> 0 \<Longrightarrow>
   deserialize_loop a c (l # ls) buf =
     res_bind (deserialize_item a c l ls buf) (\<lambda>(a, ls, r). deserialize_loop a c ls r)"
  by (subst deserialize_loop.simps) simp

lemmas deserialize_loop_cases =
  deserialize_loop_Nil deserialize_loop_root deserialize_loop_pop deserialize_loop_item

lemma deserialize_item_reads:
  assumes item: "deserialize_item a c l ls buf = Ret (a', ls', r)" and rem: "level_remaining l \<noteq> 0"
    and rest: "r = bs @ r'" "stack_reads ls' bs out"
  shows "\<exists>bs'. buf = bs' @ r' \<and> stack_reads (l # ls) bs' out"
proof -
  from item obtain k a1 r1 v p where
    key: "(case l of READ_OBJ _ _ \<Rightarrow> Ret ([], a, buf) | READ_KV _ _ \<Rightarrow> read_buf_raw a c buf) = Ret (k, a1, r1)"
    and val: "read_obj a1 c (l # ls) r1 = Ret (v, a', p, r)"
    and ls': "ls' = advance_level (l # ls) p (level_add l k v)"
    by (auto simp: deserialize_item_def res_simps)
  obtain kb where kb: "key_reads l k kb" "buf = kb @ r1"
    using key by (cases l) (auto dest: read_buf_raw_Ret)
  show ?thesis
  proof (rule read_obj_Ret [OF val])
    fix vb assume "r1 = vb @ r" "encodes v vb" "p = l # ls"
    with stack_reads_add [OF rem kb(1)] rest kb(2) ls' show ?thesis by auto
  next
    fix hb l1 assume hd: "r1 = hb @ r" "p = l1 # l # ls"
      "\<And>l' b. level_reads l1 b l' \<Longrightarrow> encodes (level_obj l') (hb @ b)"
    have "stack_reads (l1 # level_add l k v # ls) bs out" using rest(2) ls' hd(2) by simp
    from stack_reads_pushed [OF rem kb(1) this hd(3)] show ?thesis
      using rest(1) kb(2) hd(1) by auto
  qed
qed

lemma stack_reads_pop:
  assumes "level_remaining l = 0" "stack_reads (fill_last p (level_obj l) # ls) bs out"
  shows "stack_reads (l # p # ls) bs out"
  using assms by (auto simp: level_reads_done)

lemma deserialize_loop_reads:
  assumes "deserialize_loop a c ls buf = Ret (out, a', r')"
  shows "\<exists>bs. buf = bs @ r' \<and> stack_reads ls bs out"
  using assms
proof (induction a c ls buf arbitrary: out a' r' rule: deserialize_loop.induct)
  case (1 a c ls buf)
  then obtain l below where ls: "ls = l # below"
    by (cases ls) (auto simp: deserialize_loop_Nil)
  show ?case
  proof (cases "level_remaining l = 0")
    case fin: True
    show ?thesis
    proof (cases below)
      case Nil
      with 1(3) ls fin show ?thesis by (auto simp: deserialize_loop_root level_reads_done)
    next
      case (Cons p outer)
      with 1(3) ls fin have "deserialize_loop a c (fill_last p (level_obj l) # outer) buf = Ret (out, a', r')"
        by (simp add: deserialize_loop_pop)
      from 1(1) [OF ls fin Cons this] stack_reads_pop [OF fin] show ?thesis
        unfolding ls Cons by blast
    qed
  next
    case more: False
    with 1(3) ls obtain a1 ls1 r1 where item: "deserialize_item a c l below buf = Ret (a1, ls1, r1)"
      and loop: "deserialize_loop a1 c ls1 r1 = Ret (out, a', r')"
      by (auto simp: deserialize_loop_item res_simps)
    from 1(2) [OF ls more item refl refl loop] deserialize_item_reads [OF item more] show ?thesis
      unfolding ls by blast
  qed
qed

inductive_simps encodes_items_Nil_iff: "encodes_items [] bs"

inductive_simps encodes_items_Cons_iff: "encodes_items (x # xs) bs"

lemma deserialize_encodes:
  assumes "ggl_deserialize alloc copy_bufs buf = Ret (obj, alloc')"
  shows "encodes obj buf"
proof -
  from assms obtain root a where loop: "deserialize_loop alloc copy_bufs [READ_OBJ [] 1] buf = Ret (root, a, [])"
    and root: "(case root of READ_OBJ [obj] _ \<Rightarrow> Ret (obj, a) | _ \<Rightarrow> Abort) = Ret (obj, alloc')"
    by (auto simp: ggl_deserialize_def res_simps)
  from root obtain r where "root = READ_OBJ [obj] r"
    by (simp split: ReadLevel.splits list.splits)
  with loop have "deserialize_loop alloc copy_bufs [READ_OBJ [] 1] buf = Ret (READ_OBJ [obj] r, a, [])"
    by simp
  then have "stack_reads [READ_OBJ [] 1] buf (READ_OBJ [obj] r)"
    using deserialize_loop_reads by (metis append_Nil2)
  then obtain ys where "encodes_items ys buf" "[obj] = rev ys" by auto
  then have "encodes_items [obj] buf" by (metis rev_rev_ident rev_singleton_conv)
  then show ?thesis by (auto simp: encodes_items_Cons_iff encodes_items_Nil_iff)
qed

text \<open>C30: whatever bytes the deserializer accepts, they are an encoding of the object it returns.\<close>

theorem ggl_deserialize_sound:
  assumes "ggl_deserialize alloc copy_bufs buf = Ret (obj, alloc')"
  shows "encodes obj buf"
  using assms by (rule deserialize_encodes)

theorem ggl_deserialize_sound_witness:
  "encodes (OBJ_LIST [OBJ_BOOL True]) [5, 1, 0, 0, 0, 1, 9]"
proof -
  have "ggl_deserialize (Some \<lparr>bump_buf = replicate 32 0, bump_index = 0\<rparr>) False [5, 1, 0, 0, 0, 1, 9] =
      Ret (OBJ_LIST [OBJ_BOOL True], Some \<lparr>bump_buf = replicate 32 0, bump_index = 24\<rparr>)"
    by (simp add: ggl_deserialize_def deserialize_loop_cases deserialize_item_def read_obj_defs
        read_list_def read_u32_def buf_take_def read_items_def ggl_alloc_def bump_alloc_alloc_def
        push_parse_state_def GGL_MAX_OBJECT_DEPTH_def size_add_def Let_def)
  then show ?thesis by (rule ggl_deserialize_sound)
qed

section \<open>The deserializer does not abort\<close>

lemma bump_write_not_Abort: "bump_write a bs \<noteq> Abort"
  by (auto simp: bump_write_def split: option.splits)

lemma read_u32_not_Abort: "read_u32 buf \<noteq> Abort"
  by (auto simp: read_u32_def res_simps)

lemma read_buf_raw_not_Abort: "(c \<Longrightarrow> a \<noteq> None) \<Longrightarrow> read_buf_raw a c buf \<noteq> Abort"
  by (auto simp: read_buf_raw_def res_simps read_u32_not_Abort bump_write_not_Abort
      split: option.splits if_splits)

lemma read_buf_raw_alloc: "read_buf_raw a c buf = Ret (k, a', r) \<Longrightarrow> a \<noteq> None \<Longrightarrow> a' \<noteq> None"
  by (auto simp: read_buf_raw_def res_simps split: option.splits if_splits)

lemma read_items_not_Abort: "read_items a ls sz n l \<noteq> Abort"
  by (auto simp: read_items_def push_parse_state_def ggl_alloc_def res_simps split: option.splits if_splits)

lemma read_items_alloc: "read_items a ls sz n l = Ret (a', ls') \<Longrightarrow> a \<noteq> None \<Longrightarrow> a' \<noteq> None"
  by (auto simp: read_items_def ggl_alloc_def res_simps split: option.splits if_splits)

lemma read_obj_not_Abort: "(c \<Longrightarrow> a \<noteq> None) \<Longrightarrow> read_obj a c ls buf \<noteq> Abort"
  by (simp add: read_obj_defs read_list_def read_map_def Let_def res_simps split_def read_u32_not_Abort
      read_buf_raw_not_Abort read_items_not_Abort)

lemma read_obj_alloc: "read_obj a c ls buf = Ret (v, a', ls', r) \<Longrightarrow> a \<noteq> None \<Longrightarrow> a' \<noteq> None"
  by (auto simp: read_obj_defs read_list_def read_map_def Let_def res_simps split: if_splits
      dest: read_items_alloc read_buf_raw_alloc)

lemma deserialize_item_not_Abort: "(c \<Longrightarrow> a \<noteq> None) \<Longrightarrow> deserialize_item a c l ls buf \<noteq> Abort"
  by (cases l; cases c) (auto simp: deserialize_item_def res_simps read_obj_not_Abort read_buf_raw_not_Abort
      dest: read_buf_raw_alloc)

lemma deserialize_item_alloc:
  "deserialize_item a c l ls buf = Ret (a', ls', r) \<Longrightarrow> a \<noteq> None \<Longrightarrow> a' \<noteq> None"
  by (cases l) (force simp: deserialize_item_def res_simps dest: read_obj_alloc read_buf_raw_alloc)+

lemma deserialize_item_levels:
  assumes "deserialize_item a c l ls buf = Ret (a', ls', r)"
  shows "ls' \<noteq> []"
proof -
  from assms obtain a1 r1 v p where "read_obj a1 c (l # ls) r1 = Ret (v, a', p, r)" "length ls' = length p"
    by (auto simp: deserialize_item_def res_simps advance_level_def)
  then show ?thesis by (auto elim!: read_obj_Ret)
qed

lemma deserialize_loop_not_Abort:
  assumes "c \<longrightarrow> a \<noteq> None" "ls \<noteq> []"
  shows "deserialize_loop a c ls buf \<noteq> Abort"
  using assms
proof (induction a c ls buf rule: deserialize_loop.induct)
  case (1 a c ls buf)
  then obtain l below where ls: "ls = l # below" by (cases ls) auto
  show ?case
  proof (cases "level_remaining l = 0")
    case fin: True
    show ?thesis
      by (cases below) (use 1(1) [OF ls fin] 1(3) ls fin in \<open>auto simp: deserialize_loop_root deserialize_loop_pop\<close>)
  next
    case more: False
    have "deserialize_loop a1 c ls1 r1 \<noteq> Abort" if "deserialize_item a c l below buf = Ret (a1, ls1, r1)"
      for a1 ls1 r1
      using 1(2) [OF ls more that refl refl] 1(3) deserialize_item_alloc [OF that]
        deserialize_item_levels [OF that] by auto
    then show ?thesis
      using 1(3) deserialize_item_not_Abort [of c a] unfolding ls
      by (auto simp: deserialize_loop_item [OF more] res_simps)
  qed
qed

lemma ggl_deserialize_not_Abort:
  assumes "copy_bufs \<longrightarrow> alloc \<noteq> None"
  shows "ggl_deserialize alloc copy_bufs buf \<noteq> Abort"
proof
  assume "ggl_deserialize alloc copy_bufs buf = Abort"
  then obtain root a where loop: "deserialize_loop alloc copy_bufs [READ_OBJ [] 1] buf = Ret (root, a, [])"
    and root: "(case root of READ_OBJ [obj] _ \<Rightarrow> Ret (obj, a) | _ \<Rightarrow> Abort) = Abort"
    using deserialize_loop_not_Abort [OF assms, of "[READ_OBJ [] 1]" buf]
    by (auto simp: ggl_deserialize_def res_simps)
  from deserialize_loop_reads [OF loop] obtain ys where "length ys = 1" "root = READ_OBJ (rev ys) 0" by auto
  with root show False by (cases ys) auto
qed

text \<open>C32: deserializing ends for every sequence of bytes, with an object or an error code: no assertion
  fails and no level is missing. An allocator is needed only when buffers are to be copied.\<close>

theorem ggl_deserialize_total:
  assumes "copy_bufs \<longrightarrow> alloc \<noteq> None"
  shows "ggl_deserialize alloc copy_bufs buf \<noteq> Abort"
  using assms by (rule ggl_deserialize_not_Abort)

theorem ggl_deserialize_total_witness: "ggl_deserialize None False [5, 255, 255, 255, 255, 6] \<noteq> Abort"
  by (rule ggl_deserialize_total) simp

section \<open>What is serialized is read back\<close>

text \<open>The memory that the arrays of an object take: 24 bytes for an item of a list, 40 for one of a map.\<close>

fun need :: "GglObject \<Rightarrow> nat" where
  "need (OBJ_LIST xs) = length xs * 24 + sum_list (map need xs)"
| "need (OBJ_MAP kvs) = length kvs * 40 + sum_list (map (\<lambda>kv. need (snd kv)) kvs)"
| "need _ = 0"

definition bump_adv :: "GglBumpAlloc \<Rightarrow> nat \<Rightarrow> GglBumpAlloc" where
  "bump_adv a n = a\<lparr>bump_index := bump_index a + n\<rparr>"

definition room :: "GglBumpAlloc \<Rightarrow> nat \<Rightarrow> bool" where
  "room a n \<longleftrightarrow> bump_inv a \<and> bump_index a mod 8 = 0 \<and> n mod 8 = 0 \<and>
     bump_index a + n \<le> length (bump_buf a)"

lemma sum_list_mod_8: "(\<And>x. x \<in> set xs \<Longrightarrow> f x mod 8 = (0::nat)) \<Longrightarrow> sum_list (map f xs) mod 8 = 0"
  by (induction xs) (auto simp: mod_add_eq [symmetric, of _ "sum_list _"])

lemma need_mod_8: "need v mod 8 = 0"
proof (induction v rule: need.induct)
  case (1 xs)
  then have "sum_list (map need xs) mod 8 = 0" by (intro sum_list_mod_8)
  moreover have "length xs * 24 mod 8 = 0" by presburger
  ultimately show ?case by (simp add: mod_add_eq [symmetric])
next
  case (2 kvs)
  then have "sum_list (map (\<lambda>kv. need (snd kv)) kvs) mod 8 = 0" by (intro sum_list_mod_8) auto
  moreover have "length kvs * 40 mod 8 = 0" by presburger
  ultimately show ?case by (simp add: mod_add_eq [symmetric])
qed auto

lemma room_split:
  assumes "room a (m + n)" "m mod 8 = 0"
  shows "room a m" "room (bump_adv a m) n"
proof -
  have "n mod 8 = 0" "(bump_index a + m) mod 8 = 0"
    using assms by (auto simp: room_def) presburger+
  with assms show "room a m" "room (bump_adv a m) n"
    by (auto simp: room_def bump_adv_def bump_inv_def)
qed

lemma bump_adv_add: "bump_adv (bump_adv a m) n = bump_adv a (m + n)"
  by (simp add: bump_adv_def add.assoc)

lemma bump_adv_0 [simp]: "bump_adv a 0 = a"
  by (simp add: bump_adv_def)

lemma ggl_alloc_room:
  assumes "room a n"
  shows "ggl_alloc (Some a) n 8 = Ret (Some (bump_adv a n))"
proof (cases "n + 8 \<le> PTRDIFF_MAX")
  case True
  then have "bump_req n 8" by (simp add: bump_req_def)
  with assms show ?thesis
    by (simp add: ggl_alloc_def bump_alloc_cases room_def bump_adv_def Let_def)
next
  case False
  with assms show ?thesis
    by (simp add: ggl_alloc_def bump_alloc_alloc_def room_def bump_adv_def size_add_def bump_inv_def
        fits_def PTRDIFF_MAX_def Let_def)
qed

lemma read_u32_bytes [simp]: "read_u32 (le_bytes 4 n @ r) = Ret (n, r)"
  by (simp add: read_u32_Ret)

lemma unat_of_nat_u32: "n \<le> UINT32_MAX \<Longrightarrow> unat (of_nat n :: u32) = n"
  by (simp add: unat_of_nat UINT32_MAX_def)

lemma read_buf_raw_bytes:
  "length k \<le> UINT32_MAX \<Longrightarrow> read_buf_raw a False (ser_buf k @ r) = Ret (k, a, r)"
  by (simp add: read_buf_raw_def ser_buf_def unat_of_nat_u32 buf_take_def)

lemma deserialize_item_bytes:
  assumes "key_reads l k kb" "read_obj a False (l # ls) (vb @ r) = Ret (v, a', p, r')"
  shows "deserialize_item a False l ls (kb @ vb @ r) =
    Ret (a', advance_level (l # ls) p (level_add l k v), r')"
  using assms by (cases l) (auto simp: deserialize_item_def read_buf_raw_bytes)

lemma read_obj_scalar:
  assumes "children v = []" "head_ok n v"
  shows "read_obj a False ls (ser v @ r) = Ret (v, a, ls, r)"
  using assms
  by (cases v) (auto simp: read_obj_defs buf_take_def Let_def le64.dec_enc read_buf_raw_bytes)

text \<open>\<open>reads_back v\<close>: from any level that expects an item, the loop reads \<open>v\<close> and goes on after it.\<close>

definition reads_back :: "GglObject \<Rightarrow> bool" where
  "reads_back v \<longleftrightarrow> (\<forall>l ls k kb a r. key_reads l k kb \<longrightarrow> level_remaining l \<noteq> 0 \<longrightarrow>
     obj_ok (Suc (length ls)) v \<longrightarrow> room a (need v) \<longrightarrow>
     deserialize_loop (Some a) False (l # ls) (kb @ ser v @ r) =
     deserialize_loop (Some (bump_adv a (need v))) False (level_add l k v # ls) r)"

lemma reads_backD:
  assumes "reads_back v" "key_reads l k kb" "level_remaining l \<noteq> 0" "obj_ok (Suc (length ls)) v"
    "room a (need v)"
  shows "deserialize_loop (Some a) False (l # ls) (kb @ ser v @ r) =
     deserialize_loop (Some (bump_adv a (need v))) False (level_add l k v # ls) r"
  using assms by (auto simp: reads_back_def)

lemma reads_back_items:
  assumes "\<And>x. x \<in> set xs \<Longrightarrow> reads_back x" "length xs \<le> n" "list_all (obj_ok (Suc (length ls))) xs"
    "room a (sum_list (map need xs))"
  shows "deserialize_loop (Some a) False (READ_OBJ ys n # ls) (concat (map ser xs) @ r) =
    deserialize_loop (Some (bump_adv a (sum_list (map need xs)))) False
      (READ_OBJ (rev xs @ ys) (n - length xs) # ls) r"
  using assms
proof (induction xs arbitrary: a n ys)
  case (Cons x xs)
  note room = room_split [OF Cons.prems(4) [simplified] need_mod_8]
  from Cons.prems reads_backD [of x "READ_OBJ ys n" "[]" "[]" ls a "concat (map ser xs) @ r"] room(1)
  have "deserialize_loop (Some a) False (READ_OBJ ys n # ls) (concat (map ser (x # xs)) @ r) =
      deserialize_loop (Some (bump_adv a (need x))) False (READ_OBJ (x # ys) (n - 1) # ls)
        (concat (map ser xs) @ r)" by simp
  also have "\<dots> = deserialize_loop (Some (bump_adv (bump_adv a (need x)) (sum_list (map need xs)))) False
      (READ_OBJ (rev xs @ x # ys) (n - 1 - length xs) # ls) r"
    using Cons.prems room(2) by (intro Cons.IH) auto
  finally show ?case by (simp add: bump_adv_add)
qed simp

lemma reads_back_pairs:
  assumes "\<And>kv. kv \<in> set kvs \<Longrightarrow> reads_back (snd kv)" "length kvs \<le> n"
    "list_all (\<lambda>kv. length (fst kv) \<le> UINT32_MAX \<and> obj_ok (Suc (length ls)) (snd kv)) kvs"
    "room a (sum_list (map (\<lambda>kv. need (snd kv)) kvs))"
  shows "deserialize_loop (Some a) False (READ_KV ys n # ls)
      (concat (map (\<lambda>kv. ser_buf (fst kv) @ ser (snd kv)) kvs) @ r) =
    deserialize_loop (Some (bump_adv a (sum_list (map (\<lambda>kv. need (snd kv)) kvs)))) False
      (READ_KV (rev kvs @ ys) (n - length kvs) # ls) r"
  using assms
proof (induction kvs arbitrary: a n ys)
  case (Cons kv kvs)
  let ?rest = "concat (map (\<lambda>kv. ser_buf (fst kv) @ ser (snd kv)) kvs) @ r"
  obtain k v where kv: "kv = (k, v)" by (cases kv)
  note room = room_split [OF Cons.prems(4) [unfolded kv, simplified] need_mod_8]
  from Cons.prems kv reads_backD [of v "READ_KV ys n" k "ser_buf k" ls a ?rest] room(1)
  have "deserialize_loop (Some a) False (READ_KV ys n # ls) (ser_buf k @ ser v @ ?rest) =
      deserialize_loop (Some (bump_adv a (need v))) False (READ_KV ((k, v) # ys) (n - 1) # ls) ?rest"
    by force
  also have "\<dots> = deserialize_loop (Some (bump_adv (bump_adv a (need v))
        (sum_list (map (\<lambda>kv. need (snd kv)) kvs)))) False
      (READ_KV (rev kvs @ (k, v) # ys) (n - 1 - length kvs) # ls) r"
    using Cons.prems room(2) by (intro Cons.IH) auto
  finally show ?case by (simp add: bump_adv_add kv)
qed simp

lemma read_items_room:
  assumes "room a (n * sz)" "n \<noteq> 0" "length ls < GGL_MAX_OBJECT_DEPTH"
  shows "read_items (Some a) ls sz n l = Ret (Some (bump_adv a (n * sz)), l # ls)"
  using assms by (simp add: read_items_def ggl_alloc_room push_parse_state_def)

text \<open>Reading a container: its head pushes a level, the items are read there, and the level is put into
  its parent.\<close>

lemma reads_back_container:
  assumes key: "key_reads l k kb" and rem: "level_remaining l \<noteq> 0"
    and head: "read_obj (Some a) False (l # ls) (hb @ bs @ r) = Ret (v0, Some a1, c # l # ls, bs @ r)"
    and items: "deserialize_loop (Some a1) False (c # level_add l k v0 # ls) (bs @ r) =
      deserialize_loop (Some a2) False (c' # level_add l k v0 # ls) r"
    and fin: "level_remaining c' = 0" "level_obj c' = v"
  shows "deserialize_loop (Some a) False (l # ls) (kb @ hb @ bs @ r) =
    deserialize_loop (Some a2) False (level_add l k v # ls) r"
proof -
  have "deserialize_loop (Some a) False (l # ls) (kb @ hb @ bs @ r) =
      deserialize_loop (Some a1) False (c # level_add l k v0 # ls) (bs @ r)"
    using deserialize_item_bytes [OF key head] by (simp add: deserialize_loop_item [OF rem])
  also have "\<dots> = deserialize_loop (Some a2) False (level_add l k v # ls) r"
    unfolding items by (simp add: deserialize_loop_pop [OF fin(1)] fill_last_add fin(2))
  finally show ?thesis .
qed

lemma reads_back_scalar:
  assumes "children v = []"
  shows "reads_back v"
proof -
  have v: "need v = 0" "obj_ok n v \<Longrightarrow> head_ok n v" for n using assms by (cases v; simp)+
  have "deserialize_item (Some a) False l ls (kb @ ser v @ r) = Ret (Some a, level_add l k v # ls, r)"
    if "key_reads l k kb" "obj_ok (Suc (length ls)) v" for l ls k kb a r
    using deserialize_item_bytes [OF that(1) read_obj_scalar [OF assms v(2) [OF that(2)]]] by simp
  then show ?thesis
    by (simp add: reads_back_def v(1) deserialize_loop_item)
qed

lemma reads_back_LIST:
  assumes "\<And>x. x \<in> set xs \<Longrightarrow> reads_back x"
  shows "reads_back (OBJ_LIST xs)"
  unfolding reads_back_def
proof (intro allI impI)
  fix l k kb a r and ls :: "ReadLevel list"
  assume key: "key_reads l k kb" and rem: "level_remaining l \<noteq> 0"
    and ok: "obj_ok (Suc (length ls)) (OBJ_LIST xs)" and room: "room a (need (OBJ_LIST xs))"
  let ?n = "length xs" and ?hb = "5 # le_bytes 4 (of_nat (length xs) :: u32)" and ?bs = "concat (map ser xs)"
  have n: "unat (of_nat ?n :: u32) = ?n" using ok by (simp add: unat_of_nat_u32)
  have head: "read_obj (Some a) False ls' (?hb @ q) =
      res_bind (read_items (Some a) ls' 24 ?n (READ_OBJ [] ?n)) (\<lambda>(a, ls). Ret (OBJ_LIST [], a, ls, q))" for ls' q
    by (simp add: read_obj_defs read_list_def buf_take_def n)
  show "deserialize_loop (Some a) False (l # ls) (kb @ ser (OBJ_LIST xs) @ r) =
      deserialize_loop (Some (bump_adv a (need (OBJ_LIST xs)))) False (level_add l k (OBJ_LIST xs) # ls) r"
  proof (cases "xs = []")
    case True
    then have "read_obj (Some a) False (l # ls) (?hb @ r) = Ret (OBJ_LIST [], Some a, l # ls, r)"
      by (subst head) (simp add: read_items_def)
    from deserialize_item_bytes [OF key this] True show ?thesis
      by (simp add: deserialize_loop_item [OF rem])
  next
    case False
    note rooms = room_split [OF room [unfolded need.simps]]
    have r8: "?n * 24 mod 8 = 0" by presburger
    have "read_obj (Some a) False (l # ls) (?hb @ ?bs @ r) =
        Ret (OBJ_LIST [], Some (bump_adv a (?n * 24)), READ_OBJ [] ?n # l # ls, ?bs @ r)"
      using False ok read_items_room [OF rooms(1) [OF r8]] by (subst head) simp
    moreover have "deserialize_loop (Some (bump_adv a (?n * 24))) False
        (READ_OBJ [] ?n # level_add l k (OBJ_LIST []) # ls) (?bs @ r) =
      deserialize_loop (Some (bump_adv a (need (OBJ_LIST xs)))) False
        (READ_OBJ (rev xs) 0 # level_add l k (OBJ_LIST []) # ls) r"
      using reads_back_items [OF assms, of xs ?n "level_add l k (OBJ_LIST []) # ls" _ "[]" r]
        ok rooms(2) [OF r8] by (simp add: bump_adv_add)
    ultimately have "deserialize_loop (Some a) False (l # ls) (kb @ ?hb @ ?bs @ r) =
      deserialize_loop (Some (bump_adv a (need (OBJ_LIST xs)))) False (level_add l k (OBJ_LIST xs) # ls) r"
      by (rule reads_back_container [OF key rem]) simp_all
    then show ?thesis by simp
  qed
qed

lemma reads_back_MAP:
  assumes "\<And>kv. kv \<in> set kvs \<Longrightarrow> reads_back (snd kv)"
  shows "reads_back (OBJ_MAP kvs)"
  unfolding reads_back_def
proof (intro allI impI)
  fix l k kb a r and ls :: "ReadLevel list"
  assume key: "key_reads l k kb" and rem: "level_remaining l \<noteq> 0"
    and ok: "obj_ok (Suc (length ls)) (OBJ_MAP kvs)" and room: "room a (need (OBJ_MAP kvs))"
  let ?n = "length kvs" and ?hb = "6 # le_bytes 4 (of_nat (length kvs) :: u32)" and ?bs = "concat (map (\<lambda>kv. ser_buf (fst kv) @ ser (snd kv)) kvs)"
  have n: "unat (of_nat ?n :: u32) = ?n" using ok by (simp add: unat_of_nat_u32)
  have head: "read_obj (Some a) False ls' (?hb @ q) =
      res_bind (read_items (Some a) ls' 40 ?n (READ_KV [] ?n)) (\<lambda>(a, ls). Ret (OBJ_MAP [], a, ls, q))" for ls' q
    by (simp add: read_obj_defs read_map_def buf_take_def n)
  show "deserialize_loop (Some a) False (l # ls) (kb @ ser (OBJ_MAP kvs) @ r) =
      deserialize_loop (Some (bump_adv a (need (OBJ_MAP kvs)))) False (level_add l k (OBJ_MAP kvs) # ls) r"
  proof (cases "kvs = []")
    case True
    then have "read_obj (Some a) False (l # ls) (?hb @ r) = Ret (OBJ_MAP [], Some a, l # ls, r)"
      by (subst head) (simp add: read_items_def)
    from deserialize_item_bytes [OF key this] True show ?thesis
      by (simp add: deserialize_loop_item [OF rem])
  next
    case False
    note rooms = room_split [OF room [unfolded need.simps]]
    have r8: "?n * 40 mod 8 = 0" by presburger
    have "read_obj (Some a) False (l # ls) (?hb @ ?bs @ r) =
        Ret (OBJ_MAP [], Some (bump_adv a (?n * 40)), READ_KV [] ?n # l # ls, ?bs @ r)"
      using False ok read_items_room [OF rooms(1) [OF r8]] by (subst head) simp
    moreover have "deserialize_loop (Some (bump_adv a (?n * 40))) False
        (READ_KV [] ?n # level_add l k (OBJ_MAP []) # ls) (?bs @ r) =
      deserialize_loop (Some (bump_adv a (need (OBJ_MAP kvs)))) False
        (READ_KV (rev kvs) 0 # level_add l k (OBJ_MAP []) # ls) r"
      using reads_back_pairs [OF assms, of kvs ?n "level_add l k (OBJ_MAP []) # ls" _ "[]" r]
        ok rooms(2) [OF r8] by (simp add: bump_adv_add)
    ultimately have "deserialize_loop (Some a) False (l # ls) (kb @ ?hb @ ?bs @ r) =
      deserialize_loop (Some (bump_adv a (need (OBJ_MAP kvs)))) False (level_add l k (OBJ_MAP kvs) # ls) r"
      by (rule reads_back_container [OF key rem]) simp_all
    then show ?thesis by simp
  qed
qed

lemma reads_back: "reads_back v"
proof (induction v rule: need.induct)
  case (1 xs)
  then show ?case by (rule reads_back_LIST)
next
  case (2 kvs)
  then show ?case by (intro reads_back_MAP) auto
qed (simp_all add: reads_back_scalar)

lemma ggl_deserialize_ser:
  assumes "obj_ok 1 obj" "bump_inv alloc" "bump_index alloc mod 8 = 0"
    and "bump_index alloc + need obj \<le> length (bump_buf alloc)"
  shows "ggl_deserialize (Some alloc) False (ser obj) =
    Ret (obj, Some (alloc\<lparr>bump_index := bump_index alloc + need obj\<rparr>))"
proof -
  have "room alloc (need obj)"
    using assms by (simp add: room_def need_mod_8)
  from reads_backD [OF reads_back, of "READ_OBJ [] 1" "[]" "[]" "[]" obj, OF _ _ _ this, of "[]"] assms(1)
  have "deserialize_loop (Some alloc) False [READ_OBJ [] 1] (ser obj) =
      Ret (READ_OBJ [obj] 0, Some (bump_adv alloc (need obj)), [])"
    by (simp add: deserialize_loop_root)
  then show ?thesis by (simp add: ggl_deserialize_def bump_adv_def)
qed

section \<open>Encodings are uniquely decodable\<close>

lemma le32_append_inj:
  "le_bytes 4 (a :: u32) @ r = le_bytes 4 b @ r' \<longleftrightarrow> a = b \<and> r = r'"
  using append_eq_append_conv [of "le_bytes 4 a" "le_bytes 4 b"] by (auto dest: le32.enc_inj)

lemma of_nat_u32_inj:
  "m \<le> UINT32_MAX \<Longrightarrow> n \<le> UINT32_MAX \<Longrightarrow> (of_nat m :: u32) = of_nat n \<longleftrightarrow> m = n"
  by (metis unat_of_nat_u32)

lemma ser_buf_append_inj:
  assumes "length k \<le> UINT32_MAX" "length k' \<le> UINT32_MAX"
  shows "ser_buf k @ r = ser_buf k' @ r' \<longleftrightarrow> k = k' \<and> r = r'"
  using assms by (auto simp: ser_buf_def le32_append_inj of_nat_u32_inj)

lemma le64_append_inj:
  "le_bytes 8 (a :: u64) @ r = le_bytes 8 b @ r' \<longleftrightarrow> a = b \<and> r = r'"
  using append_eq_append_conv [of "le_bytes 8 a" "le_bytes 8 b"] by (auto dest: le64.enc_inj)

inductive_simps encodes_simps:
  "encodes OBJ_NULL bs" "encodes (OBJ_BOOL b) bs" "encodes (OBJ_I64 i) bs" "encodes (OBJ_F64 f) bs"
  "encodes (OBJ_BUF k) bs" "encodes (OBJ_LIST xs) bs" "encodes (OBJ_MAP kvs) bs"

inductive_simps encodes_pairs_Nil_iff: "encodes_pairs [] bs"

inductive_simps encodes_pairs_Cons_iff: "encodes_pairs (kv # kvs) bs"

lemma encodes_nonempty: "encodes y b \<Longrightarrow> b \<noteq> []"
  by (erule encodes.cases) simp_all

lemma encodes_LIST_tag:
  assumes "encodes y (5 # t)"
  obtains zs c where "y = OBJ_LIST zs" "length zs \<le> UINT32_MAX" "encodes_items zs c"
    "t = le_bytes 4 (of_nat (length zs) :: u32) @ c"
  using assms by (rule encodes.cases) simp_all

lemma encodes_MAP_tag:
  assumes "encodes y (6 # t)"
  obtains zs c where "y = OBJ_MAP zs" "length zs \<le> UINT32_MAX" "encodes_pairs zs c"
    "t = le_bytes 4 (of_nat (length zs) :: u32) @ c"
  using assms by (rule encodes.cases) simp_all

lemma encodes_unique:
  "encodes x b \<Longrightarrow> encodes y b' \<Longrightarrow> b @ r = b' @ r' \<Longrightarrow> x = y \<and> b = b'"
  "encodes_items xs bs \<Longrightarrow> encodes_items ys bs' \<Longrightarrow> length ys = length xs \<Longrightarrow> bs @ r = bs' @ r' \<Longrightarrow>
     xs = ys \<and> bs = bs'"
  "encodes_pairs kvs cs \<Longrightarrow> encodes_pairs ls cs' \<Longrightarrow> length ls = length kvs \<Longrightarrow> cs @ r = cs' @ r' \<Longrightarrow>
     kvs = ls \<and> cs = cs'"
proof (induction arbitrary: y b' r r' and ys bs' r r' and ls cs' r r'
    rule: encodes_encodes_items_encodes_pairs.inducts)
  case (encodes_LIST xs bs)
  have "b' \<noteq> []" using encodes_LIST.prems(1) by (rule encodes_nonempty)
  then obtain t where t: "b' = 5 # t"
    using encodes_LIST.prems(2) by (cases b') simp_all
  have eq: "le_bytes 4 (of_nat (length xs) :: u32) @ bs @ r = t @ r'"
    using encodes_LIST.prems(2) t by simp
  from encodes_LIST.prems(1) [unfolded t] obtain zs c where y: "y = OBJ_LIST zs"
    "length zs \<le> UINT32_MAX" "encodes_items zs c" "t = le_bytes 4 (of_nat (length zs) :: u32) @ c"
    by (rule encodes_LIST_tag)
  have len: "length zs = length xs" and rest: "bs @ r = c @ r'"
    using eq unfolding y(4) append_assoc le32_append_inj
    using of_nat_u32_inj [OF encodes_LIST.hyps(1) y(2)] by simp_all
  from encodes_LIST.IH [OF y(3) len rest] show ?case by (simp add: t y(1,4))
next
  case (encodes_MAP kvs bs)
  have "b' \<noteq> []" using encodes_MAP.prems(1) by (rule encodes_nonempty)
  then obtain t where t: "b' = 6 # t"
    using encodes_MAP.prems(2) by (cases b') simp_all
  have eq: "le_bytes 4 (of_nat (length kvs) :: u32) @ bs @ r = t @ r'"
    using encodes_MAP.prems(2) t by simp
  from encodes_MAP.prems(1) [unfolded t] obtain zs c where y: "y = OBJ_MAP zs"
    "length zs \<le> UINT32_MAX" "encodes_pairs zs c" "t = le_bytes 4 (of_nat (length zs) :: u32) @ c"
    by (rule encodes_MAP_tag)
  have len: "length zs = length kvs" and rest: "bs @ r = c @ r'"
    using eq unfolding y(4) append_assoc le32_append_inj
    using of_nat_u32_inj [OF encodes_MAP.hyps(1) y(2)] by simp_all
  from encodes_MAP.IH [OF y(3) len rest] show ?case by (simp add: t y(1,4))
next
  case (encodes_items_Cons x b xs bs)
  from encodes_items_Cons.prems obtain y b1 ys' b2 where y: "ys = y # ys'" "encodes y b1"
    "encodes_items ys' b2" "bs' = b1 @ b2" "length ys' = length xs"
    by (cases ys) (auto simp: encodes_items_Cons_iff)
  with encodes_items_Cons.prems(3) encodes_items_Cons.IH(1) [OF y(2), of "bs @ r" "b2 @ r'"]
  have "x = y" "b = b1" "bs @ r = b2 @ r'" by auto
  with encodes_items_Cons.IH(2) [OF y(3,5)] y show ?case by auto
next
  case (encodes_pairs_Cons k v b kvs bs)
  from encodes_pairs_Cons.prems obtain k' v' b1 ls' b2 where y: "ls = (k', v') # ls'" "encodes v' b1"
    "encodes_pairs ls' b2" "cs' = ser_buf k' @ b1 @ b2" "length ls' = length kvs" "length k' \<le> UINT32_MAX"
    by (cases ls) (auto simp: encodes_pairs_Cons_iff)
  with encodes_pairs_Cons.prems(3) encodes_pairs_Cons.hyps(1)
  have k: "k = k'" "b @ bs @ r = b1 @ b2 @ r'" by (auto simp: ser_buf_append_inj)
  with encodes_pairs_Cons.IH(1) [OF y(2), of "bs @ r" "b2 @ r'"]
  have "v = v'" "b = b1" "bs @ r = b2 @ r'" by auto
  with encodes_pairs_Cons.IH(2) [OF y(3,5)] y k show ?case by auto
next
  case (encodes_BUF k)
  then show ?case
    by (cases y) (auto simp: encodes_simps ser_buf_append_inj)
next
  case encodes_NULL
  then show ?case by (cases y) (auto simp: encodes_simps)
next
  case (encodes_BOOL b)
  then show ?case by (cases y) (auto simp: encodes_simps)
next
  case (encodes_I64 i)
  then show ?case by (cases y) (auto simp: encodes_simps le64_append_inj)
next
  case (encodes_F64 f)
  then show ?case by (cases y) (auto simp: encodes_simps le64_append_inj)
next
  case encodes_items_Nil
  then show ?case by (simp add: encodes_items_Nil_iff)
next
  case encodes_pairs_Nil
  then show ?case by (simp add: encodes_pairs_Nil_iff)
qed

lemma encodes_ser_bool: "encodes (OBJ_BOOL True) [1, 1]" "encodes (OBJ_BOOL False) [1, 0]"
  using encodes_BOOL [of 1] encodes_BOOL [of 0] by simp_all

lemma encodes_ser: "obj_ok n v \<Longrightarrow> encodes v (ser v)"
proof (induction n v rule: obj_ok.induct)
  case (2 n xs)
  then have "list_all (\<lambda>x. encodes x (ser x)) xs" by (auto simp: list_all_iff)
  then have "encodes_items xs (concat (map ser xs))"
    by (induction xs) (auto intro: encodes_intros)
  with 2 show ?case by (auto intro: encodes_intros)
next
  case (3 n kvs)
  then have "list_all (\<lambda>kv. length (fst kv) \<le> UINT32_MAX \<and> encodes (snd kv) (ser (snd kv))) kvs"
    by (auto simp: list_all_iff)
  then have "encodes_pairs kvs (concat (map (\<lambda>kv. ser_buf (fst kv) @ ser (snd kv)) kvs))"
    by (induction kvs) (auto intro: encodes_intros)
  with 3 show ?case by (auto intro: encodes_intros)
qed (auto intro: encodes_intros encodes_ser_bool)

lemma ggl_deserialize_ser_unique:
  assumes "obj_ok 1 obj" "ggl_deserialize alloc copy_bufs (ser obj) = Ret (obj', alloc')"
  shows "obj' = obj"
  using encodes_unique(1) [OF encodes_ser [OF assms(1)], of obj' "ser obj"] deserialize_encodes [OF assms(2)]
  by blast

text \<open>C31: what serializing an object leaves is deserialized to that object, whatever else was allocated
  before, provided the allocator has room for its arrays, and takes exactly that much of it. With any
  allocator, and also when the buffers are copied, the result can only be that object or an error.\<close>

theorem ggl_deserialize_serialized:
  assumes "fits buf" "ggl_serialize obj buf = Ret out"
    and "bump_inv alloc" "bump_index alloc mod 8 = 0" "bump_index alloc + need obj \<le> length (bump_buf alloc)"
  shows "ggl_deserialize (Some alloc) False out =
      Ret (obj, Some (alloc\<lparr>bump_index := bump_index alloc + need obj\<rparr>))
    \<and> (\<forall>a copy_bufs obj' a'. ggl_deserialize a copy_bufs out = Ret (obj', a') \<longrightarrow> obj' = obj)"
proof -
  from assms(1,2) have ok: "obj_ok 1 obj" and out: "out = ser obj" by (simp_all add: ggl_serialize_Ret)
  show ?thesis unfolding out
    by (intro conjI allI impI ggl_deserialize_ser [OF ok assms(3-5)]) (rule ggl_deserialize_ser_unique [OF ok])
qed

theorem ggl_deserialize_serialized_witness:
  "ggl_serialize (OBJ_LIST [OBJ_NULL, OBJ_BOOL True]) (replicate 64 0) = Ret [5, 2, 0, 0, 0, 0, 1, 1] \<and>
   ggl_deserialize (Some \<lparr>bump_buf = replicate 64 0, bump_index = 0\<rparr>) False [5, 2, 0, 0, 0, 0, 1, 1] =
     Ret (OBJ_LIST [OBJ_NULL, OBJ_BOOL True], Some \<lparr>bump_buf = replicate 64 0, bump_index = 48\<rparr>)"
proof -
  let ?obj = "OBJ_LIST [OBJ_NULL, OBJ_BOOL True]" and ?a = "\<lparr>bump_buf = replicate 64 0, bump_index = 0\<rparr>"
  have f: "fits (replicate 64 (0 :: byte))" by (simp add: fits_def PTRDIFF_MAX_def)
  have "ser ?obj = [5, 2, 0, 0, 0, 0, 1, 1]" by code_simp
  then have s: "ggl_serialize ?obj (replicate 64 0) = Ret [5, 2, 0, 0, 0, 0, 1, 1]"
    using ggl_serialize_Ret [OF f, of ?obj] by (simp add: UINT32_MAX_def GGL_MAX_OBJECT_DEPTH_def)
  moreover have "bump_inv ?a" by (simp add: bump_inv_def fits_def PTRDIFF_MAX_def)
  ultimately show ?thesis using ggl_deserialize_serialized [OF f s, of ?a] by simp
qed

text \<open>Whatever the allocator and whether or not buffers are copied, deserializing the encoding of an
  object never gives another object.\<close>

theorem ggl_deserialize_unambiguous:
  assumes "obj_ok 1 obj" "ggl_deserialize alloc copy_bufs (ser obj) = Ret (obj', alloc')"
  shows "obj' = obj"
  using assms by (rule ggl_deserialize_ser_unique)

theorem ggl_deserialize_unambiguous_witness:
  "ggl_deserialize None False (ser (OBJ_I64 5)) = Ret (OBJ_I64 5, None) \<and> OBJ_I64 5 = OBJ_I64 5"
proof -
  have e: "ggl_deserialize None False (ser (OBJ_I64 5)) = Ret (OBJ_I64 5, None)"
    by (simp add: ggl_deserialize_def deserialize_loop_cases deserialize_item_def read_obj_defs
        buf_take_def le64.dec_enc)
  from ggl_deserialize_unambiguous [OF _ e] e show ?thesis by simp
qed

end
