(* ===== verification/GglState.thy ===== *)
theory GglState
  imports GglPrelude
begin

text \<open>
  Routines that act on a state and return a code, and the ways in which the source composes them: in
  sequence up to the first error, with a cleanup that runs when a scope is left, and with the code of a
  call ignored.
\<close>

section \<open>Routines on a state\<close>

type_synonym ('s, 'a) io = "'s \<Rightarrow> 'a res \<times> 's"

definition io_bind :: "('s, 'a) io \<Rightarrow> ('a \<Rightarrow> ('s, 'b) io) \<Rightarrow> ('s, 'b) io" where
  "io_bind m f s = (case m s of (Ret x, s') \<Rightarrow> f x s' | (Fail e, s') \<Rightarrow> (Fail e, s') | (Abort, s') \<Rightarrow> (Abort, s'))"

definition io_res :: "'a res \<Rightarrow> ('s, 'a) io" where
  "io_res r s = (r, s)"

definition io_do :: "('s \<Rightarrow> 's) \<Rightarrow> ('s, unit) io" where
  "io_do f s = (Ret (), f s)"

text \<open>A cleanup runs when the scope is left, by whichever return; an aborted program runs none.\<close>

definition io_finally :: "('s, 'a) io \<Rightarrow> ('s, unit) io \<Rightarrow> ('s, 'a) io" where
  "io_finally m c s = (case m s of
       (Abort, s') \<Rightarrow> (Abort, s')
     | (r, s') \<Rightarrow> (case c s' of (Abort, s'') \<Rightarrow> (Abort, s'') | (_, s'') \<Rightarrow> (r, s'')))"

text \<open>A cleanup that is disarmed before a successful return.\<close>

definition io_on_error :: "('s, 'a) io \<Rightarrow> ('s, unit) io \<Rightarrow> ('s, 'a) io" where
  "io_on_error m c s = (case m s of
       (Fail e, s') \<Rightarrow> (case c s' of (Abort, s'') \<Rightarrow> (Abort, s'') | (_, s'') \<Rightarrow> (Fail e, s''))
     | (r, s') \<Rightarrow> (r, s'))"

text \<open>A call whose code is not looked at.\<close>

definition io_ignore :: "('s, 'a) io \<Rightarrow> ('s, unit) io" where
  "io_ignore m s = (case m s of (Abort, s') \<Rightarrow> (Abort, s') | (_, s') \<Rightarrow> (Ret (), s'))"

lemma io_bind_simps [simp]:
  "m s = (Ret x, s') \<Longrightarrow> io_bind m f s = f x s'"
  "m s = (Fail e, s') \<Longrightarrow> io_bind m f s = (Fail e, s')"
  "m s = (Abort, s') \<Longrightarrow> io_bind m f s = (Abort, s')"
  by (simp_all add: io_bind_def)

lemma io_res_bind [simp]:
  "io_bind (io_res (Ret x)) f = f x"
  "io_bind (io_res (Fail e)) f = io_res (Fail e)"
  "io_bind (io_res Abort) f = io_res Abort"
  by (auto simp: io_bind_def io_res_def)

lemma io_res_apply [simp]: "io_res r s = (r, s)"
  by (simp add: io_res_def)

lemma io_do_apply [simp]: "io_do f s = (Ret (), f s)"
  by (simp add: io_do_def)

lemma io_do_bind [simp]: "io_bind (io_do g) f s = f () (g s)"
  by (simp add: io_bind_def io_do_def)

named_theorems io_simps \<open>results of composed routines\<close>

lemma io_bind_Ret [io_simps]:
  "io_bind m f s = (Ret y, s') \<longleftrightarrow> (\<exists>x s1. m s = (Ret x, s1) \<and> f x s1 = (Ret y, s'))"
  by (auto simp: io_bind_def split: prod.splits res.splits)

lemma io_bind_Fail [io_simps]:
  "io_bind m f s = (Fail e, s') \<longleftrightarrow> m s = (Fail e, s') \<or> (\<exists>x s1. m s = (Ret x, s1) \<and> f x s1 = (Fail e, s'))"
  by (auto simp: io_bind_def split: prod.splits res.splits)

lemma io_bind_Abort [io_simps]:
  "io_bind m f s = (Abort, s') \<longleftrightarrow> m s = (Abort, s') \<or> (\<exists>x s1. m s = (Ret x, s1) \<and> f x s1 = (Abort, s'))"
  by (auto simp: io_bind_def split: prod.splits res.splits)

lemma io_bind_cases:
  assumes "io_bind m f s = (r, s')"
  obtains (ok) x s1 where "m s = (Ret x, s1)" "f x s1 = (r, s')"
  | (err) e where "m s = (Fail e, s')" "r = Fail e"
  | (abort) "m s = (Abort, s')" "r = Abort"
proof -
  obtain r1 s1 where "m s = (r1, s1)" by fastforce
  with assms that show thesis by (cases r1) auto
qed

section \<open>What holds after a routine\<close>

text \<open>\<open>safely m s Q\<close>: the routine does not abort, and if it succeeds \<open>Q\<close> holds of its result and the state it leaves.\<close>

definition safely :: "('s, 'a) io \<Rightarrow> 's \<Rightarrow> ('a \<Rightarrow> 's \<Rightarrow> bool) \<Rightarrow> bool" where
  "safely m s Q \<longleftrightarrow> (case m s of (Ret x, s') \<Rightarrow> Q x s' | (Fail e, s') \<Rightarrow> True | (Abort, s') \<Rightarrow> False)"

lemma safely_bind:
  assumes "safely m s R" "\<And>x s'. R x s' \<Longrightarrow> safely (f x) s' Q"
  shows "safely (io_bind m f) s Q"
proof -
  obtain r s' where "m s = (r, s')" by fastforce
  with assms show ?thesis by (cases r) (simp_all add: safely_def)
qed

lemma safely_bind_pair:
  "safely m s R \<Longrightarrow> (\<And>x y s'. R (x, y) s' \<Longrightarrow> safely (f x y) s' Q) \<Longrightarrow> safely (io_bind m (\<lambda>(x, y). f x y)) s Q"
  by (erule safely_bind) auto

lemma safely_Ret: "Q x s \<Longrightarrow> safely (io_res (Ret x)) s Q"
  by (simp add: safely_def)

lemma safely_map:
  "safely m s R \<Longrightarrow> (\<And>x s'. R x s' \<Longrightarrow> Q (g x) s') \<Longrightarrow> safely (io_bind m (\<lambda>x. io_res (Ret (g x)))) s Q"
  by (erule safely_bind) (rule safely_Ret)

lemma safely_Fail: "safely (io_res (Fail e)) s Q"
  by (simp add: safely_def)

lemma safely_weaken: "safely m s R \<Longrightarrow> (\<And>x s'. R x s' \<Longrightarrow> Q x s') \<Longrightarrow> safely m s Q"
  by (auto simp: safely_def split: prod.splits res.splits)

lemma safely_not_Abort: "safely m s Q \<Longrightarrow> fst (m s) \<noteq> Abort"
  by (auto simp: safely_def split: prod.splits res.splits)

lemma safely_Ret_D: "safely m s Q \<Longrightarrow> m s = (Ret x, s') \<Longrightarrow> Q x s'"
  by (simp add: safely_def)

end
