(* ===== verification/GglFile.thy ===== *)
theory GglFile
  imports GglBuffer
begin

text \<open>
  Reading and writing whole buffers over system calls that may be interrupted or transfer less than
  asked: the loops of \<^verbatim>\<open>ggl-file/src/file.c\<close>. What the operating system answers is not code of this
  repository: it is the list of the outcomes of the successive calls, an argument of the model. A
  loop that is still waiting when the list ends has the value \<open>None\<close>.
\<close>

section \<open>System calls\<close>

datatype errno = EINTR | EAGAIN | EWOULDBLOCK | EPIPE | EOTHER

datatype io_read = READ_ERR errno | READ_DATA buffer

datatype io_write = WRITE_ERR errno | WRITE_OK nat

text \<open>\<^verbatim>\<open>read\<close> and \<^verbatim>\<open>write\<close> never transfer more than they were asked to; an outcome that says so is not
  one of the operating system, and \<open>Abort\<close> stands for it.\<close>

definition ggl_file_read_partial :: "io_read \<Rightarrow> nat \<Rightarrow> buffer res" where
  "ggl_file_read_partial outcome len =
     (case outcome of
        READ_ERR errno \<Rightarrow> if errno = EINTR then Fail GGL_ERR_RETRY else Fail GGL_ERR_FAILURE
      | READ_DATA bs \<Rightarrow>
          res_bind (res_assert (length bs \<le> len)) (\<lambda>_.
          if length bs = 0 then Fail GGL_ERR_NODATA else Ret bs))"

definition ggl_file_write_partial :: "io_write \<Rightarrow> buffer \<Rightarrow> buffer res" where
  "ggl_file_write_partial outcome buf =
     (case outcome of
        WRITE_ERR errno \<Rightarrow>
          if errno = EINTR then Fail GGL_ERR_RETRY
          else if errno = EPIPE then Fail GGL_ERR_NOCONN
          else Fail GGL_ERR_FAILURE
      | WRITE_OK n \<Rightarrow>
          res_bind (res_assert (n \<le> length buf)) (\<lambda>_. Ret (ggl_buffer_substr buf n SIZE_MAX)))"

section \<open>Loops\<close>

fun ggl_file_read :: "nat \<Rightarrow> io_read list \<Rightarrow> buffer res option" where
  "ggl_file_read len outcomes =
     (if len = 0 then Some (Ret [])
      else case outcomes of
        [] \<Rightarrow> None
      | outcome # rest \<Rightarrow>
          (case ggl_file_read_partial outcome len of
             Ret bs \<Rightarrow>
               (case ggl_file_read (len - length bs) rest of
                  Some (Ret bs') \<Rightarrow> Some (Ret (bs @ bs'))
                | r \<Rightarrow> r)
           | Fail e \<Rightarrow>
               if e = GGL_ERR_NODATA then Some (Ret [])
               else if e = GGL_ERR_RETRY then ggl_file_read len rest
               else Some (Fail e)
           | Abort \<Rightarrow> Some Abort))"

declare ggl_file_read.simps [simp del]

definition ggl_file_read_exact :: "nat \<Rightarrow> io_read list \<Rightarrow> buffer res option" where
  "ggl_file_read_exact len outcomes =
     map_option (\<lambda>r. res_bind r (\<lambda>copy.
       res_bind (res_guard (length copy = len) GGL_ERR_NODATA) (\<lambda>_. Ret copy)))
     (ggl_file_read len outcomes)"

text \<open>The bytes that have been written so far are returned also when the loop fails.\<close>

fun ggl_file_write :: "buffer \<Rightarrow> io_write list \<Rightarrow> (buffer \<times> unit res) option" where
  "ggl_file_write rest outcomes =
     (if length rest = 0 then Some ([], Ret ())
      else case outcomes of
        [] \<Rightarrow> None
      | outcome # os \<Rightarrow>
          (case ggl_file_write_partial outcome rest of
             Ret rest' \<Rightarrow>
               map_option (\<lambda>(sent, r). (take (length rest - length rest') rest @ sent, r))
                 (ggl_file_write rest' os)
           | Fail e \<Rightarrow>
               if e = GGL_ERR_RETRY then ggl_file_write rest os else Some ([], Fail e)
           | Abort \<Rightarrow> Some ([], Abort)))"

declare ggl_file_write.simps [simp del]

section \<open>What is transferred\<close>

fun stream :: "io_read list \<Rightarrow> buffer" where
  "stream [] = []"
| "stream (READ_ERR _ # os) = stream os"
| "stream (READ_DATA bs # os) = bs @ stream os"

lemma read_partial_Ret:
  "ggl_file_read_partial o1 len = Ret bs \<longleftrightarrow> o1 = READ_DATA bs \<and> bs \<noteq> [] \<and> length bs \<le> len"
  by (auto simp: ggl_file_read_partial_def res_simps split: io_read.splits errno.splits if_splits)

lemma read_partial_Fail:
  "ggl_file_read_partial o1 len = Fail e \<longleftrightarrow>
    (e = GGL_ERR_RETRY \<and> o1 = READ_ERR EINTR) \<or> (e = GGL_ERR_NODATA \<and> o1 = READ_DATA []) \<or>
    (e = GGL_ERR_FAILURE \<and> (\<exists>n. n \<noteq> EINTR \<and> o1 = READ_ERR n))"
  by (auto simp: ggl_file_read_partial_def res_simps split: io_read.splits errno.splits if_splits)

lemma ggl_file_read_unfold:
  "ggl_file_read 0 os = Some (Ret [])"
  "len \<noteq> 0 \<Longrightarrow> ggl_file_read len [] = None"
  "len \<noteq> 0 \<Longrightarrow> ggl_file_read len (READ_ERR n # os) =
     (if n = EINTR then ggl_file_read len os else Some (Fail GGL_ERR_FAILURE))"
  "len \<noteq> 0 \<Longrightarrow> ggl_file_read len (READ_DATA bs # os) =
     (if length bs > len then Some Abort else if bs = [] then Some (Ret [])
      else case ggl_file_read (len - length bs) os of Some (Ret bs') \<Rightarrow> Some (Ret (bs @ bs')) | r \<Rightarrow> r)"
  by (subst ggl_file_read.simps; simp add: ggl_file_read_partial_def)+

lemma ggl_file_write_unfold:
  "ggl_file_write [] os = Some ([], Ret ())"
  "rest \<noteq> [] \<Longrightarrow> ggl_file_write rest [] = None"
  "rest \<noteq> [] \<Longrightarrow> ggl_file_write rest (WRITE_ERR e # os) =
     (if e = EINTR then ggl_file_write rest os
      else Some ([], Fail (if e = EPIPE then GGL_ERR_NOCONN else GGL_ERR_FAILURE)))"
  "rest \<noteq> [] \<Longrightarrow> fits rest \<Longrightarrow> ggl_file_write rest (WRITE_OK n # os) =
     (if n > length rest then Some ([], Abort)
      else map_option (\<lambda>(sent, r). (take n rest @ sent, r)) (ggl_file_write (drop n rest) os))"
  by (subst ggl_file_write.simps; simp add: ggl_file_write_partial_def)+

text \<open>Reading returns a prefix of the stream, and a shorter one than asked for only at its end.\<close>

lemma ggl_file_read_prefix:
  assumes "ggl_file_read len os = Some (Ret bs)"
  shows "length bs \<le> len \<and> (\<exists>t. stream os = bs @ t) \<and> (length bs < len \<longrightarrow> READ_DATA [] \<in> set os)"
  using assms
proof (induction os arbitrary: len bs)
  case Nil
  then show ?case by (cases "len = 0") (auto simp: ggl_file_read_unfold)
next
  case (Cons o1 os)
  show ?case
  proof (cases "len = 0")
    case True
    with Cons.prems show ?thesis by (simp add: ggl_file_read_unfold)
  next
    case len: False
    show ?thesis
    proof (cases o1)
      case (READ_ERR n)
      with Cons.prems len Cons.IH show ?thesis by (auto simp: ggl_file_read_unfold split: if_splits)
    next
      case (READ_DATA b1)
      with Cons.prems len consider "b1 = []" "bs = []"
        | b2 where "length b1 \<le> len" "ggl_file_read (len - length b1) os = Some (Ret b2)" "bs = b1 @ b2"
        by (auto simp: ggl_file_read_unfold split: if_splits option.splits res.splits)
      then show ?thesis using READ_DATA Cons.IH by cases fastforce+
    qed
  qed
qed

text \<open>A read of an exact number of bytes that succeeds returns the next that many bytes of the stream,
  however they were split up and however often it was interrupted.\<close>

theorem ggl_file_read_exact_stream:
  assumes "ggl_file_read_exact len os = Some (Ret bs)"
  shows "bs = take len (stream os) \<and> length bs = len"
proof -
  from assms have "ggl_file_read len os = Some (Ret bs)" "length bs = len"
    by (auto simp: ggl_file_read_exact_def res_simps)
  with ggl_file_read_prefix show ?thesis by fastforce
qed

theorem ggl_file_read_exact_stream_witness:
  "ggl_file_read_exact 3 [READ_ERR EINTR, READ_DATA [1], READ_DATA [2, 3]] = Some (Ret [1, 2, 3])
   \<and> [1, 2, 3] = take 3 (stream [READ_ERR EINTR, READ_DATA [1], READ_DATA [2, 3]])"
proof -
  have e: "ggl_file_read_exact 3 [READ_ERR EINTR, READ_DATA [1], READ_DATA [2, 3]] = Some (Ret [1, 2, 3])"
    by (simp add: ggl_file_read_exact_def ggl_file_read_unfold)
  from ggl_file_read_exact_stream [OF e] e show ?thesis by blast
qed

text \<open>Writing sends a prefix of the buffer, and all of it if it succeeds.\<close>

lemma ggl_file_write_prefix:
  assumes "ggl_file_write buf os = Some (sent, r)" "fits buf"
  shows "(\<exists>t. buf = sent @ t) \<and> (r = Ret () \<longrightarrow> sent = buf)"
  using assms
proof (induction os arbitrary: buf sent)
  case Nil
  then show ?case by (cases "buf = []") (auto simp: ggl_file_write_unfold)
next
  case (Cons o1 os)
  show ?case
  proof (cases "buf = []")
    case True
    with Cons.prems show ?thesis by (simp add: ggl_file_write_unfold)
  next
    case buf: False
    show ?thesis
    proof (cases o1)
      case (WRITE_ERR n)
      with Cons.prems buf Cons.IH show ?thesis by (auto simp: ggl_file_write_unfold split: if_splits)
    next
      case (WRITE_OK n)
      with Cons.prems buf consider "sent = []" "r = Abort"
        | s where "ggl_file_write (drop n buf) os = Some (s, r)" "sent = take n buf @ s"
        by (auto simp: ggl_file_write_unfold split: if_splits)
      then show ?thesis
      proof cases
        case (2 s)
        then have "(\<exists>t. drop n buf = s @ t) \<and> (r = Ret () \<longrightarrow> s = drop n buf)"
          using Cons.IH Cons.prems(2) by blast
        with 2(2) show ?thesis by (metis append.assoc append_take_drop_id)
      qed simp
    qed
  qed
qed

end
