(* ===== verification/SocketPool.thy ===== *)
theory SocketPool
  imports GglFile
begin

unbundle bit_operations_syntax

text \<open>
  The pool of client sockets with generational handles: \<^verbatim>\<open>ggl-socket/src/socket_handle.c\<close>. A handle is
  the index of a slot plus one, with the generation of the slot in the high 16 bits; releasing a
  handle increments the generation. The pool refines a map from handles to file descriptors
  (\<open>pool_map\<close>): registering adds a handle that was not in it, releasing removes one, and a handle that
  has been released stays invalid until the generation of its slot has gone round once.
\<close>

section \<open>The pool\<close>

record GglSocketPool =
  max_fds :: u16
  fds :: "int list"
  generations :: "u16 list"

definition FD_FREE :: int where
  "FD_FREE = - 0x55555556"

definition UINT16_MAX :: u32 where
  "UINT16_MAX = 0xFFFF"

definition handle_index :: "u32 \<Rightarrow> u16" where
  "handle_index h = ucast ((h AND UINT16_MAX) - 1)"

definition handle_generation :: "u32 \<Rightarrow> u16" where
  "handle_generation h = ucast (drop_bit 16 h)"

definition validate_handle :: "GglSocketPool \<Rightarrow> u32 \<Rightarrow> nat res" where
  "validate_handle pool handle =
     (if handle_index handle \<ge> max_fds pool then Fail GGL_ERR_INVALID
      else if handle_generation handle \<noteq> generations pool ! unat (handle_index handle) then
        Fail GGL_ERR_NOENTRY
      else Ret (unat (handle_index handle)))"

definition ggl_socket_pool_init :: "GglSocketPool \<Rightarrow> GglSocketPool" where
  "ggl_socket_pool_init pool = pool\<lparr>fds := replicate (unat (max_fds pool)) FD_FREE\<rparr>"

text \<open>The callbacks of a pool act on the state of its owner; a pool may have none.\<close>

type_synonym 's pool_callback = "u32 \<Rightarrow> nat \<Rightarrow> 's \<Rightarrow> GglError \<times> 's"

definition run_callback :: "'s pool_callback option \<Rightarrow> 's pool_callback" where
  "run_callback cb handle index s = (case cb of None \<Rightarrow> (GGL_ERR_OK, s) | Some f \<Rightarrow> f handle index s)"

definition new_handle :: "u16 \<Rightarrow> nat \<Rightarrow> u32" where
  "new_handle generation i = push_bit 16 (ucast generation) OR (of_nat i + 1)"

text \<open>\<open>register_from\<close> is the search for a free slot, from slot \<open>i\<close> on.\<close>

function register_from ::
  "'s pool_callback option \<Rightarrow> nat \<Rightarrow> GglSocketPool \<Rightarrow> 's \<Rightarrow> int \<Rightarrow> u32 res \<times> GglSocketPool \<times> 's" where
  "register_from on_register i pool s fd =
     (if i < unat (max_fds pool) then
        if fds pool ! i = FD_FREE then
          let pool' = pool\<lparr>fds := (fds pool)[i := fd]\<rparr>;
              handle = new_handle (generations pool ! i) i;
              (ret, s') = run_callback on_register handle i s in
          if ret \<noteq> GGL_ERR_OK then (Fail ret, pool'\<lparr>fds := (fds pool')[i := FD_FREE]\<rparr>, s')
          else (Ret handle, pool', s')
        else register_from on_register (i + 1) pool s fd
      else (Fail GGL_ERR_NOMEM, pool, s))"
  by pat_completeness auto
termination
  by (relation "measure (\<lambda>(_, i, pool, _, _). unat (max_fds pool) - i)") auto

declare register_from.simps [simp del]

definition ggl_socket_pool_register ::
  "'s pool_callback option \<Rightarrow> GglSocketPool \<Rightarrow> 's \<Rightarrow> int \<Rightarrow> u32 res \<times> GglSocketPool \<times> 's" where
  "ggl_socket_pool_register on_register pool s fd =
     (if fd < 0 then (Fail GGL_ERR_INVALID, pool, s) else register_from on_register 0 pool s fd)"

text \<open>Releasing returns the descriptor, which the caller then owns.\<close>

definition ggl_socket_pool_release ::
  "'s pool_callback option \<Rightarrow> GglSocketPool \<Rightarrow> 's \<Rightarrow> u32 \<Rightarrow> int res \<times> GglSocketPool \<times> 's" where
  "ggl_socket_pool_release on_release pool s handle =
     (case validate_handle pool handle of
        Ret index \<Rightarrow>
          let (ret, s') = run_callback on_release handle index s in
          if ret \<noteq> GGL_ERR_OK then (Fail ret, pool, s')
          else (Ret (fds pool ! index),
                pool\<lparr>generations := (generations pool)[index := generations pool ! index + 1],
                     fds := (fds pool)[index := FD_FREE]\<rparr>, s')
      | Fail e \<Rightarrow> (Fail e, pool, s)
      | Abort \<Rightarrow> (Abort, pool, s))"

text \<open>Closing reports the descriptor that has been closed.\<close>

definition ggl_socket_handle_close ::
  "'s pool_callback option \<Rightarrow> GglSocketPool \<Rightarrow> 's \<Rightarrow> u32 \<Rightarrow> GglError option \<times> int option \<times> GglSocketPool \<times> 's" where
  "ggl_socket_handle_close on_release pool s handle =
     (let (r, pool', s') = ggl_socket_pool_release on_release pool s handle in
      (res_code r, (case r of Ret fd \<Rightarrow> Some fd | _ \<Rightarrow> None), pool', s'))"

definition ggl_socket_handle_protected ::
  "(nat \<Rightarrow> 's \<Rightarrow> 's) \<Rightarrow> GglSocketPool \<Rightarrow> 's \<Rightarrow> u32 \<Rightarrow> unit res \<times> 's" where
  "ggl_socket_handle_protected action pool s handle =
     (case validate_handle pool handle of
        Ret index \<Rightarrow> (Ret (), action index s)
      | Fail e \<Rightarrow> (Fail e, s)
      | Abort \<Rightarrow> (Abort, s))"

text \<open>\<^verbatim>\<open>getsockopt\<close> is a call to the operating system: the process id of the peer of a descriptor, if it
  can be told.\<close>

definition ggl_socket_handle_get_peer_pid ::
  "(int \<Rightarrow> int option) \<Rightarrow> GglSocketPool \<Rightarrow> u32 \<Rightarrow> int res" where
  "ggl_socket_handle_get_peer_pid peer_cred pool handle =
     res_bind (validate_handle pool handle) (\<lambda>index.
     case peer_cred (fds pool ! index) of None \<Rightarrow> Fail GGL_ERR_FAILURE | Some pid \<Rightarrow> Ret pid)"

text \<open>
  The mutex is held for one turn of the transfer loops only, so the pool may be another one at every
  turn: the loops are given the pool and the outcome of the system call for each turn. The
  descriptors that were used are returned along with the data.
\<close>

fun ggl_socket_handle_read ::
  "u32 \<Rightarrow> nat \<Rightarrow> (GglSocketPool \<times> io_read) list \<Rightarrow> (int list \<times> buffer res) option" where
  "ggl_socket_handle_read handle len turns =
     (if len = 0 then Some ([], Ret [])
      else case turns of
        [] \<Rightarrow> None
      | (pool, outcome) # rest \<Rightarrow>
          (case validate_handle pool handle of
             Fail e \<Rightarrow> Some ([], Fail e)
           | Abort \<Rightarrow> Some ([], Abort)
           | Ret index \<Rightarrow>
               (case ggl_file_read_partial outcome len of
                  Ret bs \<Rightarrow>
                    map_option (\<lambda>(used, r). (fds pool ! index # used, res_bind r (\<lambda>bs'. Ret (bs @ bs'))))
                      (ggl_socket_handle_read handle (len - length bs) rest)
                | Fail e \<Rightarrow>
                    if e = GGL_ERR_RETRY then
                      map_option (\<lambda>(used, r). (fds pool ! index # used, r))
                        (ggl_socket_handle_read handle len rest)
                    else Some ([fds pool ! index], Fail e)
                | Abort \<Rightarrow> Some ([fds pool ! index], Abort))))"

declare ggl_socket_handle_read.simps [simp del]

fun ggl_socket_handle_write ::
  "u32 \<Rightarrow> buffer \<Rightarrow> (GglSocketPool \<times> io_write) list \<Rightarrow> (int list \<times> buffer \<times> unit res) option" where
  "ggl_socket_handle_write handle buf turns =
     (if length buf = 0 then Some ([], [], Ret ())
      else case turns of
        [] \<Rightarrow> None
      | (pool, outcome) # rest \<Rightarrow>
          (case validate_handle pool handle of
             Fail e \<Rightarrow> Some ([], [], Fail e)
           | Abort \<Rightarrow> Some ([], [], Abort)
           | Ret index \<Rightarrow>
               (case ggl_file_write_partial outcome buf of
                  Ret buf' \<Rightarrow>
                    map_option (\<lambda>(used, sent, r).
                        (fds pool ! index # used, take (length buf - length buf') buf @ sent, r))
                      (ggl_socket_handle_write handle buf' rest)
                | Fail e \<Rightarrow>
                    if e = GGL_ERR_RETRY then
                      map_option (\<lambda>(used, sent, r). (fds pool ! index # used, sent, r))
                        (ggl_socket_handle_write handle buf rest)
                    else Some ([fds pool ! index], [], Fail e)
                | Abort \<Rightarrow> Some ([fds pool ! index], [], Abort))))"

declare ggl_socket_handle_write.simps [simp del]

section \<open>Handles\<close>

lemma UINT16_MAX_mask: "h AND UINT16_MAX = take_bit 16 h"
  by (simp add: UINT16_MAX_def take_bit_eq_mask mask_eq_exp_minus_1)

lemma take_bit_new_handle:
  assumes "i < 65535"
  shows "take_bit 16 (new_handle g i) = of_nat i + 1"
proof -
  have "take_bit 16 (push_bit 16 (ucast g :: u32)) = 0"
    by (rule bit_word_eqI) (auto simp: bit_simps)
  moreover have "take_bit 16 (of_nat (Suc i) :: u32) = of_nat (Suc i)"
    using assms by (simp only: of_nat_take_bit [symmetric] take_bit_nat_eq_self_iff [THEN iffD2])
      (simp add: take_bit_nat_eq_self)
  ultimately show ?thesis
    by (simp add: new_handle_def take_bit_or add.commute)
qed

lemma handle_index_new [simp]:
  assumes "i < 65535"
  shows "unat (handle_index (new_handle g i)) = i"
proof -
  have "handle_index (new_handle g i) = ucast (of_nat i :: u32)"
    by (simp add: handle_index_def UINT16_MAX_mask take_bit_new_handle [OF assms])
  with assms show ?thesis
    by (simp only: unsigned_ucast_eq unat_of_nat) (simp add: take_bit_eq_mod)
qed

lemma handle_generation_new [simp]:
  assumes "i < 65535"
  shows "handle_generation (new_handle g i) = g"
proof -
  have "take_bit 16 (of_nat i + 1 :: u32) = of_nat i + 1"
    using take_bit_take_bit [of 16 16 "new_handle g i"] by (simp add: take_bit_new_handle [OF assms])
  then have "drop_bit 16 (of_nat i + 1 :: u32) = drop_bit 16 (take_bit 16 (of_nat i + 1 :: u32))"
    by (simp only:)
  also have "\<dots> = 0"
    by (rule bit_word_eqI) (auto simp: bit_simps)
  finally have "drop_bit 16 (new_handle g i) = drop_bit 16 (push_bit 16 (ucast g))"
    by (simp add: new_handle_def drop_bit_or)
  then show ?thesis
    by (simp add: handle_generation_def) (rule bit_word_eqI, auto simp: bit_simps)
qed

lemma ucast_minus_1_u16: "ucast (- 1 :: u32) = (65535 :: u16)"
proof -
  have "ucast (- 1 :: u32) = (- 1 :: u16)"
    by (rule bit_word_eqI) (simp add: bit_simps)
  then show ?thesis by simp
qed

lemma unat_ucast_u16_u32: "unat (ucast (x :: u16) :: u32) = unat x"
  using unat_u16_less [of x] by (simp add: unsigned_ucast_eq take_bit_eq_mod)

lemma handle_index_range:
  assumes "handle_index h \<noteq> 65535"
  shows "ucast (handle_index h) + 1 = take_bit 16 h"
proof -
  let ?t = "take_bit 16 h"
  have lt: "unat ?t < 2 ^ 16"
    using unsigned_take_bit_eq [of 16 h, where 'a = nat] by (simp add: take_bit_eq_mod)
  have "?t \<noteq> 0"
    using assms by (auto simp: handle_index_def UINT16_MAX_mask ucast_minus_1_u16)
  then have "unat (?t - 1) = unat ?t - 1"
    by (rule unat_minus_one)
  with lt have "unat (ucast (?t - 1) :: u16) = unat (?t - 1)"
    by (simp add: unsigned_ucast_eq take_bit_eq_mod)
  then have "unat (ucast (handle_index h) :: u32) = unat (?t - 1)"
    by (simp add: handle_index_def UINT16_MAX_mask unat_ucast_u16_u32)
  then have "ucast (handle_index h) = ?t - 1"
    by (simp only: word_unat_eq_iff)
  then show ?thesis by simp
qed

lemma new_handle_inverse:
  assumes "handle_index h \<noteq> 65535"
  shows "new_handle (handle_generation h) (unat (handle_index h)) = h"
proof -
  have "push_bit 16 (ucast (ucast (drop_bit 16 h) :: u16)) OR take_bit 16 h = h"
    by (rule bit_word_eqI) (auto simp: bit_simps)
  then show ?thesis
    by (simp add: new_handle_def handle_generation_def handle_index_range [OF assms])
qed

section \<open>The pool as a map from handles to descriptors\<close>

definition pool_inv :: "GglSocketPool \<Rightarrow> bool" where
  "pool_inv pool \<longleftrightarrow> length (fds pool) = unat (max_fds pool) \<and>
     length (generations pool) = unat (max_fds pool) \<and> (\<forall>fd \<in> set (fds pool). fd = FD_FREE \<or> 0 \<le> fd)"

definition pool_map :: "GglSocketPool \<Rightarrow> u32 \<Rightarrow> int option" where
  "pool_map pool handle =
     (case validate_handle pool handle of
        Ret i \<Rightarrow> if fds pool ! i = FD_FREE then None else Some (fds pool ! i)
      | _ \<Rightarrow> None)"

lemma slot_bound: "i < unat (m :: u16) \<Longrightarrow> i < 65535"
  using unat_u16_less [of m] by simp

lemma validate_Ret:
  "validate_handle pool h = Ret i \<longleftrightarrow>
    i < unat (max_fds pool) \<and> h = new_handle (generations pool ! i) i"
proof
  assume v: "validate_handle pool h = Ret i"
  then have lt: "handle_index h < max_fds pool" and i: "i = unat (handle_index h)"
    and g: "handle_generation h = generations pool ! i"
    by (auto simp: validate_handle_def split: if_splits)
  from lt have lt': "i < unat (max_fds pool)" by (simp add: i word_less_nat_alt)
  then have "handle_index h \<noteq> 65535"
    using slot_bound [OF lt'] i by auto
  from new_handle_inverse [OF this] i g lt' show
    "i < unat (max_fds pool) \<and> h = new_handle (generations pool ! i) i" by simp
next
  assume a: "i < unat (max_fds pool) \<and> h = new_handle (generations pool ! i) i"
  then have "i < 65535" using slot_bound by blast
  with a show "validate_handle pool h = Ret i"
    by (auto simp: validate_handle_def word_le_nat_alt not_le)
qed

lemma validate_not_Abort: "validate_handle pool h \<noteq> Abort"
  by (simp add: validate_handle_def)

lemma validate_nth:
  assumes "i < unat (max_fds pool)"
  shows "validate_handle pool (new_handle g i) =
    (if generations pool ! i = g then Ret i else Fail GGL_ERR_NOENTRY)"
  using assms slot_bound [OF assms]
  by (auto simp: validate_handle_def word_le_nat_alt not_le)

lemma pool_map_nth:
  assumes "i < unat (max_fds pool)"
  shows "pool_map pool (new_handle g i) =
    (if generations pool ! i = g \<and> fds pool ! i \<noteq> FD_FREE then Some (fds pool ! i) else None)"
  by (simp add: pool_map_def validate_nth [OF assms])

lemma pool_map_Some:
  "pool_map pool h = Some fd \<longleftrightarrow>
    (\<exists>i < unat (max_fds pool). h = new_handle (generations pool ! i) i \<and> fds pool ! i = fd \<and> fd \<noteq> FD_FREE)"
proof
  assume a: "pool_map pool h = Some fd"
  then obtain i where "validate_handle pool h = Ret i" by (auto simp: pool_map_def split: res.splits)
  with a show "\<exists>i < unat (max_fds pool). h = new_handle (generations pool ! i) i \<and> fds pool ! i = fd \<and> fd \<noteq> FD_FREE"
    by (auto simp: validate_Ret pool_map_nth split: if_splits)
qed (auto simp: pool_map_nth)

lemma new_handle_inj:
  assumes "i < 65535" "j < 65535"
  shows "new_handle g i = new_handle g' j \<longleftrightarrow> i = j \<and> g = g'"
  using assms by (metis handle_generation_new handle_index_new)

text \<open>Two pools of the same size have the same map if every slot gives the same.\<close>

lemma pool_map_eqI:
  assumes "max_fds pool = max_fds pool'"
    and "\<And>i g. i < unat (max_fds pool) \<Longrightarrow> m (new_handle g i) = pool_map pool' (new_handle g i)"
    and "\<And>h. (\<nexists>i g. i < unat (max_fds pool) \<and> h = new_handle g i) \<Longrightarrow> m h = None"
  shows "pool_map pool' = m"
proof
  fix h
  show "pool_map pool' h = m h"
  proof (cases "\<exists>i g. i < unat (max_fds pool) \<and> h = new_handle g i")
    case True
    with assms(2) show ?thesis by metis
  next
    case False
    then have "pool_map pool' h = None"
      using assms(1) by (metis option.exhaust pool_map_Some)
    with assms(3) False show ?thesis by metis
  qed
qed

lemma register_from_Ret:
  assumes "register_from cb i pool s fd = (Ret h, pool', s')" "pool_inv pool" "0 \<le> fd"
  shows "pool_inv pool' \<and> max_fds pool' = max_fds pool \<and> pool_map pool h = None \<and>
    pool_map pool' = (pool_map pool)(h \<mapsto> fd)"
  using assms
proof (induction cb i pool s fd rule: register_from.induct)
  case (1 cb i pool s fd)
  show ?case
  proof (cases "i < unat (max_fds pool) \<and> fds pool ! i \<noteq> FD_FREE")
    case True
    with 1 show ?thesis by (simp add: register_from.simps [of _ i])
  next
    case False
    with 1(2) have i: "i < unat (max_fds pool)" and free: "fds pool ! i = FD_FREE"
      by (auto simp: register_from.simps split: if_splits)
    with 1(2) have h: "h = new_handle (generations pool ! i) i" and p: "pool' = pool\<lparr>fds := (fds pool)[i := fd]\<rparr>"
      by (auto simp: register_from.simps [of _ i] Let_def split: if_splits prod.splits)
    have "fd \<noteq> FD_FREE" using 1(4) by (simp add: FD_FREE_def)
    have "pool_map pool' = (pool_map pool)(h \<mapsto> fd)"
    proof (rule pool_map_eqI [of pool])
      fix j g assume j: "j < unat (max_fds pool)"
      show "((pool_map pool)(h \<mapsto> fd)) (new_handle g j) = pool_map pool' (new_handle g j)"
        using i j free p \<open>fd \<noteq> FD_FREE\<close> 1(3) new_handle_inj [OF slot_bound [OF j] slot_bound [OF i]]
        by (auto simp: h pool_map_nth pool_inv_def nth_list_update)
    next
      fix h' assume "\<nexists>i g. i < unat (max_fds pool) \<and> h' = new_handle g i"
      then show "((pool_map pool)(h \<mapsto> fd)) h' = None"
        using i h by (cases "pool_map pool h'") (auto simp: pool_map_Some)
    qed (simp add: p)
    moreover have "pool_inv pool'"
      using 1(3,4) by (auto simp: p pool_inv_def dest!: set_update_subset_insert [THEN subsetD])
    ultimately show ?thesis using i free by (simp add: p h pool_map_nth)
  qed
qed

lemma register_from_unfold:
  "i < unat (max_fds pool) \<Longrightarrow> fds pool ! i \<noteq> FD_FREE \<Longrightarrow>
     register_from cb i pool s fd = register_from cb (Suc i) pool s fd"
  "i < unat (max_fds pool) \<Longrightarrow> fds pool ! i = FD_FREE \<Longrightarrow>
     register_from cb i pool s fd =
       (case run_callback cb (new_handle (generations pool ! i) i) i s of (ret, s') \<Rightarrow>
          if ret \<noteq> GGL_ERR_OK then (Fail ret, pool, s')
          else (Ret (new_handle (generations pool ! i) i), pool\<lparr>fds := (fds pool)[i := fd]\<rparr>, s'))"
  "\<not> i < unat (max_fds pool) \<Longrightarrow> register_from cb i pool s fd = (Fail GGL_ERR_NOMEM, pool, s)"
proof -
  assume "i < unat (max_fds pool)" "fds pool ! i = FD_FREE"
  moreover from this(2) have "(fds pool)[i := FD_FREE] = fds pool" by (metis list_update_id)
  ultimately show "register_from cb i pool s fd =
       (case run_callback cb (new_handle (generations pool ! i) i) i s of (ret, s') \<Rightarrow>
          if ret \<noteq> GGL_ERR_OK then (Fail ret, pool, s')
          else (Ret (new_handle (generations pool ! i) i), pool\<lparr>fds := (fds pool)[i := fd]\<rparr>, s'))"
    by (subst register_from.simps) (simp add: Let_def split: prod.split)
qed (subst register_from.simps, simp)+

lemma register_from_Fail:
  assumes "register_from cb i pool s fd = (r, pool', s')" "\<not> is_Ret r"
  shows "pool' = pool \<and> r \<noteq> Abort"
  using assms
proof (induction cb i pool s fd rule: register_from.induct)
  case (1 cb i pool s fd)
  consider "i < unat (max_fds pool)" "fds pool ! i \<noteq> FD_FREE"
    | "i < unat (max_fds pool)" "fds pool ! i = FD_FREE" | "\<not> i < unat (max_fds pool)" by blast
  then show ?case
  proof cases
    case 1
    with "1.IH" "1.prems" show ?thesis by (simp add: register_from_unfold(1))
  next
    case 2
    with "1.prems" show ?thesis by (auto simp: register_from_unfold(2) split: prod.splits if_splits)
  next
    case 3
    with "1.prems" show ?thesis by (auto simp: register_from_unfold(3))
  qed
qed

text \<open>C39: registering a descriptor adds, under a handle that was not in use, exactly that descriptor to the
  map of the pool; when it fails the pool is unchanged. The invariant of the pool is kept.\<close>

theorem ggl_socket_pool_register_refines:
  assumes "pool_inv pool" "ggl_socket_pool_register on_register pool s fd = (r, pool', s')"
  shows "pool_inv pool' \<and> (case r of
      Ret h \<Rightarrow> 0 \<le> fd \<and> pool_map pool h = None \<and> pool_map pool' = (pool_map pool)(h \<mapsto> fd)
    | Fail e \<Rightarrow> pool' = pool
    | Abort \<Rightarrow> False)"
proof (cases "fd < 0")
  case True
  with assms show ?thesis by (auto simp: ggl_socket_pool_register_def)
next
  case False
  with assms(2) have reg: "register_from on_register 0 pool s fd = (r, pool', s')"
    by (simp add: ggl_socket_pool_register_def)
  show ?thesis
  proof (cases r)
    case (Ret h)
    with register_from_Ret [OF reg [unfolded Ret] assms(1)] False show ?thesis by simp
  qed (use register_from_Fail [OF reg] assms(1) in auto)
qed

theorem ggl_socket_pool_register_refines_witness:
  "pool_map \<lparr>max_fds = 2, fds = [7, 9], generations = [3, 0]\<rparr> =
     (pool_map \<lparr>max_fds = 2, fds = [7, FD_FREE], generations = [3, 0]\<rparr>)(2 \<mapsto> 9)"
proof -
  let ?p = "\<lparr>max_fds = 2, fds = [7, FD_FREE], generations = [3, 0 :: u16]\<rparr>"
  have "pool_inv ?p" by (simp add: pool_inv_def)
  moreover have "ggl_socket_pool_register None ?p () 9 =
      (Ret 2, \<lparr>max_fds = 2, fds = [7, 9], generations = [3, 0]\<rparr>, ())"
    by (simp add: ggl_socket_pool_register_def register_from_unfold run_callback_def new_handle_def FD_FREE_def)
  ultimately show ?thesis
    using ggl_socket_pool_register_refines [of ?p None "()" 9] by force
qed

lemma release_cases:
  assumes "ggl_socket_pool_release cb pool s h = (r, pool', s')"
  obtains (released) i where "validate_handle pool h = Ret i" "r = Ret (fds pool ! i)"
      "pool' = pool\<lparr>generations := (generations pool)[i := generations pool ! i + 1],
        fds := (fds pool)[i := FD_FREE]\<rparr>"
  | (failed) e where "r = Fail e" "pool' = pool"
proof (cases "validate_handle pool h")
  case (Ret i)
  obtain ret t where cb: "run_callback cb h i s = (ret, t)" by (cases "run_callback cb h i s")
  show thesis
  proof (cases "ret = GGL_ERR_OK")
    case True
    show thesis
      by (rule that(1) [OF Ret]) (use assms Ret cb True in \<open>simp_all add: ggl_socket_pool_release_def\<close>)
  next
    case False
    show thesis
      by (rule that(2) [of ret]) (use assms Ret cb False in \<open>simp_all add: ggl_socket_pool_release_def\<close>)
  qed
next
  case (Fail e)
  show thesis
    by (rule that(2) [of e]) (use assms Fail in \<open>simp_all add: ggl_socket_pool_release_def\<close>)
next
  case Abort
  with validate_not_Abort show thesis by metis
qed

text \<open>After a release the handle is not valid, whether or not it was before.\<close>

lemma release_invalid:
  assumes "pool_inv pool" "ggl_socket_pool_release cb pool s h = (r, pool', s')"
    and "\<And>j. validate_handle pool h = Ret j \<Longrightarrow> fst (run_callback cb h j s) = GGL_ERR_OK"
  shows "validate_handle pool' h \<noteq> Ret i \<and> pool_inv pool' \<and> max_fds pool' = max_fds pool \<and> r \<noteq> Abort"
proof (cases "validate_handle pool h")
  case (Ret j)
  then have h: "h = new_handle (generations pool ! j) j" and j: "j < unat (max_fds pool)"
    by (auto simp: validate_Ret)
  from Ret assms(2) assms(3) [OF Ret] have p: "r \<noteq> Abort"
    "pool' = pool\<lparr>generations := (generations pool)[j := generations pool ! j + 1], fds := (fds pool)[j := FD_FREE]\<rparr>"
    by (auto simp: ggl_socket_pool_release_def Let_def split: prod.splits)
  have "generations pool' ! j \<noteq> generations pool ! j"
    using assms(1) j p by (simp add: pool_inv_def)
  with j p have "validate_handle pool' h = Fail GGL_ERR_NOENTRY"
    unfolding h by (subst validate_nth) auto
  moreover have "pool_inv pool'"
    using assms(1) p set_update_subset_insert [of "fds pool" j FD_FREE] by (auto simp: pool_inv_def)
  ultimately show ?thesis using p by simp
next
  case (Fail e)
  with assms show ?thesis by (auto simp: ggl_socket_pool_release_def)
next
  case Abort
  with validate_not_Abort show ?thesis by metis
qed

lemma release_map:
  assumes "pool_inv pool" "ggl_socket_pool_release on_release pool s h = (Ret fd, pool', s')"
  shows "pool_inv pool' \<and> pool_map pool' = (pool_map pool)(h := None) \<and>
    validate_handle pool' h = Fail GGL_ERR_NOENTRY \<and>
    pool_map pool h = (if fd = FD_FREE then None else Some fd)"
  using assms(2)
proof (cases rule: release_cases)
  case (released i)
  have r: "fd = fds pool ! i" using released(2) by simp
  note p = released(3)
  from released(1) have i: "i < unat (max_fds pool)" and h: "h = new_handle (generations pool ! i) i"
    by (auto simp: validate_Ret)
  have len: "i < length (fds pool)" "i < length (generations pool)"
    using i assms(1) by (auto simp: pool_inv_def)
  have "pool_map pool' = (pool_map pool)(h := None)"
  proof (rule pool_map_eqI [of pool])
    fix j g assume j: "j < unat (max_fds pool)"
    show "((pool_map pool)(h := None)) (new_handle g j) = pool_map pool' (new_handle g j)"
      using i j p len new_handle_inj [OF slot_bound [OF j] slot_bound [OF i]]
      by (auto simp: h pool_map_nth nth_list_update)
  next
    fix h' assume "\<nexists>i g. i < unat (max_fds pool) \<and> h' = new_handle g i"
    then show "((pool_map pool)(h := None)) h' = None"
      using pool_map_Some [of pool h'] by (metis fun_upd_other fun_upd_same option.exhaust)
  qed (simp add: p)
  moreover have "pool_inv pool'"
    using assms(1) by (auto simp: p pool_inv_def dest!: set_update_subset_insert [THEN subsetD])
  ultimately show ?thesis
    using i len by (simp add: r p h validate_nth pool_map_nth)
qed simp

text \<open>Releasing a handle removes it, and nothing else, from the map of the pool, returns its
  descriptor, and makes the handle invalid; when it fails the pool is unchanged.\<close>

theorem ggl_socket_pool_release_refines:
  assumes "pool_inv pool" "ggl_socket_pool_release on_release pool s h = (r, pool', s')"
  shows "pool_inv pool' \<and> (case r of
      Ret fd \<Rightarrow> pool_map pool' = (pool_map pool)(h := None) \<and>
        validate_handle pool' h = Fail GGL_ERR_NOENTRY \<and>
        pool_map pool h = (if fd = FD_FREE then None else Some fd)
    | Fail e \<Rightarrow> pool' = pool
    | Abort \<Rightarrow> False)"
proof (cases r)
  case (Ret fd)
  with release_map [OF assms(1) assms(2) [unfolded Ret]] show ?thesis by simp
qed (use assms in \<open>auto elim: release_cases\<close>)

theorem ggl_socket_pool_release_refines_witness:
  "pool_map \<lparr>max_fds = 1, fds = [FD_FREE], generations = [4]\<rparr> =
     (pool_map \<lparr>max_fds = 1, fds = [7], generations = [3]\<rparr>)(0x30001 := None)"
proof -
  let ?p = "\<lparr>max_fds = 1, fds = [7], generations = [3 :: u16]\<rparr>"
  have "pool_inv ?p" by (simp add: pool_inv_def)
  moreover have "ggl_socket_pool_release None ?p () 0x30001 =
      (Ret 7, \<lparr>max_fds = 1, fds = [FD_FREE], generations = [4]\<rparr>, ())"
    by (simp add: ggl_socket_pool_release_def validate_handle_def handle_index_def
        handle_generation_def UINT16_MAX_def run_callback_def)
  ultimately show ?thesis
    using ggl_socket_pool_release_refines [of ?p None "()" "0x30001"] by force
qed

section \<open>Released handles\<close>

text \<open>A history of a pool: registrations and releases in any order, with any state of the owner at each
  of them; the number counts the releases that succeeded.\<close>

inductive pool_trace ::
  "'s pool_callback option \<Rightarrow> 's pool_callback option \<Rightarrow> GglSocketPool \<Rightarrow> nat \<Rightarrow> GglSocketPool \<Rightarrow> bool"
  for on_register on_release pool where
  trace_refl: "pool_trace on_register on_release pool 0 pool"
| trace_register: "pool_trace on_register on_release pool n p \<Longrightarrow>
    ggl_socket_pool_register on_register p s fd = (r, p', s') \<Longrightarrow>
    pool_trace on_register on_release pool n p'"
| trace_release: "pool_trace on_register on_release pool n p \<Longrightarrow>
    ggl_socket_pool_release on_release p s h = (r, p', s') \<Longrightarrow>
    pool_trace on_register on_release pool (if is_Ret r then Suc n else n) p'"

lemma register_from_generations:
  assumes "register_from cb i pool s fd = (r, pool', s')"
  shows "generations pool' = generations pool \<and> max_fds pool' = max_fds pool"
  using assms
proof (induction cb i pool s fd rule: register_from.induct)
  case (1 cb i pool s fd)
  consider "i < unat (max_fds pool)" "fds pool ! i \<noteq> FD_FREE"
    | "i < unat (max_fds pool)" "fds pool ! i = FD_FREE" | "\<not> i < unat (max_fds pool)" by blast
  then show ?case
  proof cases
    case 1
    with "1.IH" "1.prems" show ?thesis by (simp add: register_from_unfold(1))
  next
    case 2
    with "1.prems" show ?thesis by (auto simp: register_from_unfold(2) split: prod.splits if_splits)
  next
    case 3
    with "1.prems" show ?thesis by (auto simp: register_from_unfold(3))
  qed
qed

lemma register_generations:
  "ggl_socket_pool_register cb pool s fd = (r, pool', s') \<Longrightarrow>
   generations pool' = generations pool \<and> max_fds pool' = max_fds pool"
  by (auto simp: ggl_socket_pool_register_def dest: register_from_generations split: if_splits)

lemma pool_trace_generations:
  assumes "pool_trace cbr cbl pool n p" "length (generations pool) = unat (max_fds pool)"
  shows "max_fds p = max_fds pool \<and> length (generations p) = length (generations pool) \<and>
    (\<forall>i < length (generations pool). \<exists>k \<le> n. generations p ! i = generations pool ! i + of_nat k)"
  using assms
proof (induction rule: pool_trace.induct)
  case trace_refl
  then show ?case by (auto intro: exI [of _ 0])
next
  case (trace_register n p s fd r p' s')
  then show ?case using register_generations by metis
next
  case (trace_release n p s h r p' s')
  note IH = trace_release.IH [OF trace_release.prems]
  from trace_release.hyps(2) show ?case
  proof (cases rule: release_cases)
    case (released j)
    have "\<exists>k \<le> Suc n. generations p' ! i = generations pool ! i + of_nat k"
      if "i < length (generations pool)" for i
    proof -
      from IH that obtain k where k: "k \<le> n" "generations p ! i = generations pool ! i + of_nat k" by auto
      show ?thesis
      proof (cases "i = j")
        case True
        with k that IH released show ?thesis by (intro exI [of _ "Suc k"]) simp
      next
        case False
        with k released show ?thesis by (intro exI [of _ k]) simp
      qed
    qed
    with IH released show ?thesis by simp
  next
    case failed
    with IH show ?thesis by simp
  qed
qed

text \<open>C40: once a handle has been released it is refused, whatever is registered and released afterwards,
  as long as there are fewer than 65535 further releases.\<close>

theorem released_handle_stays_invalid:
  assumes "pool_inv pool" "ggl_socket_pool_release on_release pool s h = (Ret fd, pool', s')"
    and "pool_trace on_register on_release pool' n p" "n < 65535"
  shows "validate_handle p h = Fail GGL_ERR_NOENTRY"
proof -
  from assms(2) obtain i where i: "validate_handle pool h = Ret i"
    and p: "pool' = pool\<lparr>generations := (generations pool)[i := generations pool ! i + 1],
        fds := (fds pool)[i := FD_FREE]\<rparr>"
    by (auto elim: release_cases)
  then have h: "h = new_handle (generations pool ! i) i" and lt: "i < unat (max_fds pool)"
    by (auto simp: validate_Ret)
  with p assms(1) have len: "length (generations pool') = unat (max_fds pool')"
    "i < length (generations pool')" "generations pool' ! i = generations pool ! i + 1"
    by (simp_all add: pool_inv_def)
  with pool_trace_generations [OF assms(3) len(1)] obtain k where
    k: "k \<le> n" "generations p ! i = generations pool ! i + of_nat (Suc k)" "max_fds p = max_fds pool'"
    by (auto simp: algebra_simps)
  have "(of_nat (Suc k) :: u16) \<noteq> 0"
    using k(1) assms(4) by (simp add: word_unat_eq_iff unat_of_nat del: of_nat_Suc)
  with k lt p show ?thesis
    by (simp add: h validate_nth)
qed

theorem released_handle_stays_invalid_witness:
  "validate_handle \<lparr>max_fds = 1, fds = [FD_FREE], generations = [4]\<rparr> 0x30001 = Fail GGL_ERR_NOENTRY"
proof -
  let ?p = "\<lparr>max_fds = 1, fds = [7], generations = [3 :: u16]\<rparr>"
  let ?q = "\<lparr>max_fds = 1, fds = [FD_FREE], generations = [4]\<rparr>"
  have "pool_inv ?p" by (simp add: pool_inv_def)
  moreover have "ggl_socket_pool_release None ?p () 0x30001 = (Ret 7, ?q, ())"
    by (simp add: ggl_socket_pool_release_def validate_handle_def handle_index_def
        handle_generation_def UINT16_MAX_def run_callback_def)
  ultimately show ?thesis
    by (rule released_handle_stays_invalid [where on_register = None and n = 0]) (rule trace_refl, simp)
qed

section \<open>Transfers\<close>

lemma handle_read_unfold:
  "ggl_socket_handle_read h 0 turns = Some ([], Ret [])"
  "len \<noteq> 0 \<Longrightarrow> ggl_socket_handle_read h len [] = None"
  by (subst ggl_socket_handle_read.simps; simp)+

lemma handle_read_Cons:
  assumes "ggl_socket_handle_read h len ((pool, o1) # turns) = Some (used, r)" "len \<noteq> 0"
  obtains (invalid) e where "validate_handle pool h = Fail e" "used = []" "r = Fail e"
  | (data) i bs used' r' where "validate_handle pool h = Ret i" "used = fds pool ! i # used'"
      "o1 = READ_DATA bs" "length bs \<le> len"
      "ggl_socket_handle_read h (len - length bs) turns = Some (used', r')" "r = res_bind r' (\<lambda>b. Ret (bs @ b))"
  | (retry) i used' where "validate_handle pool h = Ret i" "used = fds pool ! i # used'" "o1 = READ_ERR EINTR"
      "ggl_socket_handle_read h len turns = Some (used', r)"
  | (stop) i where "validate_handle pool h = Ret i" "used = [fds pool ! i]" "\<not> is_Ret r"
proof (cases "validate_handle pool h")
  case (Ret i)
  note v = this
  show thesis
  proof (cases "ggl_file_read_partial o1 len")
    case (Ret bs)
    with v assms show thesis
      using data [OF v] by (subst (asm) ggl_socket_handle_read.simps) (auto simp: read_partial_Ret)
  next
    case (Fail e)
    show thesis
    proof (cases "e = GGL_ERR_RETRY")
      case True
      with Fail have "o1 = READ_ERR EINTR" by (simp add: read_partial_Fail)
      with v assms show thesis
        using retry [OF v] by (subst (asm) ggl_socket_handle_read.simps)
          (auto simp: ggl_file_read_partial_def)
    next
      case False
      with v Fail assms have "used = [fds pool ! i]" "r = Fail e"
        by (simp_all add: ggl_socket_handle_read.simps [of h len])
      then show thesis by (intro stop [OF v]) simp_all
    qed
  next
    case Abort
    with v assms show thesis
      using stop [OF v] by (subst (asm) ggl_socket_handle_read.simps) auto
  qed
next
  case (Fail e)
  with assms show thesis using invalid by (subst (asm) ggl_socket_handle_read.simps) auto
next
  case Abort
  with validate_not_Abort show thesis by metis
qed

text \<open>A read through a handle only ever uses the descriptor that the pool of the moment holds under
  that very handle; it stops at the first turn at which the handle is no longer valid, and if it
  succeeds it returns exactly the requested number of bytes, the next ones of the stream.\<close>

theorem ggl_socket_handle_read_safe:
  assumes "ggl_socket_handle_read h len turns = Some (used, r)"
  shows "length used \<le> length turns \<and>
    (\<forall>i < length used. \<exists>idx. validate_handle (fst (turns ! i)) h = Ret idx \<and>
       used ! i = fds (fst (turns ! i)) ! idx) \<and>
    (\<forall>bs. r = Ret bs \<longrightarrow> length bs = len \<and> bs = take len (stream (map snd turns)))"
  using assms
proof (induction turns arbitrary: len used r)
  case Nil
  then show ?case by (cases "len = 0") (auto simp: handle_read_unfold)
next
  case (Cons t turns)
  obtain pool o1 where t: "t = (pool, o1)" by (cases t)
  show ?case
  proof (cases "len = 0")
    case True
    with Cons.prems show ?thesis by (auto simp: handle_read_unfold)
  next
    case False
    from Cons.prems [unfolded t] False show ?thesis
    proof (cases rule: handle_read_Cons)
      case (data i bs used' r')
      from Cons.IH [OF data(5)] data t show ?thesis
        by (auto simp: less_Suc_eq_0_disj res_simps)
    next
      case (retry i used')
      from Cons.IH [OF retry(4)] retry t show ?thesis
        by (auto simp: less_Suc_eq_0_disj)
    qed (auto simp: t)
  qed
qed

theorem ggl_socket_handle_read_safe_witness:
  "take 2 (stream (map snd [(\<lparr>max_fds = 1, fds = [7], generations = [3]\<rparr>, READ_DATA [5]),
     (\<lparr>max_fds = 1, fds = [7], generations = [3]\<rparr>, READ_DATA [6])])) = [5, 6]"
proof -
  let ?p = "\<lparr>max_fds = 1, fds = [7], generations = [3 :: u16]\<rparr>"
  have "ggl_socket_handle_read 0x30001 2 [(?p, READ_DATA [5]), (?p, READ_DATA [6])] =
      Some ([7, 7], Ret [5, 6])"
    by (simp add: ggl_socket_handle_read.simps [of _ "2::nat"] ggl_socket_handle_read.simps [of _ "Suc 0"]
        handle_read_unfold validate_handle_def handle_index_def handle_generation_def UINT16_MAX_def
        ggl_file_read_partial_def)
  from ggl_socket_handle_read_safe [OF this] show ?thesis by simp
qed

section \<open>The pool as an interface\<close>

text \<open>What the servers rely on: a table from handles to descriptors.\<close>

locale handle_table =
  fixes inv :: "'p \<Rightarrow> bool" and tbl :: "'p \<Rightarrow> u32 \<Rightarrow> int option"
    and register :: "'p \<Rightarrow> 's \<Rightarrow> int \<Rightarrow> u32 res \<times> 'p \<times> 's"
    and release :: "'p \<Rightarrow> 's \<Rightarrow> u32 \<Rightarrow> int res \<times> 'p \<times> 's"
  assumes register_law: "inv p \<Longrightarrow> register p s fd = (Ret h, p', s') \<Longrightarrow>
      inv p' \<and> tbl p h = None \<and> tbl p' = (tbl p)(h \<mapsto> fd)"
    and release_law: "inv p \<Longrightarrow> tbl p h = Some fd \<Longrightarrow> release p s h = (Ret fd', p', s') \<Longrightarrow>
      inv p' \<and> fd' = fd \<and> tbl p' = (tbl p)(h := None)"
begin

lemma register_release:
  assumes "inv p" "register p s fd = (Ret h, p1, s1)" "release p1 s1 h = (Ret fd', p2, s2)"
  shows "fd' = fd \<and> tbl p2 = tbl p"
  using register_law [OF assms(1,2)] release_law [OF _ _ assms(3)] by (auto simp: fun_upd_idem)

lemma register_distinct:
  assumes "inv p" "register p s fd = (Ret h, p1, s1)" "register p1 t fd' = (Ret h', p2, s2)"
  shows "h \<noteq> h' \<and> tbl p2 h = Some fd \<and> tbl p2 h' = Some fd'"
  using register_law [OF assms(1,2)] register_law [OF _ assms(3)] by auto

end

interpretation pool: handle_table pool_inv pool_map "ggl_socket_pool_register on_register"
  "ggl_socket_pool_release on_release" for on_register on_release :: "'s pool_callback option"
proof
  fix p p' :: GglSocketPool and s s' :: 's and fd h
  assume "pool_inv p" "ggl_socket_pool_register on_register p s fd = (Ret h, p', s')"
  then show "pool_inv p' \<and> pool_map p h = None \<and> pool_map p' = (pool_map p)(h \<mapsto> fd)"
    by (auto dest: register_from_Ret simp: ggl_socket_pool_register_def split: if_splits)
next
  fix p p' :: GglSocketPool and s s' :: 's and fd fd' h
  assume a: "pool_inv p" "pool_map p h = Some fd"
    "ggl_socket_pool_release on_release p s h = (Ret fd', p', s')"
  show "pool_inv p' \<and> fd' = fd \<and> pool_map p' = (pool_map p)(h := None)"
    using release_map [OF a(1,3)] a(2) by (auto split: if_splits)
qed

end
