(* ===== verification/GglIo.thy ===== *)
theory GglIo
  imports GglState SocketPool
begin

text \<open>
  The operations on sockets that the bus is made of. What the operating system does with a socket is an
  argument of the model, a record of operations on a world of any type. The reads and writes through a handle of the pool are those of
  \<^verbatim>\<open>ggl-socket/src/socket_handle.c\<close> for a pool that does not change while they run
  (\<open>handle_read_fixed_pool\<close>).
\<close>

section \<open>Sockets\<close>

record 'w socket_ops =
  sock_connect :: "buffer \<Rightarrow> ('w, int) io"
  sock_read :: "int \<Rightarrow> nat \<Rightarrow> ('w, buffer) io"
  sock_write :: "int \<Rightarrow> buffer \<Rightarrow> ('w, unit) io"
  sock_close :: "int \<Rightarrow> 'w \<Rightarrow> 'w"

text \<open>\<open>sock_read\<close> is \<^verbatim>\<open>ggl_file_read\<close>: it may return less than asked for, at the end of the stream. A
  read through a handle goes on to the end of its buffer, and has no data if the stream ends before.\<close>

definition handle_read ::
  "'w socket_ops \<Rightarrow> GglSocketPool \<Rightarrow> u32 \<Rightarrow> nat \<Rightarrow> ('w, buffer) io" where
  "handle_read ops pool handle len =
     (if len = 0 then io_res (Ret [])
      else io_bind (io_res (validate_handle pool handle)) (\<lambda>index.
           io_bind (sock_read ops (fds pool ! index) len) (\<lambda>bs.
           io_bind (io_res (res_assert (length bs \<le> len))) (\<lambda>_.
           io_res (if length bs < len then Fail GGL_ERR_NODATA else Ret bs)))))"

definition handle_write ::
  "'w socket_ops \<Rightarrow> GglSocketPool \<Rightarrow> u32 \<Rightarrow> buffer \<Rightarrow> ('w, unit) io" where
  "handle_write ops pool handle buf =
     (if length buf = 0 then io_res (Ret ())
      else io_bind (io_res (validate_handle pool handle)) (\<lambda>index.
           sock_write ops (fds pool ! index) buf))"

text \<open>Over one pool, the loop of a read through a handle is the loop of a read of its descriptor.\<close>

lemma handle_read_turn:
  assumes "validate_handle pool handle = Ret index" "len \<noteq> 0"
  shows "ggl_socket_handle_read handle len ((pool, READ_ERR n) # turns) =
      (if n = EINTR then map_option (\<lambda>(used, r). (fds pool ! index # used, r))
         (ggl_socket_handle_read handle len turns)
       else Some ([fds pool ! index], Fail GGL_ERR_FAILURE))"
    and "ggl_socket_handle_read handle len ((pool, READ_DATA bs) # turns) =
      (if length bs > len then Some ([fds pool ! index], Abort)
       else if bs = [] then Some ([fds pool ! index], Fail GGL_ERR_NODATA)
       else map_option (\<lambda>(used, r). (fds pool ! index # used, res_bind r (\<lambda>bs'. Ret (bs @ bs'))))
         (ggl_socket_handle_read handle (len - length bs) turns))"
  using assms by (subst ggl_socket_handle_read.simps; simp add: ggl_file_read_partial_def)+

lemma handle_read_fixed_pool:
  assumes "validate_handle pool handle = Ret index"
  shows "map_option snd (ggl_socket_handle_read handle len (map (Pair pool) os)) =
    map_option (\<lambda>r. res_bind r (\<lambda>bs. if length bs < len then Fail GGL_ERR_NODATA else Ret bs))
      (ggl_file_read len os)"
proof (induction os arbitrary: len)
  case Nil
  then show ?case
    by (cases "len = 0") (simp_all add: ggl_file_read_unfold handle_read_unfold)
next
  case (Cons o1 os)
  show ?case
  proof (cases "len = 0")
    case True
    then show ?thesis by (simp add: ggl_file_read_unfold handle_read_unfold)
  next
    case len: False
    show ?thesis
    proof (cases o1)
      case (READ_ERR n)
      with len Cons.IH [of len] show ?thesis
        by (simp add: handle_read_turn [OF assms len] ggl_file_read_unfold option.map_comp comp_def
            case_prod_unfold)
    next
      case (READ_DATA bs)
      have "map_option snd (map_option (\<lambda>(used, r). (fds pool ! index # used, res_bind r (\<lambda>bs'. Ret (bs @ bs'))))
           (ggl_socket_handle_read handle (len - length bs) (map (Pair pool) os))) =
         map_option (\<lambda>r. res_bind r (\<lambda>bs'. Ret (bs @ bs')))
           (map_option snd (ggl_socket_handle_read handle (len - length bs) (map (Pair pool) os)))"
        by (simp add: option.map_comp comp_def case_prod_unfold)
      also note Cons.IH
      finally show ?thesis
        using READ_DATA len
        by (auto simp: handle_read_turn [OF assms len] ggl_file_read_unfold option.map_comp comp_def
            split: option.splits res.splits)
    qed
  qed
qed

section \<open>Sockets as byte streams\<close>

text \<open>One instance of the operations, for examples: a connection is what is yet to be read from it, what
  has been written to it, and what has been closed.\<close>

record stream_world =
  inbox :: buffer
  outbox :: buffer
  closed_fds :: "int list"

definition stream_ops :: "stream_world socket_ops" where
  "stream_ops =
     \<lparr>sock_connect = (\<lambda>path. io_res (Ret 3)),
      sock_read = (\<lambda>fd n w. (Ret (take n (inbox w)), w\<lparr>inbox := drop n (inbox w)\<rparr>)),
      sock_write = (\<lambda>fd buf. io_do (\<lambda>w. w\<lparr>outbox := outbox w @ buf\<rparr>)),
      sock_close = (\<lambda>fd w. w\<lparr>closed_fds := closed_fds w @ [fd]\<rparr>)\<rparr>"

end
