(* ===== verification/CoreBusClient.thy ===== *)
theory CoreBusClient
  imports GglObject EventstreamDecode ObjectSerde GglIo
begin

text \<open>
  The client side of the core bus, over which the daemons call each other: a request is an EventStream
  packet with the method and the type of the request as headers and the serialized parameters as its
  payload. Models \<^verbatim>\<open>core-bus/src/client_common.c\<close>, \<^verbatim>\<open>client.c\<close> and the reader of \<^verbatim>\<open>object_serde.c\<close>.

  The static buffers of the source are filled before they are read; here they are blocks of zeros.
\<close>

section \<open>Messages\<close>

datatype GglCoreBusRequestType = GGL_CORE_BUS_NOTIFY | GGL_CORE_BUS_CALL | GGL_CORE_BUS_SUBSCRIBE

fun request_type_code :: "GglCoreBusRequestType \<Rightarrow> u32" where
  "request_type_code GGL_CORE_BUS_NOTIFY = 0"
| "request_type_code GGL_CORE_BUS_CALL = 1"
| "request_type_code GGL_CORE_BUS_SUBSCRIBE = 2"

definition GGL_COREBUS_MAX_MSG_LEN :: nat where
  "GGL_COREBUS_MAX_MSG_LEN = 10000"

definition payload_array :: buffer where
  "payload_array = replicate GGL_COREBUS_MAX_MSG_LEN 0"

text \<open>An error as the 32-bit value that is sent.\<close>

definition error_int32 :: "GglError \<Rightarrow> u32" where
  "error_int32 e = of_nat (GglError_code e)"

definition ggl_serialize_reader :: "GglObject \<Rightarrow> GglReader" where
  "ggl_serialize_reader obj = Some (\<lambda>len. ggl_serialize obj (replicate len 0))"

text \<open>A loop over the headers of a message: the body \<open>f\<close> returns from the routine with a value
  (\<open>Inl\<close>), or goes on with what is known after the header (\<open>Inr\<close>).\<close>

function header_fold ::
  "(EventStreamHeader \<Rightarrow> 'a \<Rightarrow> 'r + 'a) \<Rightarrow> buffer \<Rightarrow> EventStreamHeaderIter \<Rightarrow> 'a \<Rightarrow> ('r + 'a) res" where
  "header_fold f mem iter a =
     (case eventstream_header_next mem iter of
        Ret (header, iter') \<Rightarrow> (case f header a of Inl r \<Rightarrow> Ret (Inl r) | Inr a' \<Rightarrow> header_fold f mem iter' a')
      | Fail e \<Rightarrow> Ret (Inr a)
      | Abort \<Rightarrow> Abort)"
  by pat_completeness auto
termination
  by (relation "measure (\<lambda>(f, mem, iter, a). unat (iter_count iter))") (auto dest: header_next_count)

declare header_fold.simps [simp del]

fun fold_headers :: "(EventStreamHeader \<Rightarrow> 'a \<Rightarrow> 'r + 'a) \<Rightarrow> EventStreamHeader list \<Rightarrow> 'a \<Rightarrow> 'r + 'a" where
  "fold_headers f [] a = Inr a"
| "fold_headers f (h # hs) a = (case f h a of Inl r \<Rightarrow> Inl r | Inr a' \<Rightarrow> fold_headers f hs a')"

lemma header_fold_list:
  "header_loop mem it = Ret hs \<Longrightarrow> header_fold f mem it a = Ret (fold_headers f hs a)"
proof (induction hs arbitrary: it a)
  case Nil
  then show ?case by (subst header_fold.simps) (auto simp: header_loop_Nil)
next
  case (Cons h hs)
  then obtain it' where "eventstream_header_next mem it = Ret (h, it')" "header_loop mem it' = Ret hs"
    by (auto simp: header_loop_Cons)
  with Cons.IH show ?case
    by (subst header_fold.simps) (simp split: sum.splits)
qed

section \<open>The client\<close>

definition GGL_INTERFACE_NAME_MAX_LEN :: nat where
  "GGL_INTERFACE_NAME_MAX_LEN = 50"

definition GGL_INTERFACE_SOCKET_PREFIX :: buffer where
  "GGL_INTERFACE_SOCKET_PREFIX = GGL_STR ''/run/greengrass/''"

definition socket_path :: "buffer \<Rightarrow> buffer res" where
  "socket_path interface =
     (case ggl_byte_vec_append
         \<lparr>vec_items = GGL_INTERFACE_SOCKET_PREFIX,
          vec_capacity = length GGL_INTERFACE_SOCKET_PREFIX + GGL_INTERFACE_NAME_MAX_LEN\<rparr> interface of
        (ret, path) \<Rightarrow> if ret \<noteq> GGL_ERR_OK then Fail GGL_ERR_RANGE else Ret (vec_items path))"

definition interface_connect :: "'w socket_ops \<Rightarrow> buffer \<Rightarrow> ('w, int) io" where
  "interface_connect ops interface = io_bind (io_res (socket_path interface)) (sock_connect ops)"

definition request_packet :: "GglCoreBusRequestType \<Rightarrow> buffer \<Rightarrow> GglMap \<Rightarrow> buffer res" where
  "request_packet type method params =
     eventstream_encode payload_array
       (Some [\<lparr>header_name = GGL_STR ''method'', header_value = EVENTSTREAM_STRING method\<rparr>,
              \<lparr>header_name = GGL_STR ''type'', header_value = EVENTSTREAM_INT32 (request_type_code type)\<rparr>])
       (ggl_serialize_reader (OBJ_MAP params))"

definition ggl_client_send_message ::
  "'w socket_ops \<Rightarrow> buffer \<Rightarrow> GglCoreBusRequestType \<Rightarrow> buffer \<Rightarrow> GglMap \<Rightarrow> ('w, int) io" where
  "ggl_client_send_message ops interface type method params =
     io_bind (interface_connect ops interface) (\<lambda>conn.
     io_on_error
       (io_bind (io_res (request_packet type method params)) (\<lambda>send_buffer.
        io_bind (sock_write ops conn send_buffer) (\<lambda>_.
        io_res (Ret conn))))
       (io_do (sock_close ops conn)))"

text \<open>A reader on a state: it may fill less than the buffer it is given.\<close>

type_synonym 'w reader = "nat \<Rightarrow> ('w, buffer) io"

definition reader_call_exact :: "'w reader \<Rightarrow> nat \<Rightarrow> ('w, buffer) io" where
  "reader_call_exact reader len =
     io_bind (reader len) (\<lambda>copy.
     io_bind (io_res (res_assert (length copy \<le> len))) (\<lambda>_.
     io_res (if length copy \<noteq> len then Fail GGL_ERR_FAILURE else Ret copy)))"

text \<open>The value that is stored for the caller when the response has an error header.\<close>

definition error_header :: "EventStreamHeader \<Rightarrow> unit \<Rightarrow> u32 + unit" where
  "error_header header _ =
     (if ggl_buffer_eq (header_name header) (GGL_STR ''error'') then
        (case header_value header of
           EVENTSTREAM_INT32 v \<Rightarrow> Inl v
         | EVENTSTREAM_STRING _ \<Rightarrow> Inl (error_int32 GGL_ERR_FAILURE))
      else Inr ())"

text \<open>\<open>Inl v\<close> is a return of \<^verbatim>\<open>GGL_ERR_REMOTE\<close> with \<open>v\<close> stored in \<^verbatim>\<open>error\<close>; \<open>Inr\<close> gives the message and
  the memory that its headers are in.\<close>

definition ggl_client_get_response ::
  "'w reader \<Rightarrow> nat \<Rightarrow> ('w, u32 + (EventStreamMessage \<times> buffer)) io" where
  "ggl_client_get_response reader recv_len =
     io_bind (io_res (res_assert (12 \<le> recv_len))) (\<lambda>_.
     io_bind (reader_call_exact reader 12) (\<lambda>prelude_buf.
     io_bind (io_res (eventstream_decode_prelude prelude_buf)) (\<lambda>prelude.
     io_bind (io_res (res_guard (\<not> unat (data_len prelude) > recv_len) GGL_ERR_NOMEM)) (\<lambda>_.
     io_bind (reader_call_exact reader (unat (data_len prelude))) (\<lambda>data_section.
     io_bind (io_res (eventstream_decode prelude data_section)) (\<lambda>response.
     io_bind (io_res (header_fold error_header data_section (msg_headers response) ())) (\<lambda>r.
     io_res (Ret (case r of Inl v \<Rightarrow> Inl v | Inr _ \<Rightarrow> Inr (response, data_section))))))))))"

definition ggl_notify :: "'w socket_ops \<Rightarrow> buffer \<Rightarrow> buffer \<Rightarrow> GglMap \<Rightarrow> ('w, unit) io" where
  "ggl_notify ops interface method params =
     io_bind (ggl_client_send_message ops interface GGL_CORE_BUS_NOTIFY method params) (\<lambda>conn_fd.
     io_do (sock_close ops conn_fd))"

text \<open>A call with a result: \<open>Inl v\<close> again is \<^verbatim>\<open>GGL_ERR_REMOTE\<close> with the error \<open>v\<close>. The caller may not
  want the result, which is then not decoded.\<close>

definition ggl_call ::
  "'w socket_ops \<Rightarrow> buffer \<Rightarrow> buffer \<Rightarrow> GglMap \<Rightarrow> GglBumpAlloc option \<Rightarrow> bool \<Rightarrow>
   ('w, u32 + GglObject option) io" where
  "ggl_call ops interface method params alloc want_result =
     io_bind (ggl_client_send_message ops interface GGL_CORE_BUS_CALL method params) (\<lambda>conn.
     io_finally
       (io_bind (ggl_client_get_response (sock_read ops conn) GGL_COREBUS_MAX_MSG_LEN) (\<lambda>r.
        case r of
          Inl v \<Rightarrow> io_res (Ret (Inl v))
        | Inr (msg, _) \<Rightarrow>
            if want_result then
              io_bind (io_res (ggl_deserialize alloc True (msg_payload msg))) (\<lambda>(result, _).
              io_res (Ret (Inr (Some result))))
            else io_res (Ret (Inr None))))
       (io_do (sock_close ops conn)))"

section \<open>What is sent and what is received\<close>

definition request_headers :: "GglCoreBusRequestType \<Rightarrow> buffer \<Rightarrow> EventStreamHeader list" where
  "request_headers type method =
     [\<lparr>header_name = GGL_STR ''method'', header_value = EVENTSTREAM_STRING method\<rparr>,
      \<lparr>header_name = GGL_STR ''type'', header_value = EVENTSTREAM_INT32 (request_type_code type)\<rparr>]"

text \<open>A message within the limit of the core bus.\<close>

definition bus_message :: "EventStreamHeader list \<Rightarrow> buffer \<Rightarrow> bool" where
  "bus_message hs p \<longleftrightarrow> list_all header_ok hs \<and>
     16 + length (headers_bytes hs) + length p \<le> GGL_COREBUS_MAX_MSG_LEN"

lemma fits_payload_array: "fits payload_array"
  by (simp add: fits_def payload_array_def GGL_COREBUS_MAX_MSG_LEN_def PTRDIFF_MAX_def)

lemma length_payload_array: "min (length payload_array) UINT32_MAX = 10000"
  by (simp add: payload_array_def GGL_COREBUS_MAX_MSG_LEN_def UINT32_MAX_def)

lemma bus_encode_reader:
  "eventstream_encode payload_array headers (ggl_serialize_reader obj) = Ret pkt \<longleftrightarrow>
    obj_ok 1 obj \<and> bus_message (given_headers headers) (ser obj) \<and>
    pkt = packet (headers_bytes (given_headers headers)) (ser obj)"
proof -
  have r: "ggl_reader_call (ggl_serialize_reader obj) n = Ret p \<longleftrightarrow>
      obj_ok 1 obj \<and> length (ser obj) \<le> n \<and> p = ser obj" if "n \<le> 10000" for n p
    using that by (auto simp: ggl_reader_call_def ggl_serialize_reader_def res_simps fits_def
        PTRDIFF_MAX_def ggl_serialize_Ret)
  show ?thesis
    unfolding eventstream_encode_Ret [OF fits_payload_array] Let_def length_payload_array
    by (auto simp: r bus_message_def GGL_COREBUS_MAX_MSG_LEN_def)
qed

lemma bus_encode_empty:
  "eventstream_encode payload_array headers None = Ret pkt \<longleftrightarrow>
    bus_message (given_headers headers) [] \<and> pkt = packet (headers_bytes (given_headers headers)) []"
  unfolding eventstream_encode_Ret [OF fits_payload_array] Let_def length_payload_array
  by (auto simp: bus_message_def ggl_reader_call_def GGL_COREBUS_MAX_MSG_LEN_def)

lemma request_packet_Ret:
  "request_packet type method params = Ret pkt \<longleftrightarrow>
    obj_ok 1 (OBJ_MAP params) \<and> bus_message (request_headers type method) (ser (OBJ_MAP params)) \<and>
    pkt = packet (headers_bytes (request_headers type method)) (ser (OBJ_MAP params))"
  by (simp add: request_packet_def bus_encode_reader given_headers_def request_headers_def)

text \<open>The two steps of receiving a message, on the packet that was sent.\<close>

lemma bus_message_decode:
  assumes "bus_message hs p"
  obtains pre msg where
    "eventstream_decode_prelude (take 12 (packet (headers_bytes hs) p)) = Ret pre"
    "unat (data_len pre) = length (packet (headers_bytes hs) p) - 12"
    "unat (data_len pre) \<le> GGL_COREBUS_MAX_MSG_LEN" "4 \<le> unat (data_len pre)"
    "eventstream_decode pre (drop 12 (packet (headers_bytes hs) p)) = Ret msg"
    "header_loop (drop 12 (packet (headers_bytes hs) p)) (msg_headers msg) = Ret hs"
    "msg_payload msg = p"
proof -
  have ok: "list_all header_ok hs" "16 + length (headers_bytes hs) + length p < 2 ^ 32"
    using assms by (auto simp: bus_message_def GGL_COREBUS_MAX_MSG_LEN_def)
  from decode_packet_packet [OF this] obtain pre msg where
    d: "decode_packet (packet (headers_bytes hs) p) = Ret (pre, msg)"
    and pre: "data_len pre = of_nat (4 + length (headers_bytes hs) + length p)"
    and msg: "header_loop (drop 12 (packet (headers_bytes hs) p)) (msg_headers msg) = Ret hs"
      "msg_payload msg = p"
    by (simp del: of_nat_add)
  have len: "unat (data_len pre) = 4 + length (headers_bytes hs) + length p"
    using ok(2) unfolding pre by (simp only: unat_of_nat) simp
  from d have "eventstream_decode_prelude (take 12 (packet (headers_bytes hs) p)) = Ret pre"
    "eventstream_decode pre (drop 12 (packet (headers_bytes hs) p)) = Ret msg"
    by (auto simp: decode_packet_def res_simps)
  with len msg assms show thesis
    by (intro that [of pre msg]) (simp_all add: length_packet bus_message_def)
qed

text \<open>A reader that is about to deliver exactly the bytes of a packet.\<close>

definition delivers :: "'w reader \<Rightarrow> buffer \<Rightarrow> 'w \<Rightarrow> 'w \<Rightarrow> bool" where
  "delivers reader pkt w w' \<longleftrightarrow>
     (\<exists>w1. reader 12 w = (Ret (take 12 pkt), w1) \<and> reader (length pkt - 12) w1 = (Ret (drop 12 pkt), w'))"

lemma get_response_message:
  assumes "bus_message hs p" "delivers reader (packet (headers_bytes hs) p) w w'"
  shows "\<exists>msg data. msg_payload msg = p \<and> header_loop data (msg_headers msg) = Ret hs \<and>
    ggl_client_get_response reader GGL_COREBUS_MAX_MSG_LEN w =
      (Ret (case fold_headers error_header hs () of Inl v \<Rightarrow> Inl v | Inr _ \<Rightarrow> Inr (msg, data)), w')"
proof -
  let ?pkt = "packet (headers_bytes hs) p"
  obtain pre msg where dec: "eventstream_decode_prelude (take 12 ?pkt) = Ret pre"
    "unat (data_len pre) = length ?pkt - 12" "unat (data_len pre) \<le> GGL_COREBUS_MAX_MSG_LEN"
    "eventstream_decode pre (drop 12 ?pkt) = Ret msg"
    "header_loop (drop 12 ?pkt) (msg_headers msg) = Ret hs" "msg_payload msg = p"
    by (rule bus_message_decode [OF assms(1)])
  obtain w1 where rd: "reader 12 w = (Ret (take 12 ?pkt), w1)"
    "reader (length ?pkt - 12) w1 = (Ret (drop 12 ?pkt), w')"
    using assms(2) by (auto simp: delivers_def)
  have "length (take 12 ?pkt) = 12" by (simp add: length_packet)
  then have "reader_call_exact reader 12 w = (Ret (take 12 ?pkt), w1)"
    "reader_call_exact reader (length ?pkt - 12) w1 = (Ret (drop 12 ?pkt), w')"
    using rd by (simp_all add: reader_call_exact_def res_assert_def)
  moreover have "12 \<le> GGL_COREBUS_MAX_MSG_LEN" by (simp add: GGL_COREBUS_MAX_MSG_LEN_def)
  ultimately have "ggl_client_get_response reader GGL_COREBUS_MAX_MSG_LEN w =
      (Ret (case fold_headers error_header hs () of Inl v \<Rightarrow> Inl v | Inr _ \<Rightarrow> Inr (msg, drop 12 ?pkt)), w')"
    using dec by (simp add: ggl_client_get_response_def res_assert_def res_guard_def not_less
        header_fold_list [OF dec(5)])
  with dec show ?thesis by blast
qed

end
