(* ===== verification/CoreBusServer.thy ===== *)
theory CoreBusServer
  imports CoreBusClient
begin

text \<open>
  The server side of the core bus, \<^verbatim>\<open>core-bus/src/server.c\<close>: a request is read from a client of the socket
  pool, decoded, and dispatched to the handler of its method, which responds through the handle of the
  client. Every routine acts on the whole state of the server, with the pool and the world of the
  sockets in it. One request is handled at a time (\<^verbatim>\<open>client_handler_mtx\<close>), and the pool mutex is the
  atomicity of the operations of the pool.
\<close>

section \<open>The state of a server\<close>

text \<open>The callback that closes a subscription acts on the world, which the state of the owner of the
  server is part of; its context is the closure.\<close>

record 'w bus_server =
  srv_pool :: GglSocketPool
  client_request_types :: "GglCoreBusRequestType list"
  subscription_cleanup :: "(u32 \<Rightarrow> 'w \<Rightarrow> 'w) option list"
  current_handle :: u32
  srv_world :: 'w

text \<open>A routine on the world, as one on the server.\<close>

definition on_world :: "('w, 'a) io \<Rightarrow> ('w bus_server, 'a) io" where
  "on_world m s = (case m (srv_world s) of (r, w) \<Rightarrow> (r, s\<lparr>srv_world := w\<rparr>))"

definition reset_client_state :: "'w bus_server pool_callback" where
  "reset_client_state handle index s =
     (GGL_ERR_OK, s\<lparr>client_request_types := (client_request_types s)[index := GGL_CORE_BUS_CALL],
                    subscription_cleanup := (subscription_cleanup s)[index := None]\<rparr>)"

definition close_subscription :: "'w bus_server pool_callback" where
  "close_subscription handle index s =
     (GGL_ERR_OK,
      case subscription_cleanup s ! index of
        Some fn \<Rightarrow> s\<lparr>srv_world := fn handle (srv_world s)\<rparr>
      | None \<Rightarrow> s)"

definition set_request_type :: "GglCoreBusRequestType \<Rightarrow> nat \<Rightarrow> 'w bus_server \<Rightarrow> 'w bus_server" where
  "set_request_type type index s = s\<lparr>client_request_types := (client_request_types s)[index := type]\<rparr>"

definition get_request_type :: "'w bus_server \<Rightarrow> u32 \<Rightarrow> GglCoreBusRequestType res" where
  "get_request_type s handle =
     res_bind (validate_handle (srv_pool s) handle) (\<lambda>index. Ret (client_request_types s ! index))"

definition set_subscription_cleanup :: "(u32 \<Rightarrow> 'w \<Rightarrow> 'w) \<Rightarrow> nat \<Rightarrow> 'w bus_server \<Rightarrow> 'w bus_server" where
  "set_subscription_cleanup fn index s = s\<lparr>subscription_cleanup := (subscription_cleanup s)[index := Some fn]\<rparr>"

definition set_current_handle :: "u32 \<Rightarrow> 'w bus_server \<Rightarrow> 'w bus_server" where
  "set_current_handle handle s = s\<lparr>current_handle := handle\<rparr>"

definition clear_current_handle :: "'w bus_server \<Rightarrow> 'w bus_server" where
  "clear_current_handle s = s\<lparr>current_handle := 0\<rparr>"

definition cleanup_current_handle :: "u32 \<Rightarrow> 'w bus_server \<Rightarrow> 'w bus_server" where
  "cleanup_current_handle handle s = (if handle = current_handle s then clear_current_handle s else s)"

section \<open>The pool of the server\<close>

definition server_register :: "int \<Rightarrow> ('w bus_server, u32) io" where
  "server_register fd s =
     (case ggl_socket_pool_register (Some reset_client_state) (srv_pool s) s fd of
        (r, pool, s') \<Rightarrow> (r, s'\<lparr>srv_pool := pool\<rparr>))"

definition server_close :: "'w socket_ops \<Rightarrow> u32 \<Rightarrow> ('w bus_server, unit) io" where
  "server_close ops handle s =
     (case ggl_socket_pool_release (Some close_subscription) (srv_pool s) s handle of
        (Ret fd, pool, s') \<Rightarrow> (Ret (), s'\<lparr>srv_pool := pool, srv_world := sock_close ops fd (srv_world s')\<rparr>)
      | (Fail e, pool, s') \<Rightarrow> (Fail e, s'\<lparr>srv_pool := pool\<rparr>)
      | (Abort, pool, s') \<Rightarrow> (Abort, s'\<lparr>srv_pool := pool\<rparr>))"

definition server_read :: "'w socket_ops \<Rightarrow> u32 \<Rightarrow> nat \<Rightarrow> ('w bus_server, buffer) io" where
  "server_read ops handle len s = on_world (handle_read ops (srv_pool s) handle len) s"

definition server_write :: "'w socket_ops \<Rightarrow> u32 \<Rightarrow> buffer \<Rightarrow> ('w bus_server, unit) io" where
  "server_write ops handle buf s = on_world (handle_write ops (srv_pool s) handle buf) s"

definition server_protected :: "(nat \<Rightarrow> 'w bus_server \<Rightarrow> 'w bus_server) \<Rightarrow> u32 \<Rightarrow> ('w bus_server, unit) io" where
  "server_protected action handle s = ggl_socket_handle_protected action (srv_pool s) s handle"

definition cleanup_socket_handle :: "'w socket_ops \<Rightarrow> u32 \<Rightarrow> ('w bus_server, unit) io" where
  "cleanup_socket_handle ops handle =
     (if handle \<noteq> 0 then io_ignore (server_close ops handle) else io_res (Ret ()))"

section \<open>Requests\<close>

definition send_err_response :: "'w socket_ops \<Rightarrow> u32 \<Rightarrow> GglError \<Rightarrow> ('w bus_server, unit) io" where
  "send_err_response ops handle error =
     io_bind (io_res (res_assert (error \<noteq> GGL_ERR_OK))) (\<lambda>_.
     io_bind
       (case eventstream_encode payload_array
           (Some [\<lparr>header_name = GGL_STR ''error'', header_value = EVENTSTREAM_INT32 (error_int32 error)\<rparr>])
           None of
          Ret send_buffer \<Rightarrow> io_ignore (server_write ops handle send_buffer)
        | Fail e \<Rightarrow> io_res (Ret ())
        | Abort \<Rightarrow> io_res Abort) (\<lambda>_.
     io_ignore (server_close ops handle)))"

text \<open>The loop over the headers of a request, with the method and the type that have been set.\<close>

fun int32_request_type :: "u32 \<Rightarrow> GglCoreBusRequestType option" where
  "int32_request_type v =
     (if v = request_type_code GGL_CORE_BUS_NOTIFY then Some GGL_CORE_BUS_NOTIFY
      else if v = request_type_code GGL_CORE_BUS_CALL then Some GGL_CORE_BUS_CALL
      else if v = request_type_code GGL_CORE_BUS_SUBSCRIBE then Some GGL_CORE_BUS_SUBSCRIBE
      else None)"

definition request_header ::
  "EventStreamHeader \<Rightarrow> buffer option \<times> GglCoreBusRequestType option \<Rightarrow>
   GglError + (buffer option \<times> GglCoreBusRequestType option)" where
  "request_header header found =
     (if ggl_buffer_eq (header_name header) (GGL_STR ''method'') then
        (case header_value header of
           EVENTSTREAM_STRING method \<Rightarrow> Inr (Some method, snd found)
         | EVENTSTREAM_INT32 _ \<Rightarrow> Inl GGL_ERR_INVALID)
      else if ggl_buffer_eq (header_name header) (GGL_STR ''type'') then
        (case header_value header of
           EVENTSTREAM_INT32 v \<Rightarrow>
             (case int32_request_type v of
                Some type \<Rightarrow> Inr (fst found, Some type)
              | None \<Rightarrow> Inl GGL_ERR_INVALID)
         | EVENTSTREAM_STRING _ \<Rightarrow> Inl GGL_ERR_INVALID)
      else Inr found)"

definition PAYLOAD_VALUE_MAX_SUBOBJECTS :: nat where
  "PAYLOAD_VALUE_MAX_SUBOBJECTS = 200"

definition payload_deserialize_mem :: buffer where
  "payload_deserialize_mem = replicate (PAYLOAD_VALUE_MAX_SUBOBJECTS * 24) 0"

definition request_params :: "buffer \<Rightarrow> GglMap res" where
  "request_params payload =
     (if length payload > 0 then
        res_bind (ggl_deserialize (Some (ggl_bump_alloc_init payload_deserialize_mem)) False payload) (\<lambda>(obj, _).
        case obj of OBJ_MAP params \<Rightarrow> Ret params | _ \<Rightarrow> Fail GGL_ERR_INVALID)
      else Ret [])"

text \<open>From the data section to the request. A failure is an error that is sent to the client.\<close>

definition parse_request ::
  "EventStreamPrelude \<Rightarrow> buffer \<Rightarrow> (buffer \<times> GglCoreBusRequestType \<times> GglMap) res" where
  "parse_request prelude data_section =
     res_bind (eventstream_decode prelude data_section) (\<lambda>msg.
     res_bind (header_fold request_header data_section (msg_headers msg) (None, None)) (\<lambda>r.
     case r of
       Inl e \<Rightarrow> Fail e
     | Inr (Some method, Some type) \<Rightarrow>
         res_bind (request_params (msg_payload msg)) (\<lambda>params. Ret (method, type, params))
     | Inr _ \<Rightarrow> Fail GGL_ERR_INVALID))"

text \<open>A handler gets the parameters and the handle; its context is the closure.\<close>

record 'w GglRpcMethodDesc =
  desc_name :: buffer
  is_subscription :: bool
  desc_handler :: "GglMap \<Rightarrow> u32 \<Rightarrow> ('w bus_server, unit) io"

definition run_handler ::
  "'w socket_ops \<Rightarrow> 'w GglRpcMethodDesc \<Rightarrow> GglMap \<Rightarrow> u32 \<Rightarrow> ('w bus_server, unit) io" where
  "run_handler ops handler params handle s =
     (case desc_handler handler params handle (set_current_handle handle s) of
        (Abort, s') \<Rightarrow> (Abort, s')
      | (Ret _, s') \<Rightarrow> io_res (res_assert (current_handle s' = 0)) s'
      | (Fail e, s') \<Rightarrow>
          io_bind (io_res (res_assert (current_handle s' = handle))) (\<lambda>_.
          io_bind (send_err_response ops handle e) (\<lambda>_.
          io_do clear_current_handle)) s')"

fun dispatch ::
  "'w socket_ops \<Rightarrow> 'w GglRpcMethodDesc list \<Rightarrow> buffer \<Rightarrow> GglCoreBusRequestType \<Rightarrow> GglMap \<Rightarrow> u32 \<Rightarrow>
   ('w bus_server, unit) io" where
  "dispatch ops [] method type params handle = send_err_response ops handle GGL_ERR_NOENTRY"
| "dispatch ops (handler # handlers) method type params handle =
     (if ggl_buffer_eq method (desc_name handler) then
        if is_subscription handler \<noteq> (type = GGL_CORE_BUS_SUBSCRIBE) then
          send_err_response ops handle GGL_ERR_INVALID
        else run_handler ops handler params handle
      else dispatch ops handlers method type params handle)"

text \<open>An error in the request is answered; the routine itself then succeeds.\<close>

definition or_respond ::
  "'w socket_ops \<Rightarrow> u32 \<Rightarrow> 'a res \<Rightarrow> ('a \<Rightarrow> ('w bus_server, unit) io) \<Rightarrow> ('w bus_server, unit) io" where
  "or_respond ops handle r f =
     (case r of Ret x \<Rightarrow> f x | Fail e \<Rightarrow> send_err_response ops handle e | Abort \<Rightarrow> io_res Abort)"

text \<open>The source reads the data section into the part of \<^verbatim>\<open>payload_array\<close> of that length; after the test of the length this
  part is not cut off by the end of the array.\<close>

definition client_ready ::
  "'w socket_ops \<Rightarrow> 'w GglRpcMethodDesc list \<Rightarrow> u32 \<Rightarrow> ('w bus_server, unit) io" where
  "client_ready ops handlers handle =
     io_bind (server_read ops handle 12) (\<lambda>prelude_buf.
     or_respond ops handle (eventstream_decode_prelude prelude_buf) (\<lambda>prelude.
     or_respond ops handle
       (res_guard (\<not> unat (data_len prelude) > GGL_COREBUS_MAX_MSG_LEN) GGL_ERR_NOMEM) (\<lambda>_.
     io_bind (server_read ops handle (unat (data_len prelude))) (\<lambda>data_section.
     or_respond ops handle (parse_request prelude data_section) (\<lambda>(method, type, params).
     io_bind (server_protected (set_request_type type) handle) (\<lambda>_.
     dispatch ops handlers method type params handle))))))"

text \<open>The caller of \<open>client_ready\<close> closes the handle of a client when it fails
  (\<^verbatim>\<open>ggl-socket/src/socket_server.c\<close>).\<close>

definition client_data_ready ::
  "'w socket_ops \<Rightarrow> (u32 \<Rightarrow> ('w bus_server, unit) io) \<Rightarrow> u32 \<Rightarrow> ('w bus_server, unit) io" where
  "client_data_ready ops ready handle s =
     (case ready handle s of
        (Fail e, s') \<Rightarrow> io_ignore (server_close ops handle) s'
      | (r, s') \<Rightarrow> (r, s'))"

section \<open>Responses\<close>

definition ggl_respond :: "'w socket_ops \<Rightarrow> u32 \<Rightarrow> GglObject \<Rightarrow> ('w bus_server, unit) io" where
  "ggl_respond ops handle val s =
     io_bind (io_res (res_assert (handle = current_handle s))) (\<lambda>_.
     io_ignore (io_finally
       (io_bind (io_res (get_request_type s handle)) (\<lambda>type.
        io_finally
          (if type = GGL_CORE_BUS_NOTIFY then io_res (Ret ())
           else
             io_bind (io_res (res_assert (type = GGL_CORE_BUS_CALL))) (\<lambda>_.
             io_bind (io_res (eventstream_encode payload_array None (ggl_serialize_reader val)))
               (server_write ops handle)))
          (cleanup_socket_handle ops handle)))
       (io_do (cleanup_current_handle handle)))) s"

definition ggl_sub_accept ::
  "'w socket_ops \<Rightarrow> u32 \<Rightarrow> (u32 \<Rightarrow> 'w \<Rightarrow> 'w) option \<Rightarrow> ('w bus_server, unit) io" where
  "ggl_sub_accept ops handle on_close s =
     io_bind (io_res (res_assert (handle = current_handle s))) (\<lambda>_.
     io_ignore (io_finally
       (io_bind
          (case on_close of
             None \<Rightarrow> io_res (Ret ())
           | Some fn \<Rightarrow>
               io_on_error (server_protected (set_subscription_cleanup fn) handle)
                 (on_world (io_do (fn handle)))) (\<lambda>_.
        io_on_error
          (io_bind (io_res (eventstream_encode payload_array
               (Some [\<lparr>header_name = GGL_STR ''accepted'', header_value = EVENTSTREAM_INT32 1\<rparr>]) None))
             (server_write ops handle))
          (cleanup_socket_handle ops handle)))
       (io_do (cleanup_current_handle handle)))) s"

text \<open>\<open>None\<close>: the routine waits until the handler that is running for the handle has accepted the
  subscription. The request type is looked up in builds with assertions.\<close>

definition ggl_sub_respond ::
  "'w socket_ops \<Rightarrow> u32 \<Rightarrow> GglObject \<Rightarrow> 'w bus_server \<Rightarrow> (unit res \<times> 'w bus_server) option" where
  "ggl_sub_respond ops handle val s =
     (case get_request_type s handle of
        Fail e \<Rightarrow> Some (Ret (), s)
      | Abort \<Rightarrow> Some (Abort, s)
      | Ret type \<Rightarrow>
          if type \<noteq> GGL_CORE_BUS_SUBSCRIBE then Some (Abort, s)
          else if handle = current_handle s then None
          else Some (io_ignore (io_on_error
            (io_bind (io_res (eventstream_encode payload_array None (ggl_serialize_reader val)))
               (server_write ops handle))
            (cleanup_socket_handle ops handle)) s))"

definition ggl_server_sub_close :: "'w socket_ops \<Rightarrow> u32 \<Rightarrow> ('w bus_server, unit) io" where
  "ggl_server_sub_close ops handle = io_ignore (server_close ops handle)"

section \<open>Accepting clients\<close>

text \<open>The calls to the operating system that a server makes for a new client.\<close>

record 'w listen_ops =
  sys_accept :: "('w, int) io"
  sys_set_timeouts :: "int \<Rightarrow> ('w, unit) io"
  sys_epoll_add :: "int \<Rightarrow> u32 \<Rightarrow> ('w, unit) io"

definition new_client_available ::
  "'w socket_ops \<Rightarrow> 'w listen_ops \<Rightarrow> ('w bus_server, unit) io" where
  "new_client_available ops sys =
     io_ignore (io_bind (on_world (sys_accept sys)) (\<lambda>client_fd.
       io_bind
         (io_on_error
            (io_bind (on_world (sys_set_timeouts sys client_fd)) (\<lambda>_. server_register client_fd))
            (on_world (io_do (sock_close ops client_fd)))) (\<lambda>handle.
       io_on_error (on_world (sys_epoll_add sys client_fd handle)) (io_ignore (server_close ops handle)))))"

definition SERVER_FD_DATA :: u64 where
  "SERVER_FD_DATA = - 1"

definition EXT_FD_DATA :: u64 where
  "EXT_FD_DATA = - 1 - 1"

definition epoll_fd_ready ::
  "'w socket_ops \<Rightarrow> 'w listen_ops \<Rightarrow> ('w \<Rightarrow> 'w) option \<Rightarrow> (u32 \<Rightarrow> ('w bus_server, unit) io) \<Rightarrow> u64 \<Rightarrow>
   ('w bus_server, unit) io" where
  "epoll_fd_ready ops sys ext_handler ready data =
     (if data = SERVER_FD_DATA then new_client_available ops sys
      else if ext_handler \<noteq> None \<and> data = EXT_FD_DATA then on_world (io_do (the ext_handler))
      else if data \<le> 0xFFFFFFFF then client_data_ready ops ready (ucast data)
      else io_res (Fail GGL_ERR_FAILURE))"

text \<open>The event loop over the outcomes of the successive waits; \<open>None\<close> is a loop that is still waiting.\<close>

datatype epoll_outcome = EPOLL_INTERRUPTED | EPOLL_FAILED | EPOLL_EVENTS "u64 list"

fun run_events :: "(u64 \<Rightarrow> ('s, unit) io) \<Rightarrow> u64 list \<Rightarrow> ('s, unit) io" where
  "run_events fd_ready [] = io_res (Ret ())"
| "run_events fd_ready (d # ds) = io_bind (fd_ready d) (\<lambda>_. run_events fd_ready ds)"

fun ggl_socket_epoll_run ::
  "(u64 \<Rightarrow> ('s, unit) io) \<Rightarrow> epoll_outcome list \<Rightarrow> 's \<Rightarrow> unit res option \<times> 's" where
  "ggl_socket_epoll_run fd_ready [] s = (None, s)"
| "ggl_socket_epoll_run fd_ready (EPOLL_INTERRUPTED # os) s = ggl_socket_epoll_run fd_ready os s"
| "ggl_socket_epoll_run fd_ready (EPOLL_FAILED # os) s = (Some (Fail GGL_ERR_FAILURE), s)"
| "ggl_socket_epoll_run fd_ready (EPOLL_EVENTS ds # os) s =
     (case run_events fd_ready ds s of
        (Ret _, s') \<Rightarrow> ggl_socket_epoll_run fd_ready os s'
      | (r, s') \<Rightarrow> (Some r, s'))"

section \<open>A request reaches its handler\<close>

lemma on_world_eq: "m (srv_world s) = (r, w) \<Longrightarrow> on_world m s = (r, s\<lparr>srv_world := w\<rparr>)"
  by (simp add: on_world_def)

lemma handle_read_exact:
  assumes "validate_handle pool h = Ret i" "sock_read ops (fds pool ! i) n w = (Ret bs, w')"
    "length bs = n" "n \<noteq> 0"
  shows "handle_read ops pool h n w = (Ret bs, w')"
  using assms by (simp add: handle_read_def res_assert_def)

lemma fold_request_headers:
  "fold_headers request_header (request_headers type method) (None, None) = Inr (Some method, Some type)"
  by (cases type) (simp_all add: request_headers_def request_header_def ggl_buffer_eq_iff GGL_STR_def)

lemma request_params_ser:
  assumes "obj_ok 1 (OBJ_MAP params)" "need (OBJ_MAP params) \<le> length payload_deserialize_mem"
  shows "request_params (ser (OBJ_MAP params)) = Ret params"
proof -
  let ?a = "ggl_bump_alloc_init payload_deserialize_mem"
  have "bump_inv ?a" "bump_index ?a mod 8 = 0" "bump_index ?a = 0" "bump_buf ?a = payload_deserialize_mem"
    by (simp_all add: bump_inv_def ggl_bump_alloc_init_def fits_def PTRDIFF_MAX_def
        payload_deserialize_mem_def PAYLOAD_VALUE_MAX_SUBOBJECTS_def)
  with ggl_deserialize_ser [OF assms(1), of ?a] assms(2)
  have "ggl_deserialize (Some ?a) False (ser (OBJ_MAP params)) =
      Ret (OBJ_MAP params, Some (?a\<lparr>bump_index := need (OBJ_MAP params)\<rparr>))"
    by (simp del: ser.simps need.simps obj_ok.simps)
  moreover have "0 < length (ser (OBJ_MAP params))" by simp
  ultimately show ?thesis
    by (simp add: request_params_def del: ser.simps need.simps)
qed

lemma parse_request_message:
  assumes "bus_message (request_headers type method) (ser (OBJ_MAP params))"
    and "obj_ok 1 (OBJ_MAP params)" "need (OBJ_MAP params) \<le> length payload_deserialize_mem"
    and "eventstream_decode pre data = Ret msg"
    and "header_loop data (msg_headers msg) = Ret (request_headers type method)"
    and "msg_payload msg = ser (OBJ_MAP params)"
  shows "parse_request pre data = Ret (method, type, params)"
  using assms by (simp add: parse_request_def header_fold_list fold_request_headers request_params_ser
      del: ser.simps need.simps obj_ok.simps)

lemma dispatch_found:
  assumes "find (\<lambda>d. desc_name d = method) handlers = Some desc"
    "is_subscription desc \<longleftrightarrow> type = GGL_CORE_BUS_SUBSCRIBE"
  shows "dispatch ops handlers method type params h = run_handler ops desc params h"
  using assms by (induction handlers) (auto simp: ggl_buffer_eq_iff split: if_splits)

lemma client_ready_message:
  assumes "bus_message hs p" "validate_handle (srv_pool s) h = Ret i"
    and "delivers (sock_read ops (fds (srv_pool s) ! i)) (packet (headers_bytes hs) p) (srv_world s) w'"
  obtains pre data msg where "eventstream_decode pre data = Ret msg"
    "header_loop data (msg_headers msg) = Ret hs" "msg_payload msg = p"
    "client_ready ops handlers h s =
      or_respond ops h (parse_request pre data) (\<lambda>(method, type, params).
      io_bind (server_protected (set_request_type type) h) (\<lambda>_.
      dispatch ops handlers method type params h)) (s\<lparr>srv_world := w'\<rparr>)"
proof -
  let ?pkt = "packet (headers_bytes hs) p" and ?fd = "fds (srv_pool s) ! i"
  obtain pre msg where dec: "eventstream_decode_prelude (take 12 ?pkt) = Ret pre"
    "unat (data_len pre) = length ?pkt - 12" "unat (data_len pre) \<le> GGL_COREBUS_MAX_MSG_LEN"
    "4 \<le> unat (data_len pre)" "eventstream_decode pre (drop 12 ?pkt) = Ret msg"
    "header_loop (drop 12 ?pkt) (msg_headers msg) = Ret hs" "msg_payload msg = p"
    by (rule bus_message_decode [OF assms(1)])
  obtain w1 where rd: "sock_read ops ?fd 12 (srv_world s) = (Ret (take 12 ?pkt), w1)"
    "sock_read ops ?fd (length ?pkt - 12) w1 = (Ret (drop 12 ?pkt), w')"
    using assms(3) by (auto simp: delivers_def)
  have "handle_read ops (srv_pool s) h 12 (srv_world s) = (Ret (take 12 ?pkt), w1)"
    using assms(2) rd(1) by (intro handle_read_exact) (auto simp: length_packet)
  then have r1: "server_read ops h 12 s = (Ret (take 12 ?pkt), s\<lparr>srv_world := w1\<rparr>)"
    by (simp add: server_read_def on_world_eq)
  have "handle_read ops (srv_pool s) h (unat (data_len pre)) w1 = (Ret (drop 12 ?pkt), w')"
    using assms(2) rd(2) dec(2,4) by (intro handle_read_exact) auto
  then have r2: "server_read ops h (unat (data_len pre)) (s\<lparr>srv_world := w1\<rparr>)
      = (Ret (drop 12 ?pkt), s\<lparr>srv_world := w'\<rparr>)"
    by (simp add: server_read_def on_world_eq)
  show thesis
    using dec(3) by (intro that [of pre "drop 12 ?pkt" msg] dec)
      (simp add: client_ready_def or_respond_def r1 r2 dec(1) res_guard_def not_less)
qed

lemma request_handled:
  assumes "request_packet type method params = Ret pkt"
    and "need (OBJ_MAP params) \<le> length payload_deserialize_mem"
    and "validate_handle (srv_pool s) h = Ret i"
    and "delivers (sock_read ops (fds (srv_pool s) ! i)) pkt (srv_world s) w'"
    and "find (\<lambda>d. desc_name d = method) handlers = Some desc"
    and "is_subscription desc \<longleftrightarrow> type = GGL_CORE_BUS_SUBSCRIBE"
  shows "client_ready ops handlers h s =
    run_handler ops desc params h
      (s\<lparr>srv_world := w', client_request_types := (client_request_types s)[i := type]\<rparr>)"
proof -
  from assms(1) have msg: "obj_ok 1 (OBJ_MAP params)"
    "bus_message (request_headers type method) (ser (OBJ_MAP params))"
    and pkt: "pkt = packet (headers_bytes (request_headers type method)) (ser (OBJ_MAP params))"
    by (auto simp: request_packet_Ret simp del: obj_ok.simps ser.simps)
  obtain pre data m where "eventstream_decode pre data = Ret m"
    "header_loop data (msg_headers m) = Ret (request_headers type method)"
    "msg_payload m = ser (OBJ_MAP params)"
    and ready: "client_ready ops handlers h s =
      or_respond ops h (parse_request pre data) (\<lambda>(method, type, params).
      io_bind (server_protected (set_request_type type) h) (\<lambda>_.
      dispatch ops handlers method type params h)) (s\<lparr>srv_world := w'\<rparr>)"
    by (rule client_ready_message [OF msg(2) assms(3) assms(4) [unfolded pkt]])
  then have "parse_request pre data = Ret (method, type, params)"
    using parse_request_message [OF msg(2,1) assms(2)] by blast
  moreover have "server_protected (set_request_type type) h (s\<lparr>srv_world := w'\<rparr>) =
      (Ret (), s\<lparr>srv_world := w', client_request_types := (client_request_types s)[i := type]\<rparr>)"
    using assms(3) by (simp add: server_protected_def ggl_socket_handle_protected_def set_request_type_def)
  ultimately show ?thesis
    by (simp add: ready or_respond_def dispatch_found [OF assms(5,6)])
qed

text \<open>C1: the packet that a client sends for a request makes the server call the handler of the method,
  with the parameters that the client passed, for the client it was read from and with the type of the
  request recorded for it, provided the parameters fit the decoding memory of the server.\<close>

theorem request_reaches_handler:
  assumes "request_packet type method params = Ret pkt"
    and "need (OBJ_MAP params) \<le> length payload_deserialize_mem"
    and "validate_handle (srv_pool s) h = Ret i"
    and "delivers (sock_read ops (fds (srv_pool s) ! i)) pkt (srv_world s) w'"
    and "find (\<lambda>d. desc_name d = method) handlers = Some desc"
    and "is_subscription desc \<longleftrightarrow> type = GGL_CORE_BUS_SUBSCRIBE"
  shows "client_ready ops handlers h s =
    run_handler ops desc params h
      (s\<lparr>srv_world := w', client_request_types := (client_request_types s)[i := type]\<rparr>)"
  using assms by (rule request_handled)

lemma delivers_stream:
  assumes "inbox w = pkt @ rest" "12 \<le> length pkt"
  shows "delivers (sock_read stream_ops fd) pkt w (w\<lparr>inbox := rest\<rparr>)"
  using assms by (auto simp: delivers_def stream_ops_def)

definition example_pool :: GglSocketPool where
  "example_pool = \<lparr>max_fds = 1, fds = [7], generations = [0]\<rparr>"

lemma example_pool_valid: "validate_handle example_pool 1 = Ret 0" "fds example_pool ! 0 = 7"
  by (simp_all add: validate_handle_def example_pool_def handle_index_def handle_generation_def UINT16_MAX_def)

definition example_server :: "buffer \<Rightarrow> stream_world bus_server" where
  "example_server input =
     \<lparr>srv_pool = example_pool, client_request_types = [GGL_CORE_BUS_CALL], subscription_cleanup = [None],
      current_handle = 0, srv_world = \<lparr>inbox = input, outbox = [], closed_fds = []\<rparr>\<rparr>"

definition example_desc :: "stream_world GglRpcMethodDesc" where
  "example_desc = \<lparr>desc_name = GGL_STR ''read'', is_subscription = False,
     desc_handler = (\<lambda>params handle. ggl_respond stream_ops handle (OBJ_MAP params))\<rparr>"

definition example_params :: GglMap where
  "example_params = [(GGL_STR ''key'', OBJ_I64 5)]"

lemma example_request:
  "request_packet GGL_CORE_BUS_CALL (GGL_STR ''read'') example_params =
    Ret (packet (headers_bytes (request_headers GGL_CORE_BUS_CALL (GGL_STR ''read'')))
      (ser (OBJ_MAP example_params)))"
  "need (OBJ_MAP example_params) \<le> length payload_deserialize_mem"
  by (simp_all add: request_packet_Ret bus_message_def request_headers_def example_params_def header_ok_def
      header_bytes_def GGL_STR_def GGL_COREBUS_MAX_MSG_LEN_def GGL_MAX_OBJECT_DEPTH_def UINT32_MAX_def ser_buf_def
      payload_deserialize_mem_def PAYLOAD_VALUE_MAX_SUBOBJECTS_def)

theorem request_reaches_handler_witness:
  "\<exists>pkt. request_packet GGL_CORE_BUS_CALL (GGL_STR ''read'') example_params = Ret pkt \<and>
    client_ready stream_ops [example_desc] 1 (example_server pkt) =
      run_handler stream_ops example_desc example_params 1
        (example_server pkt \<lparr>srv_world := \<lparr>inbox = [], outbox = [], closed_fds = []\<rparr>,
           client_request_types := [GGL_CORE_BUS_CALL]\<rparr>)"
proof -
  let ?pkt = "packet (headers_bytes (request_headers GGL_CORE_BUS_CALL (GGL_STR ''read'')))
      (ser (OBJ_MAP example_params))"
  have "delivers (sock_read stream_ops 7) ?pkt (srv_world (example_server ?pkt))
      \<lparr>inbox = [], outbox = [], closed_fds = []\<rparr>"
    using delivers_stream [of "srv_world (example_server ?pkt)" ?pkt "[]" 7]
    by (simp add: example_server_def length_packet)
  then show ?thesis
    using request_reaches_handler [OF example_request, of "example_server ?pkt" 1 0 stream_ops _
        "[example_desc]" example_desc] example_request(1) example_pool_valid
    by (simp add: example_server_def example_desc_def)
qed

section \<open>A response reaches the caller\<close>

lemma validate_nonzero: "validate_handle pool h = Ret i \<Longrightarrow> h \<noteq> 0"
  using unat_u16_less [of "max_fds pool"]
  by (auto simp: validate_handle_def handle_index_def ucast_minus_1_u16 word_le_nat_alt split: if_splits)

lemma server_write_eq:
  assumes "validate_handle (srv_pool s) h = Ret i" "buf \<noteq> []"
  shows "server_write ops h buf s = on_world (sock_write ops (fds (srv_pool s) ! i) buf) s"
  using assms by (simp add: server_write_def handle_write_def on_world_def)

lemma server_close_eq:
  assumes "validate_handle (srv_pool s) h = Ret i"
  shows "\<exists>s'. server_close ops h s = (Ret (), s') \<and> current_handle s' = current_handle s"
  using assms by (simp add: server_close_def ggl_socket_pool_release_def run_callback_def
      close_subscription_def Let_def split: option.splits)

lemma packet_nonempty: "packet hb p \<noteq> []"
  using length_packet [of hb p] by auto

lemma bus_message_response:
  "eventstream_encode payload_array None (ggl_serialize_reader val) = Ret pkt \<longleftrightarrow>
    obj_ok 1 val \<and> bus_message [] (ser val) \<and> pkt = packet [] (ser val)"
  by (simp add: bus_encode_reader given_headers_def)

lemma ggl_respond_call:
  assumes "validate_handle (srv_pool s) h = Ret i" "current_handle s = h"
    and "client_request_types s ! i = GGL_CORE_BUS_CALL"
    and "eventstream_encode payload_array None (ggl_serialize_reader val) = Ret pkt"
    and "sock_write ops (fds (srv_pool s) ! i) pkt (srv_world s) = (Ret (), w)"
  shows "ggl_respond ops h val s =
    (Ret (), cleanup_current_handle h (snd (server_close ops h (s\<lparr>srv_world := w\<rparr>))))"
proof -
  have "pkt \<noteq> []" using assms(4) packet_nonempty by (auto simp: bus_message_response)
  then have wr: "server_write ops h pkt s = (Ret (), s\<lparr>srv_world := w\<rparr>)"
    using assms(5) by (simp add: server_write_eq [OF assms(1)] on_world_def)
  obtain s' where cl: "server_close ops h (s\<lparr>srv_world := w\<rparr>) = (Ret (), s')"
    using server_close_eq [of "s\<lparr>srv_world := w\<rparr>" h i ops] assms(1) by auto
  from assms validate_nonzero [OF assms(1)] wr cl show ?thesis
    by (simp add: ggl_respond_def get_request_type_def res_assert_def io_ignore_def io_finally_def
        cleanup_socket_handle_def)
qed

lemma ggl_call_response:
  assumes "ggl_client_send_message ops interface GGL_CORE_BUS_CALL method params w0 = (Ret conn, w)"
    and "obj_ok 1 val" "bus_message [] (ser val)"
    and "delivers (sock_read ops conn) (packet [] (ser val)) w w'"
    and "\<not> (want \<and> ggl_deserialize alloc True (ser val) = Abort)"
  shows "ggl_call ops interface method params alloc want w0 =
    (if want then res_bind (ggl_deserialize alloc True (ser val)) (\<lambda>_. Ret (Inr (Some val)))
     else Ret (Inr None), sock_close ops conn w')"
proof -
  from get_response_message [OF assms(3), of "sock_read ops conn" w w'] assms(4) obtain msg data where
    "msg_payload msg = ser val"
    "ggl_client_get_response (sock_read ops conn) GGL_COREBUS_MAX_MSG_LEN w = (Ret (Inr (msg, data)), w')"
    by auto
  moreover have "obj = val" if "ggl_deserialize alloc True (ser val) = Ret (obj, a)" for obj a
    using ggl_deserialize_ser_unique [OF assms(2) that] .
  ultimately show ?thesis
    using assms(1,5) by (cases "ggl_deserialize alloc True (ser val)")
      (auto simp: ggl_call_def io_finally_def)
qed

text \<open>C2: the object a handler responds to a call with is the object the caller gets, if the caller has
  the memory to decode it into; both sides close the connection, and the server ends the request.\<close>

theorem response_reaches_caller:
  assumes "validate_handle (srv_pool s) h = Ret i" "current_handle s = h"
    and "client_request_types s ! i = GGL_CORE_BUS_CALL"
    and "eventstream_encode payload_array None (ggl_serialize_reader val) = Ret pkt"
    and "sock_write ops (fds (srv_pool s) ! i) pkt (srv_world s) = (Ret (), w)"
    and "ggl_client_send_message ops' interface GGL_CORE_BUS_CALL method params v0 = (Ret conn, v)"
    and "delivers (sock_read ops' conn) pkt v v'"
    and "ggl_deserialize alloc True (ser val) = Ret (obj, alloc')"
  shows "ggl_respond ops h val s =
      (Ret (), clear_current_handle (snd (server_close ops h (s\<lparr>srv_world := w\<rparr>)))) \<and>
    ggl_call ops' interface method params alloc True v0 =
      (Ret (Inr (Some val)), sock_close ops' conn v')"
proof
  from assms(4) have pkt: "obj_ok 1 val" "bus_message [] (ser val)" "pkt = packet [] (ser val)"
    by (auto simp: bus_message_response)
  show "ggl_call ops' interface method params alloc True v0 =
      (Ret (Inr (Some val)), sock_close ops' conn v')"
    using ggl_call_response [OF assms(6) pkt(1,2), of v' True alloc] assms(7,8) pkt(3) by simp
  have "current_handle (snd (server_close ops h (s\<lparr>srv_world := w\<rparr>))) = h"
    using server_close_eq [of "s\<lparr>srv_world := w\<rparr>" h i ops] assms(1,2) by auto
  then show "ggl_respond ops h val s =
      (Ret (), clear_current_handle (snd (server_close ops h (s\<lparr>srv_world := w\<rparr>))))"
    using ggl_respond_call [OF assms(1-5)] by (simp add: cleanup_current_handle_def)
qed

lemma example_send:
  "\<exists>out. ggl_client_send_message stream_ops (GGL_STR ''gg_config'') GGL_CORE_BUS_CALL (GGL_STR ''read'')
      example_params \<lparr>inbox = input, outbox = [], closed_fds = []\<rparr> =
    (Ret 3, \<lparr>inbox = input, outbox = out, closed_fds = []\<rparr>)"
  by (simp add: ggl_client_send_message_def interface_connect_def socket_path_def ggl_byte_vec_append_def
      vec_append_def GGL_INTERFACE_SOCKET_PREFIX_def GGL_INTERFACE_NAME_MAX_LEN_def GGL_STR_def [of "''gg_config''"]
      GGL_STR_def [of "''/run/greengrass/''"] SIZE_MAX_def stream_ops_def io_on_error_def example_request)

theorem response_reaches_caller_witness:
  "\<exists>s v0. current_handle s = 1 \<and>
    ggl_respond stream_ops 1 (OBJ_I64 5) s =
      (Ret (), clear_current_handle (snd (server_close stream_ops 1
        (s\<lparr>srv_world := \<lparr>inbox = [], outbox = packet [] (ser (OBJ_I64 5)), closed_fds = []\<rparr>\<rparr>)))) \<and>
    fst (ggl_call stream_ops (GGL_STR ''gg_config'') (GGL_STR ''read'') example_params None True v0) =
      Ret (Inr (Some (OBJ_I64 5)))"
proof -
  let ?pkt = "packet [] (ser (OBJ_I64 5))" and ?s = "example_server [] \<lparr>current_handle := 1\<rparr>"
  obtain out where send: "ggl_client_send_message stream_ops (GGL_STR ''gg_config'') GGL_CORE_BUS_CALL
      (GGL_STR ''read'') example_params \<lparr>inbox = ?pkt, outbox = [], closed_fds = []\<rparr> =
    (Ret 3, \<lparr>inbox = ?pkt, outbox = out, closed_fds = []\<rparr>)"
    using example_send by blast
  have enc: "eventstream_encode payload_array None (ggl_serialize_reader (OBJ_I64 5)) = Ret ?pkt"
    by (simp add: bus_message_response bus_message_def GGL_COREBUS_MAX_MSG_LEN_def)
  have del: "delivers (sock_read stream_ops 3) ?pkt \<lparr>inbox = ?pkt, outbox = out, closed_fds = []\<rparr>
      \<lparr>inbox = [], outbox = out, closed_fds = []\<rparr>"
    using delivers_stream [of "\<lparr>inbox = ?pkt, outbox = out, closed_fds = []\<rparr>" ?pkt "[]" 3]
    by (simp add: length_packet)
  have dec: "ggl_deserialize None True (ser (OBJ_I64 5)) = Ret (OBJ_I64 5, None)"
    by (simp add: ggl_deserialize_def deserialize_loop_cases deserialize_item_def read_obj_defs
        buf_take_def le64.dec_enc)
  have wr: "sock_write stream_ops 7 ?pkt (srv_world ?s) =
      (Ret (), \<lparr>inbox = [], outbox = ?pkt, closed_fds = []\<rparr>)"
    by (simp add: stream_ops_def example_server_def)
  have "validate_handle (srv_pool ?s) 1 = Ret 0" "fds (srv_pool ?s) ! 0 = 7"
    "client_request_types ?s ! 0 = GGL_CORE_BUS_CALL" "current_handle ?s = 1"
    using example_pool_valid by (simp_all add: example_server_def)
  from response_reaches_caller [OF this(1,4,3) enc _ send del dec, of stream_ops] wr this show ?thesis
    by (intro exI [of _ ?s] exI [of _ "\<lparr>inbox = ?pkt, outbox = [], closed_fds = []\<rparr>"]) (simp del: ser.simps)
qed

section \<open>A request that is not served is answered with an error\<close>

definition error_response :: "GglError \<Rightarrow> EventStreamHeader list" where
  "error_response e = [\<lparr>header_name = GGL_STR ''error'', header_value = EVENTSTREAM_INT32 (error_int32 e)\<rparr>]"

lemma bus_message_error: "bus_message (error_response e) []"
  by (simp add: bus_message_def error_response_def header_ok_def header_bytes_def GGL_STR_def
      GGL_COREBUS_MAX_MSG_LEN_def)

lemma send_err_response_eq:
  assumes "e \<noteq> GGL_ERR_OK"
  shows "send_err_response ops h e s =
    io_bind (io_ignore (server_write ops h (packet (headers_bytes (error_response e)) [])))
      (\<lambda>_. io_ignore (server_close ops h)) s"
proof -
  have "eventstream_encode payload_array (Some (error_response e)) None =
      Ret (packet (headers_bytes (error_response e)) [])"
    using bus_message_error by (simp add: bus_encode_empty given_headers_def)
  with assms show ?thesis
    by (simp add: send_err_response_def res_assert_def error_response_def)
qed

text \<open>C6: what the server sends for an error is a packet that makes the caller return a remote error with
  the same code and close its connection; the server then closes the client.\<close>

theorem error_reaches_caller:
  assumes "e \<noteq> GGL_ERR_OK"
    and "ggl_client_send_message ops interface GGL_CORE_BUS_CALL method params w0 = (Ret conn, w)"
  shows "\<exists>pkt. send_err_response ops' h e s =
      io_bind (io_ignore (server_write ops' h pkt)) (\<lambda>_. io_ignore (server_close ops' h)) s \<and>
    (\<forall>w'. delivers (sock_read ops conn) pkt w w' \<longrightarrow>
       ggl_call ops interface method params alloc want w0 =
         (Ret (Inl (of_nat (GglError_code e))), sock_close ops conn w'))"
proof (intro exI conjI allI impI)
  let ?pkt = "packet (headers_bytes (error_response e)) []"
  show "send_err_response ops' h e s =
      io_bind (io_ignore (server_write ops' h ?pkt)) (\<lambda>_. io_ignore (server_close ops' h)) s"
    by (rule send_err_response_eq [OF assms(1)])
  fix w' assume "delivers (sock_read ops conn) ?pkt w w'"
  moreover have "fold_headers error_header (error_response e) () = Inl (error_int32 e)"
    by (simp add: error_response_def error_header_def ggl_buffer_eq_iff)
  ultimately have "ggl_client_get_response (sock_read ops conn) GGL_COREBUS_MAX_MSG_LEN w =
      (Ret (Inl (error_int32 e)), w')"
    using get_response_message [OF bus_message_error, of "sock_read ops conn" e w w'] by auto
  with assms(2) show "ggl_call ops interface method params alloc want w0 =
      (Ret (Inl (of_nat (GglError_code e))), sock_close ops conn w')"
    by (simp add: ggl_call_def io_finally_def error_int32_def)
qed

theorem error_reaches_caller_witness:
  "\<exists>w conn pkt. ggl_client_send_message stream_ops (GGL_STR ''gg_config'') GGL_CORE_BUS_CALL (GGL_STR ''read'')
      example_params \<lparr>inbox = [], outbox = [], closed_fds = []\<rparr> = (Ret conn, w) \<and>
    send_err_response stream_ops 1 GGL_ERR_NOENTRY (example_server []) =
      io_bind (io_ignore (server_write stream_ops 1 pkt)) (\<lambda>_. io_ignore (server_close stream_ops 1))
        (example_server [])"
proof -
  obtain out where send: "ggl_client_send_message stream_ops (GGL_STR ''gg_config'') GGL_CORE_BUS_CALL
      (GGL_STR ''read'') example_params \<lparr>inbox = [], outbox = [], closed_fds = []\<rparr> =
    (Ret 3, \<lparr>inbox = [], outbox = out, closed_fds = []\<rparr>)"
    using example_send by blast
  from error_reaches_caller [OF _ send, of GGL_ERR_NOENTRY stream_ops 1 "example_server []" None True] send
  show ?thesis by auto
qed

section \<open>A client that is not served is closed\<close>

text \<open>The invariant of a server: a well-formed pool, with an entry of each array for every slot.\<close>

definition server_inv :: "'w bus_server \<Rightarrow> bool" where
  "server_inv s \<longleftrightarrow> pool_inv (srv_pool s) \<and>
     length (client_request_types s) = unat (max_fds (srv_pool s)) \<and>
     length (subscription_cleanup s) = unat (max_fds (srv_pool s))"

lemma server_close_inv:
  assumes "server_inv s" "server_close ops h s = (r, s')"
  shows "server_inv s' \<and> validate_handle (srv_pool s') h \<noteq> Ret i \<and> r \<noteq> Abort \<and>
    current_handle s' = current_handle s"
proof -
  obtain r0 pool s1 where rel:
    "ggl_socket_pool_release (Some close_subscription) (srv_pool s) s h = (r0, pool, s1)"
    by (metis prod_cases3)
  have "r0 \<noteq> Abort" "client_request_types s1 = client_request_types s"
    "subscription_cleanup s1 = subscription_cleanup s" "current_handle s1 = current_handle s"
    using rel validate_not_Abort [of "srv_pool s" h]
    by (auto simp: ggl_socket_pool_release_def run_callback_def close_subscription_def Let_def
        split: res.splits option.splits)
  moreover have "validate_handle pool h \<noteq> Ret i \<and> pool_inv pool \<and> max_fds pool = max_fds (srv_pool s)"
    using release_invalid [OF _ rel] assms(1)
    by (simp add: server_inv_def run_callback_def close_subscription_def)
  ultimately show ?thesis
    using assms rel by (cases r0) (auto simp: server_close_def server_inv_def)
qed

lemma server_write_inv:
  assumes "server_write ops h buf s = (r, s')"
  shows "(server_inv s' \<longleftrightarrow> server_inv s) \<and> srv_pool s' = srv_pool s \<and> current_handle s' = current_handle s"
  using assms by (auto simp: server_write_def on_world_def server_inv_def split: prod.splits)

lemma server_read_inv:
  assumes "server_read ops h n s = (r, s')"
  shows "(server_inv s' \<longleftrightarrow> server_inv s) \<and> srv_pool s' = srv_pool s \<and> current_handle s' = current_handle s"
  using assms by (auto simp: server_read_def on_world_def server_inv_def split: prod.splits)

lemma send_err_response_inv:
  assumes "server_inv s" "send_err_response ops h e s = (r, s')" "r \<noteq> Abort"
  shows "r = Ret () \<and> server_inv s' \<and> validate_handle (srv_pool s') h \<noteq> Ret i \<and>
    current_handle s' = current_handle s"
proof -
  have e: "e \<noteq> GGL_ERR_OK"
    using assms(2,3) by (auto simp: send_err_response_def res_assert_def)
  obtain r1 s1 where w: "server_write ops h (packet (headers_bytes (error_response e)) []) s = (r1, s1)"
    by fastforce
  obtain r2 s2 where c: "server_close ops h s1 = (r2, s2)" by fastforce
  have "server_inv s1" "current_handle s1 = current_handle s" "r1 \<noteq> Abort"
    using server_write_inv [OF w] assms w by (auto simp: send_err_response_eq [OF e] io_ignore_def)
  with server_close_inv [OF _ c, of i] assms(2) w c show ?thesis
    by (cases r1; cases r2; auto simp: send_err_response_eq [OF e] io_ignore_def)
qed

text \<open>The handlers of an interface keep the invariant.\<close>

definition handler_keeps_inv :: "'w GglRpcMethodDesc \<Rightarrow> bool" where
  "handler_keeps_inv d \<longleftrightarrow> (\<forall>params h s r s'. server_inv s \<longrightarrow>
     desc_handler d params h s = (r, s') \<longrightarrow> server_inv s')"

definition served :: "'w GglRpcMethodDesc list \<Rightarrow> u32 \<Rightarrow> 'w bus_server \<Rightarrow> bool" where
  "served handlers h s' \<longleftrightarrow> (\<exists>d \<in> set handlers. \<exists>params s. desc_handler d params h s = (Ret (), s'))"

lemma run_handler_inv:
  assumes "server_inv s" "handler_keeps_inv d" "run_handler ops d params h s = (r, s')" "r \<noteq> Abort"
    and "d \<in> set handlers"
  shows "r = Ret () \<and> server_inv s' \<and> current_handle s' = 0 \<and>
    (served handlers h s' \<or> validate_handle (srv_pool s') h \<noteq> Ret i)"
proof -
  let ?s = "set_current_handle h s"
  have inv: "server_inv ?s" using assms(1) by (simp add: server_inv_def set_current_handle_def)
  obtain r1 s1 where h: "desc_handler d params h ?s = (r1, s1)" by fastforce
  have inv1: "server_inv s1" using assms(2) inv h unfolding handler_keeps_inv_def by blast
  show ?thesis
  proof (cases r1)
    case (Ret u)
    with assms h have "s' = s1" "r = Ret ()" "current_handle s1 = 0"
      by (auto simp: run_handler_def res_assert_def split: if_splits)
    with inv1 h Ret assms(5) show ?thesis by (auto simp: served_def)
  next
    case (Fail e)
    obtain r2 s2 where se: "send_err_response ops h e s1 = (r2, s2)" by fastforce
    with assms h Fail have "r2 \<noteq> Abort"
      by (auto simp: run_handler_def res_assert_def split: if_splits)
    from send_err_response_inv [OF inv1 se this, of i] assms h Fail se show ?thesis
      by (auto simp: run_handler_def res_assert_def server_inv_def clear_current_handle_def split: if_splits)
  next
    case Abort
    with assms h show ?thesis by (simp add: run_handler_def)
  qed
qed

lemma dispatch_inv:
  assumes "server_inv s" "\<And>d. d \<in> set ds \<Longrightarrow> handler_keeps_inv d" "set ds \<subseteq> set handlers"
    and "dispatch ops ds method type params h s = (r, s')" "r \<noteq> Abort" "current_handle s = 0"
  shows "r = Ret () \<and> server_inv s' \<and> current_handle s' = 0 \<and>
    (served handlers h s' \<or> validate_handle (srv_pool s') h \<noteq> Ret i)"
  using assms(2-)
proof (induction ds)
  case Nil
  with send_err_response_inv [OF assms(1)] show ?case by simp
next
  case (Cons d ds)
  with send_err_response_inv [OF assms(1), of ops h _ r s' i] run_handler_inv [OF assms(1), of d ops params h r s' handlers i]
  show ?case by (auto split: if_splits)
qed

lemma or_respond_cases:
  assumes "or_respond ops h r0 f s = (r, s')"
  obtains (ok) x where "r0 = Ret x" "f x s = (r, s')"
  | (err) e where "r0 = Fail e" "send_err_response ops h e s = (r, s')"
  | (abort) "r0 = Abort" "r = Abort"
  using assms by (cases r0) (auto simp: or_respond_def)

definition ends_request ::
  "'w GglRpcMethodDesc list \<Rightarrow> u32 \<Rightarrow> unit res \<Rightarrow> 'w bus_server \<Rightarrow> bool" where
  "ends_request handlers h r s' \<longleftrightarrow> server_inv s' \<and> current_handle s' = 0 \<and>
     (r = Ret () \<longrightarrow> served handlers h s' \<or> (\<forall>i. validate_handle (srv_pool s') h \<noteq> Ret i))"

lemma or_respond_ends:
  assumes "or_respond ops h r0 f s = (r, s')" "server_inv s" "current_handle s = 0" "r \<noteq> Abort"
    and "\<And>x. r0 = Ret x \<Longrightarrow> f x s = (r, s') \<Longrightarrow> ends_request handlers h r s'"
  shows "ends_request handlers h r s'"
  using assms(1)
proof (cases rule: or_respond_cases)
  case (ok x)
  then show ?thesis by (rule assms(5))
next
  case (err e)
  with send_err_response_inv [OF assms(2) err(2) assms(4)] assms(3) show ?thesis
    by (auto simp: ends_request_def)
next
  case abort
  with assms(4) show ?thesis by simp
qed

lemma server_protected_inv:
  assumes "server_protected (set_request_type t) h s = (r, s')" "server_inv s"
  shows "server_inv s' \<and> current_handle s' = current_handle s \<and> r \<noteq> Abort"
  using assms validate_not_Abort [of "srv_pool s" h]
  by (auto simp: server_protected_def ggl_socket_handle_protected_def set_request_type_def server_inv_def
      split: res.splits)

lemma req_ends:
  assumes "server_inv s" "current_handle s = 0" "\<And>d. d \<in> set handlers \<Longrightarrow> handler_keeps_inv d" "r \<noteq> Abort"
    and "or_respond ops h req (\<lambda>(method, type, params).
      io_bind (server_protected (set_request_type type) h) (\<lambda>_.
      dispatch ops handlers method type params h)) s = (r, s')"
  shows "ends_request handlers h r s'"
  using assms(5)
proof (rule or_respond_ends [OF _ assms(1,2,4)])
  fix x :: "buffer \<times> GglCoreBusRequestType \<times> GglMap"
  assume d: "(case x of (method, type, params) \<Rightarrow>
    io_bind (server_protected (set_request_type type) h) (\<lambda>_.
    dispatch ops handlers method type params h)) s = (r, s')"
  obtain mth type params where x: "x = (mth, type, params)" by (cases x)
  from d show "ends_request handlers h r s'"
    unfolding x prod.case
  proof (cases rule: io_bind_cases)
    case (ok u s3)
    have s3: "server_inv s3" "current_handle s3 = 0"
      using server_protected_inv [OF ok(1) assms(1)] assms(2) by auto
    from dispatch_inv [OF s3(1) assms(3) _ ok(2) assms(4) s3(2), of handlers] show ?thesis
      by (auto simp: ends_request_def)
  qed (use assms(1,2,4) in \<open>auto simp: ends_request_def dest: server_protected_inv\<close>)
qed

lemma client_ready_ends:
  assumes "server_inv s" "current_handle s = 0" "\<And>d. d \<in> set handlers \<Longrightarrow> handler_keeps_inv d"
    and "client_ready ops handlers h s = (r, s')" "r \<noteq> Abort"
  shows "ends_request handlers h r s'"
  using assms(4) unfolding client_ready_def
proof (cases rule: io_bind_cases)
  case (ok pre_buf s1)
  have s1: "server_inv s1" "current_handle s1 = 0" using server_read_inv [OF ok(1)] assms(1,2) by auto
  note step = or_respond_ends [OF _ s1 assms(5), where handlers = handlers]
  from ok(2) show ?thesis
  proof (rule step)
    fix pre assume "or_respond ops h
        (res_guard (\<not> unat (data_len pre) > GGL_COREBUS_MAX_MSG_LEN) GGL_ERR_NOMEM) (\<lambda>_.
      io_bind (server_read ops h (unat (data_len pre))) (\<lambda>data_section.
      or_respond ops h (parse_request pre data_section) (\<lambda>(method, type, params).
      io_bind (server_protected (set_request_type type) h) (\<lambda>_.
      dispatch ops handlers method type params h)))) s1 = (r, s')"
    then show "ends_request handlers h r s'"
    proof (rule step, elim io_bind_cases)
      fix data s2
      assume rd: "server_read ops h (unat (data_len pre)) s1 = (Ret data, s2)"
        and req: "or_respond ops h (parse_request pre data) (\<lambda>(method, type, params).
          io_bind (server_protected (set_request_type type) h) (\<lambda>_.
          dispatch ops handlers method type params h)) s2 = (r, s')"
      have "server_inv s2" "current_handle s2 = 0" using server_read_inv [OF rd] s1 by auto
      from req_ends [OF this assms(3,5) req] show "ends_request handlers h r s'" .
    qed (use s1 assms(5) in \<open>auto simp: ends_request_def dest: server_read_inv\<close>)
  qed
qed (use assms(1,2,5) in \<open>auto simp: ends_request_def dest: server_read_inv\<close>)

lemma served_or_closed:
  assumes "server_inv s" "current_handle s = 0" "\<forall>d \<in> set handlers. handler_keeps_inv d"
    and "client_data_ready ops (client_ready ops handlers) h s = (r, s')" "r \<noteq> Abort"
  shows "r = Ret () \<and> server_inv s' \<and> current_handle s' = 0 \<and>
    (served handlers h s' \<or> (\<forall>i. validate_handle (srv_pool s') h \<noteq> Ret i))"
proof -
  obtain r1 s1 where ready: "client_ready ops handlers h s = (r1, s1)" by fastforce
  with assms(4,5) have "r1 \<noteq> Abort" by (auto simp: client_data_ready_def)
  with client_ready_ends [OF assms(1,2) _ ready] assms(3) have e: "ends_request handlers h r1 s1" by blast
  show ?thesis
  proof (cases r1)
    case (Fail e)
    obtain r2 s2 where c: "server_close ops h s1 = (r2, s2)" by fastforce
    from server_close_inv [OF _ c] e Fail ready c assms(4) show ?thesis
      by (cases r2) (auto simp: client_data_ready_def io_ignore_def ends_request_def)
  qed (use e ready assms(4,5) in \<open>auto simp: client_data_ready_def ends_request_def\<close>)
qed

text \<open>C3: when the server is done with the data of a client, whatever the data was, either a handler has
  served the request or the handle of the client has been closed and is no longer valid; no request is
  current any more, and the invariant of the server holds.\<close>

theorem client_served_or_closed:
  assumes "server_inv s" "current_handle s = 0" "\<forall>d \<in> set handlers. handler_keeps_inv d"
    and "client_data_ready ops (client_ready ops handlers) h s = (r, s')" "r \<noteq> Abort"
  shows "r = Ret () \<and> server_inv s' \<and> current_handle s' = 0 \<and>
    (served handlers h s' \<or> (\<forall>i. validate_handle (srv_pool s') h \<noteq> Ret i))"
  using assms by (rule served_or_closed)

section \<open>No assertion of the server fails\<close>

text \<open>A routine never fails with \<^verbatim>\<open>GGL_ERR_OK\<close>, which \<open>send_err_response\<close> must not be called with.\<close>

named_theorems fails_proper \<open>failures are errors\<close>

lemma take_header_proper [fails_proper]: "take_header hb \<noteq> Fail GGL_ERR_OK"
  by (auto simp: take_header_def res_simps Let_def split: if_splits)

lemma count_headers_proper [fails_proper]: "count_headers hb c \<noteq> Fail GGL_ERR_OK"
proof (induction hb c rule: count_headers.induct)
  case (1 hb c)
  then show ?case by (subst count_headers.simps) (auto simp: res_simps fails_proper)
qed

lemma header_loop_proper [fails_proper]: "header_loop mem it \<noteq> Fail e"
proof (induction mem it rule: header_loop.induct)
  case (1 mem it)
  then show ?case by (subst header_loop.simps) (auto simp: res_simps split: res.splits)
qed

lemma eventstream_decode_prelude_proper [fails_proper]: "eventstream_decode_prelude buf \<noteq> Fail GGL_ERR_OK"
  by (auto simp: eventstream_decode_prelude_def res_simps read_be_uint32_def Let_def)

lemma eventstream_decode_proper [fails_proper]: "eventstream_decode pre data \<noteq> Fail GGL_ERR_OK"
  by (auto simp: eventstream_decode_def res_simps read_be_uint32_def Let_def fails_proper)

lemma buf_take_proper [fails_proper]: "buf_take n buf \<noteq> Fail GGL_ERR_OK"
  by (auto simp: buf_take_def res_simps)

lemma read_buf_raw_proper [fails_proper]: "read_buf_raw a c buf \<noteq> Fail GGL_ERR_OK"
  by (auto simp: read_buf_raw_def read_u32_def bump_write_def res_simps fails_proper
      split: option.splits if_splits)

lemma read_items_proper [fails_proper]: "read_items a ls sz n l \<noteq> Fail GGL_ERR_OK"
  by (auto simp: read_items_def push_parse_state_def ggl_alloc_def res_simps split: option.splits if_splits)

lemma read_obj_proper [fails_proper]: "read_obj a c ls buf \<noteq> Fail GGL_ERR_OK"
  by (simp add: read_obj_defs read_list_def read_map_def read_u32_def Let_def res_simps split_def fails_proper)

lemma deserialize_item_proper [fails_proper]: "deserialize_item a c l ls buf \<noteq> Fail GGL_ERR_OK"
  by (cases l) (auto simp: deserialize_item_def res_simps fails_proper)

lemma deserialize_loop_proper [fails_proper]: "deserialize_loop a c ls buf \<noteq> Fail GGL_ERR_OK"
proof (induction a c ls buf rule: deserialize_loop.induct)
  case (1 a c ls buf)
  show ?case
  proof (cases ls)
    case Nil
    then show ?thesis by (simp add: deserialize_loop.simps)
  next
    case (Cons l below)
    with 1 show ?thesis
      by (subst deserialize_loop.simps) (auto simp: res_simps fails_proper split: list.splits)
  qed
qed

lemma ggl_deserialize_proper [fails_proper]: "ggl_deserialize a c buf \<noteq> Fail GGL_ERR_OK"
  by (auto simp: ggl_deserialize_def res_simps fails_proper split: ReadLevel.splits list.splits)

text \<open>What the operating system promises: a read returns no more than was asked for.\<close>

definition ops_ok :: "'w socket_ops \<Rightarrow> bool" where
  "ops_ok ops \<longleftrightarrow>
     (\<forall>fd n w. case fst (sock_read ops fd n w) of Ret bs \<Rightarrow> length bs \<le> n | Fail e \<Rightarrow> True | Abort \<Rightarrow> False) \<and>
     (\<forall>fd buf w. fst (sock_write ops fd buf w) \<noteq> Abort)"

text \<open>What the interface demands of a handler: called for a request of its kind, it either succeeds after
  it has responded or accepted, which ends the request, or returns an error without having done so.\<close>

definition request_is :: "'w bus_server \<Rightarrow> u32 \<Rightarrow> (GglCoreBusRequestType \<Rightarrow> bool) \<Rightarrow> bool" where
  "request_is s h P \<longleftrightarrow> (\<forall>i. validate_handle (srv_pool s) h = Ret i \<longrightarrow> P (client_request_types s ! i))"

definition handler_contract :: "'w GglRpcMethodDesc \<Rightarrow> bool" where
  "handler_contract d \<longleftrightarrow> (\<forall>params h s r s'. server_inv s \<longrightarrow> current_handle s = h \<longrightarrow>
     request_is s h (\<lambda>t. is_subscription d \<longleftrightarrow> t = GGL_CORE_BUS_SUBSCRIBE) \<longrightarrow>
     desc_handler d params h s = (r, s') \<longrightarrow> server_inv s' \<and>
     (case r of Ret _ \<Rightarrow> current_handle s' = 0
      | Fail e \<Rightarrow> e \<noteq> GGL_ERR_OK \<and> current_handle s' = h
      | Abort \<Rightarrow> False))"

lemma server_read_total:
  assumes "ops_ok ops" "server_read ops h n s = (r, s')"
  shows "r \<noteq> Abort \<and> (\<forall>bs. r = Ret bs \<longrightarrow> length bs = n)"
proof (cases "n = 0")
  case True
  with assms(2) show ?thesis by (auto simp: server_read_def handle_read_def on_world_def)
next
  case False
  show ?thesis
  proof (cases "validate_handle (srv_pool s) h")
    case (Ret i)
    obtain r1 w where rd: "sock_read ops (fds (srv_pool s) ! i) n (srv_world s) = (r1, w)" by fastforce
    have "case r1 of Ret bs \<Rightarrow> length bs \<le> n | Fail e \<Rightarrow> True | Abort \<Rightarrow> False"
      using assms(1) rd unfolding ops_ok_def by (metis fst_conv)
    with False Ret rd assms(2) show ?thesis
      by (cases r1) (auto simp: server_read_def handle_read_def on_world_def res_assert_def split: if_splits)
  next
    case (Fail e)
    with False assms(2) show ?thesis by (auto simp: server_read_def handle_read_def on_world_def)
  qed (simp add: validate_not_Abort)
qed

lemma server_write_total:
  assumes "ops_ok ops"
  shows "fst (server_write ops h buf s) \<noteq> Abort"
proof (cases "validate_handle (srv_pool s) h")
  case (Ret i)
  have "fst (sock_write ops (fds (srv_pool s) ! i) buf (srv_world s)) \<noteq> Abort"
    using assms by (simp add: ops_ok_def)
  with Ret show ?thesis
    by (auto simp: server_write_def handle_write_def on_world_def split: prod.splits)
next
  case (Fail e)
  then show ?thesis by (simp add: server_write_def handle_write_def on_world_def)
qed (simp add: validate_not_Abort)

lemma send_err_response_total:
  assumes "ops_ok ops" "server_inv s" "e \<noteq> GGL_ERR_OK"
  shows "fst (send_err_response ops h e s) \<noteq> Abort"
proof -
  obtain r1 s1 where w: "server_write ops h (packet (headers_bytes (error_response e)) []) s = (r1, s1)"
    by fastforce
  with server_write_total [OF assms(1)] have "r1 \<noteq> Abort" by (metis fst_conv)
  moreover obtain r2 s2 where c: "server_close ops h s1 = (r2, s2)" by fastforce
  moreover have "r2 \<noteq> Abort"
    using server_close_inv [OF _ c] server_write_inv [OF w] assms(2) by blast
  ultimately show ?thesis
    using w by (cases r1; cases r2; simp add: send_err_response_eq [OF assms(3)] io_ignore_def)
qed

lemma run_handler_total:
  assumes "ops_ok ops" "server_inv s" "handler_contract d"
    and "request_is s h (\<lambda>t. is_subscription d \<longleftrightarrow> t = GGL_CORE_BUS_SUBSCRIBE)"
  shows "fst (run_handler ops d params h s) \<noteq> Abort"
proof -
  let ?s = "set_current_handle h s"
  obtain r1 s1 where h: "desc_handler d params h ?s = (r1, s1)" by fastforce
  have "server_inv ?s" "current_handle ?s = h"
    "request_is ?s h (\<lambda>t. is_subscription d \<longleftrightarrow> t = GGL_CORE_BUS_SUBSCRIBE)"
    using assms(2,4) by (simp_all add: server_inv_def set_current_handle_def request_is_def)
  with assms(3) h have c: "server_inv s1" "case r1 of Ret _ \<Rightarrow> current_handle s1 = 0
      | Fail e \<Rightarrow> e \<noteq> GGL_ERR_OK \<and> current_handle s1 = h | Abort \<Rightarrow> False"
    unfolding handler_contract_def by blast+
  show ?thesis
  proof (cases r1)
    case (Fail e)
    obtain r2 s2 where se: "send_err_response ops h e s1 = (r2, s2)" by fastforce
    with send_err_response_total [OF assms(1) c(1), of e h] c(2) Fail have "r2 \<noteq> Abort" by simp
    with se c Fail h show ?thesis by (cases r2) (simp_all add: run_handler_def res_assert_def)
  qed (use c h in \<open>simp_all add: run_handler_def res_assert_def\<close>)
qed

lemma dispatch_total:
  assumes "ops_ok ops" "server_inv s" "\<And>d. d \<in> set ds \<Longrightarrow> handler_contract d"
    and "request_is s h (\<lambda>t. t = type)"
  shows "fst (dispatch ops ds method type params h s) \<noteq> Abort"
  using assms(3)
proof (induction ds)
  case Nil
  then show ?case by (simp add: send_err_response_total [OF assms(1,2)])
next
  case (Cons d ds)
  have "fst (run_handler ops d params h s) \<noteq> Abort"
    if "is_subscription d \<longleftrightarrow> type = GGL_CORE_BUS_SUBSCRIBE"
    using that assms(4) Cons.prems by (intro run_handler_total [OF assms(1,2)]) (auto simp: request_is_def)
  with Cons show ?case by (simp add: send_err_response_total [OF assms(1,2)])
qed

lemma request_params_total: "request_params p \<noteq> Abort" "request_params p \<noteq> Fail GGL_ERR_OK"
proof -
  have "(case obj of OBJ_MAP params \<Rightarrow> Ret params | _ \<Rightarrow> Fail GGL_ERR_INVALID) \<noteq> r"
    if "r = Abort \<or> r = Fail GGL_ERR_OK" for obj r using that by (cases obj) auto
  then show "request_params p \<noteq> Abort" "request_params p \<noteq> Fail GGL_ERR_OK"
    using ggl_deserialize_not_Abort [of False _ p] by (auto simp: request_params_def res_simps fails_proper)
qed

lemma fold_request_header_proper: "fold_headers request_header hs a \<noteq> Inl GGL_ERR_OK"
  by (induction hs arbitrary: a) (auto simp: request_header_def split: sum.splits if_splits
      EventStreamHeaderValue.splits option.splits)

lemma parse_request_total:
  assumes "length buf = 12" "eventstream_decode_prelude buf = Ret pre" "length data = unat (data_len pre)"
  shows "parse_request pre data \<noteq> Abort \<and> parse_request pre data \<noteq> Fail GGL_ERR_OK"
proof (cases "eventstream_decode pre data")
  case (Ret msg)
  with eventstream_decode_not_Abort [OF assms] obtain hs where "header_loop data (msg_headers msg) = Ret hs"
    by (auto elim: is_Ret.elims)
  with Ret request_params_total fold_request_header_proper show ?thesis
    by (auto simp: parse_request_def header_fold_list res_simps split: sum.splits option.splits prod.splits)
next
  case (Fail e)
  with fails_proper show ?thesis by (auto simp: parse_request_def)
next
  case Abort
  with eventstream_decode_not_Abort [OF assms] show ?thesis by simp
qed

lemma or_respond_total:
  assumes "ops_ok ops" "server_inv s" "r \<noteq> Abort" "r \<noteq> Fail GGL_ERR_OK"
    and "\<And>x. r = Ret x \<Longrightarrow> fst (f x s) \<noteq> Abort"
  shows "fst (or_respond ops h r f s) \<noteq> Abort"
  using assms send_err_response_total [OF assms(1,2)] by (cases r) (auto simp: or_respond_def)

lemma io_bind_total:
  assumes "fst (m s) \<noteq> Abort" "\<And>x s'. m s = (Ret x, s') \<Longrightarrow> fst (f x s') \<noteq> Abort"
  shows "fst (io_bind m f s) \<noteq> Abort"
proof -
  obtain r s' where "m s = (r, s')" by fastforce
  with assms show ?thesis by (cases r) auto
qed

lemma req_total:
  assumes "ops_ok ops" "server_inv s" "\<And>d. d \<in> set handlers \<Longrightarrow> handler_contract d"
    and "req \<noteq> Abort" "req \<noteq> Fail GGL_ERR_OK"
  shows "fst (or_respond ops h req (\<lambda>(method, type, params).
     io_bind (server_protected (set_request_type type) h) (\<lambda>_.
     dispatch ops handlers method type params h)) s) \<noteq> Abort"
proof (rule or_respond_total [OF assms(1,2,4,5)])
  fix x :: "buffer \<times> GglCoreBusRequestType \<times> GglMap"
  obtain mth type params where x: "x = (mth, type, params)" by (cases x)
  have "fst (io_bind (server_protected (set_request_type type) h) (\<lambda>_.
      dispatch ops handlers mth type params h) s) \<noteq> Abort"
  proof (rule io_bind_total)
    show "fst (server_protected (set_request_type type) h s) \<noteq> Abort"
      using server_protected_inv [OF _ assms(2)] by (metis prod.collapse)
    fix u s' assume p: "server_protected (set_request_type type) h s = (Ret u, s')"
    from p obtain j where v: "validate_handle (srv_pool s) h = Ret j" and s': "s' = set_request_type type j s"
      by (auto simp: server_protected_def ggl_socket_handle_protected_def split: res.splits)
    have "j < length (client_request_types s)"
      using v assms(2) by (simp add: validate_Ret server_inv_def)
    with v s' have "request_is s' h (\<lambda>t. t = type)"
      by (simp add: request_is_def set_request_type_def)
    with server_protected_inv [OF p assms(2)] assms(3)
    show "fst (dispatch ops handlers mth type params h s') \<noteq> Abort"
      by (intro dispatch_total [OF assms(1)]) auto
  qed
  then show "fst ((case x of (method, type, params) \<Rightarrow>
      io_bind (server_protected (set_request_type type) h) (\<lambda>_.
      dispatch ops handlers method type params h)) s) \<noteq> Abort" by (simp add: x)
qed

lemma decode_prelude_not_Abort: "length buf = 12 \<Longrightarrow> eventstream_decode_prelude buf \<noteq> Abort"
  by (auto simp: eventstream_decode_prelude_def res_simps read_be_uint32_def Let_def
      ggl_buffer_substr_take_drop fits_def PTRDIFF_MAX_def)

lemma client_ready_total:
  assumes "ops_ok ops" "server_inv s" "\<And>d. d \<in> set handlers \<Longrightarrow> handler_contract d"
  shows "fst (client_ready ops handlers h s) \<noteq> Abort"
  unfolding client_ready_def
proof (rule io_bind_total)
  show "fst (server_read ops h 12 s) \<noteq> Abort"
    using server_read_total [OF assms(1)] by (metis prod.collapse)
  fix buf s1 assume rd: "server_read ops h 12 s = (Ret buf, s1)"
  have s1: "server_inv s1" and len: "length buf = 12"
    using server_read_inv [OF rd] server_read_total [OF assms(1) rd] assms(2) by auto
  show "fst (or_respond ops h (eventstream_decode_prelude buf) (\<lambda>prelude.
     or_respond ops h
       (res_guard (\<not> unat (data_len prelude) > GGL_COREBUS_MAX_MSG_LEN) GGL_ERR_NOMEM) (\<lambda>_.
     io_bind (server_read ops h (unat (data_len prelude))) (\<lambda>data_section.
     or_respond ops h (parse_request prelude data_section) (\<lambda>(method, type, params).
     io_bind (server_protected (set_request_type type) h) (\<lambda>_.
     dispatch ops handlers method type params h))))) s1) \<noteq> Abort"
  proof (intro or_respond_total [OF assms(1) s1] io_bind_total)
    fix pre :: EventStreamPrelude
    show "fst (server_read ops h (unat (data_len pre)) s1) \<noteq> Abort"
      using server_read_total [OF assms(1)] by (metis prod.collapse)
    fix data s2
    assume dec: "eventstream_decode_prelude buf = Ret pre"
      and rd2: "server_read ops h (unat (data_len pre)) s1 = (Ret data, s2)"
    have s2: "server_inv s2" and len2: "length data = unat (data_len pre)"
      using server_read_inv [OF rd2] server_read_total [OF assms(1) rd2] s1 by auto
    show "fst (or_respond ops h (parse_request pre data) (\<lambda>(method, type, params).
       io_bind (server_protected (set_request_type type) h) (\<lambda>_.
       dispatch ops handlers method type params h)) s2) \<noteq> Abort"
      using parse_request_total [OF len dec len2] by (intro req_total [OF assms(1) s2 assms(3)]) simp_all
  qed (auto simp: res_simps fails_proper decode_prelude_not_Abort len)
qed

lemma client_data_ready_total:
  assumes "ops_ok ops" "server_inv s" "\<forall>d \<in> set handlers. handler_contract d"
  shows "fst (client_data_ready ops (client_ready ops handlers) h s) \<noteq> Abort"
proof -
  obtain r s' where r: "client_ready ops handlers h s = (r, s')" by fastforce
  have nr: "r \<noteq> Abort" using client_ready_total [OF assms(1,2), of handlers h] assms(3) r by simp
  show ?thesis
  proof (cases r)
    case (Fail e)
    obtain r2 s2 where c: "server_close ops h s' = (r2, s2)" by fastforce
    have "r2 \<noteq> Abort"
      using c validate_not_Abort [of "srv_pool s'" h]
      by (auto simp: server_close_def ggl_socket_pool_release_def run_callback_def close_subscription_def
          Let_def split: res.splits option.splits prod.splits)
    with c r Fail show ?thesis by (cases r2) (simp_all add: client_data_ready_def io_ignore_def)
  qed (use r nr in \<open>simp_all add: client_data_ready_def\<close>)
qed

text \<open>On any bytes from any client the server handles the request without a failed assertion and
  without an access outside its buffers, if the handlers keep to their contract.\<close>

theorem client_data_ready_safe:
  assumes "ops_ok ops" "server_inv s" "\<forall>d \<in> set handlers. handler_contract d"
  shows "fst (client_data_ready ops (client_ready ops handlers) h s) \<noteq> Abort"
  using assms by (rule client_data_ready_total)

section \<open>Responding and accepting keep the contract\<close>

lemma server_close_total: "server_close ops h s \<noteq> (Abort, s')"
  using validate_not_Abort [of "srv_pool s" h]
  by (auto simp: server_close_def ggl_socket_pool_release_def run_callback_def close_subscription_def
      Let_def split: res.splits option.splits prod.splits)

text \<open>What stays when a routine runs: it does not abort, and keeps the invariant and the current request.\<close>

definition steady :: "('w bus_server, 'a) io \<Rightarrow> bool" where
  "steady m \<longleftrightarrow> (\<forall>s r s'. server_inv s \<longrightarrow> m s = (r, s') \<longrightarrow>
     r \<noteq> Abort \<and> server_inv s' \<and> current_handle s' = current_handle s)"

lemma steady_write [intro]: "ops_ok ops \<Longrightarrow> steady (server_write ops h buf)"
  using server_write_total server_write_inv unfolding steady_def by (metis fst_conv)

lemma steady_close [intro]: "steady (server_close ops h)"
  using server_close_inv unfolding steady_def by blast

lemma steady_res [intro]: "r \<noteq> Abort \<Longrightarrow> steady (io_res r)"
  by (simp add: steady_def)

lemma steadyD:
  "steady m \<Longrightarrow> server_inv s \<Longrightarrow> m s = (r, s') \<Longrightarrow>
    r \<noteq> Abort \<and> server_inv s' \<and> current_handle s' = current_handle s"
  unfolding steady_def by blast

lemma steadyI:
  assumes "\<And>s r s'. server_inv s \<Longrightarrow> m s = (r, s') \<Longrightarrow>
    r \<noteq> Abort \<and> server_inv s' \<and> current_handle s' = current_handle s"
  shows "steady m"
  unfolding steady_def using assms by blast

lemma steady_ignore [intro]:
  assumes "steady m"
  shows "steady (io_ignore m)"
proof (rule steadyI)
  fix s r s' assume s: "server_inv s" "io_ignore m s = (r, s')"
  obtain r1 s1 where "m s = (r1, s1)" by fastforce
  with steadyD [OF assms s(1) this] s(2) show "r \<noteq> Abort \<and> server_inv s' \<and> current_handle s' = current_handle s"
    by (cases r1) (auto simp: io_ignore_def)
qed

lemma steady_cleanup [intro]: "steady (cleanup_socket_handle ops h)"
  by (auto simp: cleanup_socket_handle_def)

lemma steady_bind [intro]:
  assumes "steady m" "\<And>x. steady (f x)"
  shows "steady (io_bind m f)"
proof (rule steadyI)
  fix s r s' assume s: "server_inv s" "io_bind m f s = (r, s')"
  obtain r1 s1 where m: "m s = (r1, s1)" by fastforce
  note s1 = steadyD [OF assms(1) s(1) m]
  show "r \<noteq> Abort \<and> server_inv s' \<and> current_handle s' = current_handle s"
  proof (cases r1)
    case (Ret x)
    with m s(2) have "f x s1 = (r, s')" by simp
    from steadyD [OF assms(2) _ this] s1 show ?thesis by simp
  qed (use m s s1 in auto)
qed

lemma steady_finally [intro]:
  assumes "steady m" "steady c"
  shows "steady (io_finally m c)"
proof (rule steadyI)
  fix s r s' assume s: "server_inv s" "io_finally m c s = (r, s')"
  obtain r1 s1 where m: "m s = (r1, s1)" by fastforce
  obtain r2 s2 where c: "c s1 = (r2, s2)" by fastforce
  note s1 = steadyD [OF assms(1) s(1) m]
  with steadyD [OF assms(2) _ c] s m c show "r \<noteq> Abort \<and> server_inv s' \<and> current_handle s' = current_handle s"
    by (cases r1; cases r2) (auto simp: io_finally_def)
qed

lemma steady_on_error [intro]:
  assumes "steady m" "steady c"
  shows "steady (io_on_error m c)"
proof (rule steadyI)
  fix s r s' assume s: "server_inv s" "io_on_error m c s = (r, s')"
  obtain r1 s1 where m: "m s = (r1, s1)" by fastforce
  obtain r2 s2 where c: "c s1 = (r2, s2)" by fastforce
  note s1 = steadyD [OF assms(1) s(1) m]
  with steadyD [OF assms(2) _ c] s m c show "r \<noteq> Abort \<and> server_inv s' \<and> current_handle s' = current_handle s"
    by (cases r1; cases r2) (auto simp: io_on_error_def)
qed

lemma write_obj_not_Abort: "write_obj m ls x \<noteq> Abort"
  by (cases x) (auto simp: write_obj_defs write_list_def write_map_def write_buf_def push_parse_state_def
      bump_write_not_Abort res_simps split: if_splits)

lemma serialize_step_not_Abort: "serialize_step m ls \<noteq> Abort"
  by (auto simp: serialize_step_def res_simps write_obj_not_Abort write_buf_def bump_write_not_Abort
      split: list.splits NestingLevel.splits)

lemma serialize_loop_not_Abort: "serialize_loop m ls \<noteq> Abort"
proof (induction m ls rule: serialize_loop.induct)
  case (1 m ls)
  then show ?case
    by (subst serialize_loop.simps) (auto simp: res_simps serialize_step_not_Abort)
qed

lemma response_encode_not_Abort:
  "eventstream_encode payload_array None (ggl_serialize_reader val) \<noteq> Abort"
proof -
  have "ggl_serialize val (replicate n 0) \<noteq> Abort" for n
    by (auto simp: ggl_serialize_def res_simps serialize_loop_not_Abort)
  moreover have "length bs \<le> n" if "ggl_serialize val (replicate n 0) = Ret bs" "n \<le> 10000" for n bs
    using that by (simp add: ggl_serialize_Ret fits_def PTRDIFF_MAX_def)
  ultimately have "ggl_reader_call (ggl_serialize_reader val) n \<noteq> Abort" if "n \<le> 10000" for n
    using that by (auto simp: ggl_reader_call_def ggl_serialize_reader_def res_simps)
  then show ?thesis
    by (auto simp: eventstream_encode_def eventstream_finish_def Let_def res_simps payload_array_def
        GGL_COREBUS_MAX_MSG_LEN_def UINT32_MAX_def)
qed

definition accepted_response :: "EventStreamHeader list" where
  "accepted_response = [\<lparr>header_name = GGL_STR ''accepted'', header_value = EVENTSTREAM_INT32 1\<rparr>]"

lemma accepted_encode:
  "eventstream_encode payload_array (Some accepted_response) None =
    Ret (packet (headers_bytes accepted_response) [])"
  by (simp add: bus_encode_empty given_headers_def bus_message_def accepted_response_def header_ok_def
      header_bytes_def GGL_STR_def GGL_COREBUS_MAX_MSG_LEN_def)

lemma finally_clears:
  assumes "steady m" "server_inv s" "current_handle s = h"
    and "io_ignore (io_finally m (io_do (cleanup_current_handle h))) s = (r, s')"
  shows "r = Ret () \<and> server_inv s' \<and> current_handle s' = 0"
proof -
  obtain r1 s1 where m: "m s = (r1, s1)" by fastforce
  from steadyD [OF assms(1,2) m] assms(3,4) m show ?thesis
    by (cases r1) (auto simp: io_ignore_def io_finally_def cleanup_current_handle_def clear_current_handle_def
        server_inv_def)
qed

lemma get_request_type_not_Abort: "get_request_type s h \<noteq> Abort"
  by (simp add: get_request_type_def res_simps validate_not_Abort)

lemma ggl_respond_ends:
  assumes "ops_ok ops" "server_inv s" "current_handle s = h"
    and "request_is s h (\<lambda>t. t \<noteq> GGL_CORE_BUS_SUBSCRIBE)" "ggl_respond ops h val s = (r, s')"
  shows "r = Ret () \<and> server_inv s' \<and> current_handle s' = 0"
proof -
  let ?body = "\<lambda>type. io_finally
      (if type = GGL_CORE_BUS_NOTIFY then io_res (Ret ())
       else
         io_bind (io_res (res_assert (type = GGL_CORE_BUS_CALL))) (\<lambda>_.
         io_bind (io_res (eventstream_encode payload_array None (ggl_serialize_reader val)))
           (server_write ops h)))
      (cleanup_socket_handle ops h)"
  have "steady (?body type)" if "type \<noteq> GGL_CORE_BUS_SUBSCRIBE" for type
    using that assms(1) response_encode_not_Abort [of val] by (cases type) (auto simp: res_assert_def)
  moreover have "type \<noteq> GGL_CORE_BUS_SUBSCRIBE" if "get_request_type s h = Ret type" for type
    using that assms(4) by (auto simp: get_request_type_def request_is_def res_simps)
  ultimately have "steady (io_bind (io_res (get_request_type s h)) ?body)"
    using get_request_type_not_Abort [of s h] by (cases "get_request_type s h") (auto simp: steady_res)
  from finally_clears [OF this assms(2,3)] assms(3,5) show ?thesis
    by (simp add: ggl_respond_def res_assert_def)
qed

lemma steady_on_world: "(\<And>w. fst (m w) \<noteq> Abort) \<Longrightarrow> steady (on_world m)"
  by (rule steadyI) (auto simp: on_world_def server_inv_def split: prod.splits, metis fst_conv)

lemma steady_protected:
  assumes "\<And>i s. server_inv s \<Longrightarrow> server_inv (f i s) \<and> current_handle (f i s) = current_handle s"
  shows "steady (server_protected f h)"
proof (rule steadyI)
  fix s :: "'a bus_server" and r s'
  assume "server_inv s" "server_protected f h s = (r, s')"
  with assms validate_not_Abort [of "srv_pool s" h]
  show "r \<noteq> Abort \<and> server_inv s' \<and> current_handle s' = current_handle s"
    by (cases "validate_handle (srv_pool s) h")
      (auto simp: server_protected_def ggl_socket_handle_protected_def)
qed

lemma ggl_sub_accept_ends:
  assumes "ops_ok ops" "server_inv s" "current_handle s = h" "ggl_sub_accept ops h on_close s = (r, s')"
  shows "r = Ret () \<and> server_inv s' \<and> current_handle s' = 0"
proof -
  have "steady (server_protected (set_subscription_cleanup fn) h)" for fn
    by (rule steady_protected) (simp add: set_subscription_cleanup_def server_inv_def)
  then have "steady (case on_close of
             None \<Rightarrow> io_res (Ret ())
           | Some fn \<Rightarrow>
               io_on_error (server_protected (set_subscription_cleanup fn) h)
                 (on_world (io_do (fn h))))"
    by (cases on_close) (auto intro!: steady_on_world steady_on_error)
  then have "steady (io_bind (case on_close of
             None \<Rightarrow> io_res (Ret ())
           | Some fn \<Rightarrow>
               io_on_error (server_protected (set_subscription_cleanup fn) h)
                 (on_world (io_do (fn h)))) (\<lambda>_.
        io_on_error
          (io_bind (io_res (eventstream_encode payload_array (Some accepted_response) None))
             (server_write ops h))
          (cleanup_socket_handle ops h)))"
    using assms(1) by (auto simp: accepted_encode)
  from finally_clears [OF this assms(2,3)] assms(3,4) show ?thesis
    by (simp add: ggl_sub_accept_def res_assert_def accepted_response_def)
qed

lemma respond_accept_contract:
  assumes "ops_ok ops"
  shows "handler_contract \<lparr>desc_name = name, is_subscription = False,
      desc_handler = (\<lambda>params h. ggl_respond ops h (respond params))\<rparr> \<and>
    handler_contract \<lparr>desc_name = name, is_subscription = True,
      desc_handler = (\<lambda>params h. ggl_sub_accept ops h (on_close params))\<rparr>"
  unfolding handler_contract_def
proof (intro conjI allI impI)
  fix params h r and s s' :: "'a bus_server"
  assume s: "server_inv s" "current_handle s = h"
  {
    assume k: "request_is s h (\<lambda>t. is_subscription \<lparr>desc_name = name, is_subscription = False,
        desc_handler = \<lambda>params h. ggl_respond ops h (respond params)\<rparr> = (t = GGL_CORE_BUS_SUBSCRIBE))"
      and r: "desc_handler \<lparr>desc_name = name, is_subscription = False,
        desc_handler = \<lambda>params h. ggl_respond ops h (respond params)\<rparr> params h s = (r, s')"
    from ggl_respond_ends [OF assms s] k r have "r = Ret () \<and> server_inv s' \<and> current_handle s' = 0" by simp
    then show "server_inv s'"
      "case r of Ret _ \<Rightarrow> current_handle s' = 0
       | Fail e \<Rightarrow> e \<noteq> GGL_ERR_OK \<and> current_handle s' = h | Abort \<Rightarrow> False" by simp_all
  next
    assume "desc_handler \<lparr>desc_name = name, is_subscription = True,
        desc_handler = \<lambda>params h. ggl_sub_accept ops h (on_close params)\<rparr> params h s = (r, s')"
    with ggl_sub_accept_ends [OF assms s] have "r = Ret () \<and> server_inv s' \<and> current_handle s' = 0" by simp
    then show "server_inv s'"
      "case r of Ret _ \<Rightarrow> current_handle s' = 0
       | Fail e \<Rightarrow> e \<noteq> GGL_ERR_OK \<and> current_handle s' = h | Abort \<Rightarrow> False" by simp_all
  }
qed

text \<open>C9: a handler that answers a call or a notification with \<^verbatim>\<open>ggl_respond\<close>, and one that answers a
  subscription with \<^verbatim>\<open>ggl_sub_accept\<close>, keep the contract of a handler, whatever happens to the
  connection while they do.\<close>

theorem responding_keeps_contract:
  assumes "ops_ok ops"
  shows "handler_contract \<lparr>desc_name = name, is_subscription = False,
      desc_handler = (\<lambda>params h. ggl_respond ops h (respond params))\<rparr> \<and>
    handler_contract \<lparr>desc_name = name, is_subscription = True,
      desc_handler = (\<lambda>params h. ggl_sub_accept ops h (on_close params))\<rparr>"
  using assms by (rule respond_accept_contract)

lemma stream_ops_ok: "ops_ok stream_ops"
  by (simp add: ops_ok_def stream_ops_def)

lemma example_server_inv: "server_inv (example_server input)" "current_handle (example_server input) = 0"
  by (simp_all add: server_inv_def example_server_def pool_inv_def example_pool_def)

theorem responding_keeps_contract_witness:
  "handler_contract \<lparr>desc_name = GGL_STR ''read'', is_subscription = False,
     desc_handler = (\<lambda>params h. ggl_respond stream_ops h (OBJ_MAP params))\<rparr>"
  using responding_keeps_contract [OF stream_ops_ok] by blast

lemma echo_contract: "handler_contract example_desc"
  unfolding example_desc_def using respond_accept_contract [OF stream_ops_ok] by blast

theorem client_data_ready_safe_witness:
  "fst (client_data_ready stream_ops (client_ready stream_ops [example_desc]) 1 (example_server [1, 2, 3]))
    \<noteq> Abort"
  using client_data_ready_safe [OF stream_ops_ok example_server_inv(1), of "[example_desc]" 1 "[1, 2, 3]"]
    echo_contract by simp

definition busy_desc :: "stream_world GglRpcMethodDesc" where
  "busy_desc = \<lparr>desc_name = GGL_STR ''read'', is_subscription = False,
     desc_handler = (\<lambda>params handle. io_res (Fail GGL_ERR_BUSY))\<rparr>"

theorem client_served_or_closed_witness:
  "\<exists>r s'. client_data_ready stream_ops (client_ready stream_ops [busy_desc]) 1 (example_server [1, 2, 3]) = (r, s')
    \<and> server_inv s' \<and> current_handle s' = 0 \<and> validate_handle (srv_pool s') 1 \<noteq> Ret 0"
proof -
  obtain r s' where run: "client_data_ready stream_ops (client_ready stream_ops [busy_desc]) 1
      (example_server [1, 2, 3]) = (r, s')" by fastforce
  have "handler_contract busy_desc" "handler_keeps_inv busy_desc" "\<not> served [busy_desc] 1 s'"
    by (simp_all add: handler_contract_def handler_keeps_inv_def busy_desc_def served_def)
  moreover from this have "\<forall>d \<in> set [busy_desc]. handler_contract d" by simp
  then have "r \<noteq> Abort"
    using client_data_ready_total [OF stream_ops_ok example_server_inv(1), of "[busy_desc]" 1 "[1, 2, 3]"] run
    by simp
  ultimately show ?thesis
    using client_served_or_closed [OF example_server_inv _ run] run by auto
qed

section \<open>The event loop\<close>

lemma register_reset:
  assumes "register_from (Some reset_client_state) i pool s fd = (r, pool', s')"
  shows "length (client_request_types s') = length (client_request_types s) \<and>
    length (subscription_cleanup s') = length (subscription_cleanup s) \<and> current_handle s' = current_handle s \<and>
    srv_world s' = srv_world s"
  using assms
proof (induction "unat (max_fds pool) - i" arbitrary: i)
  case 0
  then show ?case by (auto simp: register_from_unfold(3))
next
  case (Suc n)
  then have i: "i < unat (max_fds pool)" by simp
  show ?case
  proof (cases "fds pool ! i = FD_FREE")
    case True
    with Suc.prems i show ?thesis
      by (auto simp: register_from_unfold(2) run_callback_def reset_client_state_def)
  next
    case False
    then have "register_from (Some reset_client_state) (Suc i) pool s fd = (r, pool', s')"
      using Suc.prems i by (simp add: register_from_unfold(1))
    moreover have "n = unat (max_fds pool) - Suc i" using Suc.hyps(2) by simp
    ultimately show ?thesis using Suc.hyps(1) by blast
  qed
qed

lemma steady_register [intro]: "steady (server_register fd)"
proof (rule steadyI)
  fix s :: "'w bus_server" and r s'
  assume s: "server_inv s" "server_register fd s = (r, s')"
  obtain pool s1 where reg: "ggl_socket_pool_register (Some reset_client_state) (srv_pool s) s fd = (r, pool, s1)"
    and s': "s' = s1\<lparr>srv_pool := pool\<rparr>"
    using s(2) by (auto simp: server_register_def split: prod.splits)
  show "r \<noteq> Abort \<and> server_inv s' \<and> current_handle s' = current_handle s"
  proof (cases "fd < 0")
    case True
    with reg s s' show ?thesis by (auto simp: ggl_socket_pool_register_def server_inv_def)
  next
    case False
    with reg have from0: "register_from (Some reset_client_state) 0 (srv_pool s) s fd = (r, pool, s1)"
      by (simp add: ggl_socket_pool_register_def)
    have "r \<noteq> Abort \<and> pool_inv pool \<and> max_fds pool = max_fds (srv_pool s)"
    proof (cases r)
      case (Ret h)
      with register_from_Ret [OF from0 [unfolded Ret]] False s(1) show ?thesis by (simp add: server_inv_def)
    qed (use register_from_Fail [OF from0] s(1) in \<open>auto simp: server_inv_def\<close>)
    with register_reset [OF from0] s(1) s' show ?thesis by (simp add: server_inv_def)
  qed
qed

definition sys_ok :: "'w listen_ops \<Rightarrow> bool" where
  "sys_ok sys \<longleftrightarrow> (\<forall>w. fst (sys_accept sys w) \<noteq> Abort) \<and> (\<forall>fd w. fst (sys_set_timeouts sys fd w) \<noteq> Abort) \<and>
     (\<forall>fd h w. fst (sys_epoll_add sys fd h w) \<noteq> Abort)"

lemma steady_new_client:
  assumes "sys_ok sys"
  shows "steady (new_client_available ops sys)"
proof -
  have "steady (on_world (sys_accept sys))" "\<And>fd. steady (on_world (sys_set_timeouts sys fd))"
    "\<And>fd h. steady (on_world (sys_epoll_add sys fd h))" "\<And>fd. steady (on_world (io_do (sock_close ops fd)))"
    using assms by (auto simp: sys_ok_def intro!: steady_on_world)
  then show ?thesis unfolding new_client_available_def by blast
qed

text \<open>A server between two requests.\<close>

definition idle :: "'w bus_server \<Rightarrow> bool" where
  "idle s \<longleftrightarrow> server_inv s \<and> current_handle s = 0"

lemma fd_ready_idle:
  assumes "ops_ok ops" "sys_ok sys" "\<And>d. d \<in> set handlers \<Longrightarrow> handler_contract d \<and> handler_keeps_inv d"
    and "idle s" "epoll_fd_ready ops sys ext (client_ready ops handlers) data s = (r, s')"
  shows "r \<noteq> Abort \<and> idle s'"
proof -
  consider "data = SERVER_FD_DATA" | f where "data \<noteq> SERVER_FD_DATA" "ext = Some f" "data = EXT_FD_DATA"
    | "data \<noteq> SERVER_FD_DATA" "\<not> (ext \<noteq> None \<and> data = EXT_FD_DATA)" "data \<le> 0xFFFFFFFF"
    | "data \<noteq> SERVER_FD_DATA" "\<not> (ext \<noteq> None \<and> data = EXT_FD_DATA)" "\<not> data \<le> 0xFFFFFFFF"
    by blast
  then show ?thesis
  proof cases
    case 1
    with steadyD [OF steady_new_client [OF assms(2)], of s ops r s'] assms(4,5) show ?thesis
      by (simp add: epoll_fd_ready_def idle_def)
  next
    case (2 f)
    then have "on_world (io_do f) s = (r, s')"
      using assms(5) unfolding epoll_fd_ready_def by simp
    moreover have "steady (on_world (io_do f))" by (rule steady_on_world) simp
    ultimately show ?thesis using assms(4) by (auto simp: idle_def dest: steadyD)
  next
    case 3
    then have run: "client_data_ready ops (client_ready ops handlers) (ucast data) s = (r, s')"
      using assms(5) unfolding epoll_fd_ready_def by (simp only: if_False if_True)
    have r: "r \<noteq> Abort"
      using client_data_ready_total [OF assms(1), of s handlers "ucast data"] assms(3,4) run
      by (simp add: idle_def)
    with served_or_closed [OF _ _ _ run] assms(3,4) show ?thesis by (auto simp: idle_def)
  next
    case 4
    then show ?thesis using assms(4,5) unfolding epoll_fd_ready_def by (simp only: if_False) auto
  qed
qed

lemma run_events_idle:
  assumes "\<And>d s r s'. idle s \<Longrightarrow> ready d s = (r, s') \<Longrightarrow> r \<noteq> Abort \<and> idle s'"
    and "idle s" "run_events ready ds s = (r, s')"
  shows "r \<noteq> Abort \<and> idle s'"
  using assms(2,3)
proof (induction ds arbitrary: s)
  case (Cons d ds)
  obtain r1 s1 where d: "ready d s = (r1, s1)" by fastforce
  with assms(1) Cons.prems(1) have "r1 \<noteq> Abort" "idle s1" by blast+
  with d Cons.prems Cons.IH [of s1] show ?case by (cases r1) auto
qed auto

text \<open>C4: a server that starts with the invariant keeps it through its event loop, whatever events occur
  in whatever order and whatever the clients send, with no request left open between two events; no
  assertion fails in it.\<close>

theorem server_run_invariant:
  assumes "ops_ok ops" "sys_ok sys" "\<forall>d \<in> set handlers. handler_contract d \<and> handler_keeps_inv d"
    and "idle s"
    and "ggl_socket_epoll_run (epoll_fd_ready ops sys ext (client_ready ops handlers)) events s = (r, s')"
  shows "r \<noteq> Some Abort \<and> idle s'"
  using assms(4,5)
proof (induction events arbitrary: s)
  case (Cons e events)
  show ?case
  proof (cases e)
    case (EPOLL_EVENTS ds)
    let ?ready = "epoll_fd_ready ops sys ext (client_ready ops handlers)"
    obtain r1 s1 where d: "run_events ?ready ds s = (r1, s1)" by fastforce
    have "r1 \<noteq> Abort" "idle s1"
      using run_events_idle [of ?ready, OF _ Cons.prems(1) d] fd_ready_idle [OF assms(1,2)] assms(3) by blast+
    with d EPOLL_EVENTS Cons show ?thesis by (cases r1) auto
  qed (use Cons in auto)
qed simp

theorem server_run_invariant_witness:
  "\<exists>r s'. ggl_socket_epoll_run (epoll_fd_ready stream_ops \<lparr>sys_accept = io_res (Ret 9),
      sys_set_timeouts = (\<lambda>_. io_res (Ret ())), sys_epoll_add = (\<lambda>_ _. io_res (Ret ()))\<rparr> None
      (client_ready stream_ops [busy_desc])) [EPOLL_INTERRUPTED, EPOLL_EVENTS [1, - 1]] (example_server [1, 2, 3])
      = (r, s') \<and> r \<noteq> Some Abort \<and> server_inv s'"
proof -
  let ?sys = "\<lparr>sys_accept = io_res (Ret 9), sys_set_timeouts = (\<lambda>_. io_res (Ret ())),
    sys_epoll_add = (\<lambda>_ _. io_res (Ret ()))\<rparr> :: stream_world listen_ops"
  have "sys_ok ?sys" "handler_contract busy_desc" "handler_keeps_inv busy_desc" "idle (example_server [1, 2, 3])"
    using example_server_inv by (simp_all add: sys_ok_def handler_contract_def handler_keeps_inv_def busy_desc_def
        idle_def)
  moreover obtain r s' where "ggl_socket_epoll_run (epoll_fd_ready stream_ops ?sys None
      (client_ready stream_ops [busy_desc])) [EPOLL_INTERRUPTED, EPOLL_EVENTS [1, - 1]] (example_server [1, 2, 3])
      = (r, s')" by fastforce
  ultimately show ?thesis
    using server_run_invariant [OF stream_ops_ok, of ?sys "[busy_desc]" "example_server [1, 2, 3]" None
        "[EPOLL_INTERRUPTED, EPOLL_EVENTS [1, - 1]]" r s'] unfolding idle_def by (metis empty_iff insert_iff list.set)
qed

end
