(* ===== verification/CoreBusSubscribe.thy ===== *)
theory CoreBusSubscribe
  imports CoreBusServer
begin

text \<open>
  The subscriptions of a core bus client, \<^verbatim>\<open>core-bus/src/client_subscribe.c\<close>: a subscription keeps the
  connection of its request in a socket pool, and what arrives on it is passed to the callbacks that
  were registered for its slot. Shows that an accepted subscription is established, that what the
  server responds on it is what the callback gets, and that a subscription with a failed response is
  closed.
\<close>

section \<open>The state of the subscriptions\<close>

text \<open>The context of the callbacks is their closure.\<close>

record 'w SubCallbacks =
  on_response :: "(u32 \<Rightarrow> GglObject \<Rightarrow> ('w, unit) io) option"
  on_close :: "(u32 \<Rightarrow> 'w \<Rightarrow> 'w) option"

definition no_callbacks :: "'w SubCallbacks" where
  "no_callbacks = \<lparr>on_response = None, on_close = None\<rparr>"

record 'w sub_client =
  sub_pool :: GglSocketPool
  sub_callbacks :: "'w SubCallbacks list"
  sub_epoll_fd :: int
  sub_world :: 'w

definition in_world :: "('w, 'a) io \<Rightarrow> ('w sub_client, 'a) io" where
  "in_world m s = (case m (sub_world s) of (r, w) \<Rightarrow> (r, s\<lparr>sub_world := w\<rparr>))"

definition reset_sub_state :: "'w sub_client pool_callback" where
  "reset_sub_state handle index s =
     (GGL_ERR_OK, s\<lparr>sub_callbacks := (sub_callbacks s)[index := no_callbacks]\<rparr>)"

definition set_sub_callbacks :: "'w SubCallbacks \<Rightarrow> nat \<Rightarrow> 'w sub_client \<Rightarrow> 'w sub_client" where
  "set_sub_callbacks callbacks index s = s\<lparr>sub_callbacks := (sub_callbacks s)[index := callbacks]\<rparr>"

definition get_sub_callbacks :: "'w sub_client \<Rightarrow> u32 \<Rightarrow> 'w SubCallbacks res" where
  "get_sub_callbacks s handle =
     res_bind (validate_handle (sub_pool s) handle) (\<lambda>index. Ret (sub_callbacks s ! index))"

text \<open>An abort of the look-up, which cannot happen, is given as \<^verbatim>\<open>GGL_ERR_FATAL\<close>.\<close>

definition call_close_callback :: "'w sub_client pool_callback" where
  "call_close_callback handle index s =
     (case get_sub_callbacks s handle of
        Ret callbacks \<Rightarrow>
          (GGL_ERR_OK,
           case on_close callbacks of
             Some f \<Rightarrow> s\<lparr>sub_world := f handle (sub_world s)\<rparr>
           | None \<Rightarrow> s)
      | Fail e \<Rightarrow> (e, s)
      | Abort \<Rightarrow> (GGL_ERR_FATAL, s))"

definition sub_register :: "int \<Rightarrow> ('w sub_client, u32) io" where
  "sub_register fd s =
     (case ggl_socket_pool_register (Some reset_sub_state) (sub_pool s) s fd of
        (r, pool, s') \<Rightarrow> (r, s'\<lparr>sub_pool := pool\<rparr>))"

definition sub_handle_close :: "'w socket_ops \<Rightarrow> u32 \<Rightarrow> ('w sub_client, unit) io" where
  "sub_handle_close ops handle s =
     (case ggl_socket_pool_release (Some call_close_callback) (sub_pool s) s handle of
        (Ret fd, pool, s') \<Rightarrow> (Ret (), s'\<lparr>sub_pool := pool, sub_world := sock_close ops fd (sub_world s')\<rparr>)
      | (Fail e, pool, s') \<Rightarrow> (Fail e, s'\<lparr>sub_pool := pool\<rparr>)
      | (Abort, pool, s') \<Rightarrow> (Abort, s'\<lparr>sub_pool := pool\<rparr>))"

definition sub_protected ::
  "(nat \<Rightarrow> 'w sub_client \<Rightarrow> 'w sub_client) \<Rightarrow> u32 \<Rightarrow> ('w sub_client, unit) io" where
  "sub_protected action handle s = ggl_socket_handle_protected action (sub_pool s) s handle"

section \<open>Subscribing\<close>

definition accepted_header :: "EventStreamHeader \<Rightarrow> bool \<Rightarrow> unit + bool" where
  "accepted_header header accepted =
     Inr (if ggl_buffer_eq (header_name header) (GGL_STR ''accepted'') \<and>
             header_value header = EVENTSTREAM_INT32 1
          then True else accepted)"

text \<open>\<open>Inl v\<close> is \<^verbatim>\<open>GGL_ERR_REMOTE\<close> with the error \<open>v\<close> of the server. The connection is closed unless it is
  returned.\<close>

definition make_subscribe_request ::
  "'w socket_ops \<Rightarrow> buffer \<Rightarrow> buffer \<Rightarrow> GglMap \<Rightarrow> ('w, u32 + int) io" where
  "make_subscribe_request ops interface method params =
     io_bind (ggl_client_send_message ops interface GGL_CORE_BUS_SUBSCRIBE method params) (\<lambda>conn.
     io_on_error
       (io_bind (ggl_client_get_response (sock_read ops conn) GGL_COREBUS_MAX_MSG_LEN) (\<lambda>r.
        case r of
          Inl v \<Rightarrow> io_bind (io_do (sock_close ops conn)) (\<lambda>_. io_res (Ret (Inl v)))
        | Inr (msg, data_section) \<Rightarrow>
            io_bind (io_res (header_fold accepted_header data_section (msg_headers msg) False)) (\<lambda>accepted.
            io_res (if accepted = Inr True then Ret (Inr conn) else Fail GGL_ERR_FAILURE))))
       (io_do (sock_close ops conn)))"

definition ggl_subscribe ::
  "'w socket_ops \<Rightarrow> (int \<Rightarrow> u32 \<Rightarrow> ('w, unit) io) \<Rightarrow> buffer \<Rightarrow> buffer \<Rightarrow> GglMap \<Rightarrow> 'w SubCallbacks \<Rightarrow>
   ('w sub_client, u32 + u32) io" where
  "ggl_subscribe ops epoll_add interface method params callbacks s =
     (if sub_epoll_fd s < 0 then (Fail GGL_ERR_FATAL, s)
      else io_bind (in_world (make_subscribe_request ops interface method params)) (\<lambda>r.
        case r of
          Inl v \<Rightarrow> io_res (Ret (Inl v))
        | Inr conn \<Rightarrow>
            io_bind (io_on_error (sub_register conn) (in_world (io_do (sock_close ops conn)))) (\<lambda>sub_handle.
            io_bind (io_ignore (sub_protected (set_sub_callbacks callbacks) sub_handle)) (\<lambda>_.
            io_on_error
              (io_bind (in_world (epoll_add conn sub_handle)) (\<lambda>_. io_res (Ret (Inr sub_handle))))
              (io_bind (io_ignore (sub_protected (set_sub_callbacks no_callbacks) sub_handle)) (\<lambda>_.
               io_ignore (sub_handle_close ops sub_handle)))))) s)"

definition ggl_client_sub_close :: "'w socket_ops \<Rightarrow> u32 \<Rightarrow> ('w sub_client, unit) io" where
  "ggl_client_sub_close ops handle = io_ignore (sub_handle_close ops handle)"

section \<open>Responses on a subscription\<close>

text \<open>The callback runs with the pool locked; the code it returned is kept beside the state, as in
  \<^verbatim>\<open>OnResponseCallbackArgs\<close>.\<close>

definition call_on_response_callback ::
  "'w socket_ops \<Rightarrow> u32 \<Rightarrow> GglObject \<Rightarrow> nat \<Rightarrow> 'w sub_client \<times> unit res \<Rightarrow> 'w sub_client \<times> unit res" where
  "call_on_response_callback ops handle data index args =
     (case on_response (sub_callbacks (fst args) ! index) of
        None \<Rightarrow> (fst args, Ret ())
      | Some f \<Rightarrow>
          (case in_world (f handle data) (fst args) of
             (Ret _, s) \<Rightarrow> (s, Ret ())
           | (Fail e, s) \<Rightarrow> (snd (sub_handle_close ops handle s), Fail e)
           | (Abort, s) \<Rightarrow> (s, Abort)))"

definition PAYLOAD_MAX_SUBOBJECTS :: nat where
  "PAYLOAD_MAX_SUBOBJECTS = 50"

definition obj_decode_mem :: buffer where
  "obj_decode_mem = replicate (PAYLOAD_MAX_SUBOBJECTS * 24) 0"

definition get_subscription_response :: "'w socket_ops \<Rightarrow> u32 \<Rightarrow> ('w sub_client, unit) io" where
  "get_subscription_response ops handle s =
     io_bind (in_world (ggl_client_get_response (handle_read ops (sub_pool s) handle) GGL_COREBUS_MAX_MSG_LEN)) (\<lambda>r.
     case r of
       Inl _ \<Rightarrow> io_res (Fail GGL_ERR_REMOTE)
     | Inr (msg, _) \<Rightarrow>
         io_bind (io_res (ggl_deserialize (Some (ggl_bump_alloc_init obj_decode_mem)) False (msg_payload msg)))
           (\<lambda>(result, _) s.
              case ggl_socket_handle_protected (call_on_response_callback ops handle result) (sub_pool s)
                  (s, Ret ()) handle of
                (ret, s', Abort) \<Rightarrow> (Abort, s')
              | (ret, s', _) \<Rightarrow> (ret, s'))) s"

definition sub_fd_ready :: "'w socket_ops \<Rightarrow> u64 \<Rightarrow> ('w sub_client, unit) io" where
  "sub_fd_ready ops data s =
     (if data > 0xFFFFFFFF then (Fail GGL_ERR_FATAL, s)
      else
        let handle = ucast data in
        (case get_subscription_response ops handle s of
           (Fail e, s') \<Rightarrow> io_ignore (sub_handle_close ops handle) s'
         | (r, s') \<Rightarrow> (r, s')))"

section \<open>Correctness\<close>

text \<open>The packet with which a server accepts a subscription makes the request succeed with the
  connection open, and an error packet makes it fail with the error of the server and the connection
  closed.\<close>

theorem subscription_accepted:
  assumes "ggl_client_send_message ops interface GGL_CORE_BUS_SUBSCRIBE method params w0 = (Ret conn, w)"
    and "delivers (sock_read ops conn) pkt w w'"
  shows "(eventstream_encode payload_array (Some accepted_response) None = Ret pkt \<longrightarrow>
      make_subscribe_request ops interface method params w0 = (Ret (Inr conn), w')) \<and>
    (eventstream_encode payload_array (Some (error_response e)) None = Ret pkt \<longrightarrow>
      make_subscribe_request ops interface method params w0 =
        (Ret (Inl (error_int32 e)), sock_close ops conn w'))"
proof (intro conjI impI)
  assume "eventstream_encode payload_array (Some accepted_response) None = Ret pkt"
  then have msg: "bus_message accepted_response []" "pkt = packet (headers_bytes accepted_response) []"
    by (auto simp: bus_encode_empty given_headers_def)
  have "fold_headers error_header accepted_response () = Inr ()"
    by (simp add: accepted_response_def error_header_def ggl_buffer_eq_iff GGL_STR_def)
  moreover have "fold_headers accepted_header accepted_response False = Inr True"
    by (simp add: accepted_response_def accepted_header_def ggl_buffer_eq_iff)
  ultimately show "make_subscribe_request ops interface method params w0 = (Ret (Inr conn), w')"
    using get_response_message [OF msg(1), of "sock_read ops conn" w w'] assms msg(2)
    by (auto simp: make_subscribe_request_def io_on_error_def header_fold_list)
next
  assume "eventstream_encode payload_array (Some (error_response e)) None = Ret pkt"
  then have "pkt = packet (headers_bytes (error_response e)) []"
    by (auto simp: bus_encode_empty given_headers_def)
  moreover have "fold_headers error_header (error_response e) () = Inl (error_int32 e)"
    by (simp add: error_response_def error_header_def ggl_buffer_eq_iff)
  ultimately show "make_subscribe_request ops interface method params w0 =
      (Ret (Inl (error_int32 e)), sock_close ops conn w')"
    using get_response_message [OF bus_message_error, of "sock_read ops conn" e w w'] assms
    by (auto simp: make_subscribe_request_def io_on_error_def)
qed

lemma delivers_handle:
  assumes "validate_handle pool h = Ret i" "delivers (sock_read ops (fds pool ! i)) pkt w w'" "16 \<le> length pkt"
  shows "delivers (handle_read ops pool h) pkt w w'"
proof -
  obtain w1 where "sock_read ops (fds pool ! i) 12 w = (Ret (take 12 pkt), w1)"
    "sock_read ops (fds pool ! i) (length pkt - 12) w1 = (Ret (drop 12 pkt), w')"
    using assms(2) by (auto simp: delivers_def)
  with assms(1,3) have "handle_read ops pool h 12 w = (Ret (take 12 pkt), w1)"
    "handle_read ops pool h (length pkt - 12) w1 = (Ret (drop 12 pkt), w')"
    by (auto intro!: handle_read_exact)
  then show ?thesis by (auto simp: delivers_def)
qed

lemma handle_data:
  fixes h :: u32
  shows "ucast (ucast h :: u64) = h" "\<not> (ucast h :: u64) > 0xFFFFFFFF"
proof -
  show "ucast (ucast h :: u64) = h" by (rule bit_word_eqI) (auto simp: bit_simps)
  have "unat (ucast h :: u64) = unat h"
    using unat_u32_less [of h] by (simp add: unsigned_ucast_eq take_bit_eq_mod)
  with unat_u32_less [of h] show "\<not> (ucast h :: u64) > 0xFFFFFFFF" by (simp add: word_less_nat_alt)
qed

text \<open>C7: an object that the server responds with on a subscription is passed, unchanged, to the callback
  of the subscription it was sent on, if it fits the decoding memory.\<close>

theorem subscription_response_reaches_callback:
  assumes "validate_handle (sub_pool s) h = Ret i" "on_response (sub_callbacks s ! i) = Some f"
    and "eventstream_encode payload_array None (ggl_serialize_reader obj) = Ret pkt"
    and "delivers (sock_read ops (fds (sub_pool s) ! i)) pkt (sub_world s) w"
    and "need obj \<le> length obj_decode_mem" "f h obj w = (Ret (), w')"
  shows "sub_fd_ready ops (ucast h) s = (Ret (), s\<lparr>sub_world := w'\<rparr>)"
proof -
  from assms(3) have obj: "obj_ok 1 obj" "bus_message [] (ser obj)" and pkt: "pkt = packet [] (ser obj)"
    by (auto simp: bus_message_response)
  have "delivers (handle_read ops (sub_pool s) h) (packet (headers_bytes []) (ser obj)) (sub_world s) w"
    using delivers_handle [OF assms(1,4)] by (simp add: pkt length_packet)
  from get_response_message [OF obj(2) this] obtain msg data where
    m: "msg_payload msg = ser obj" and
    resp: "ggl_client_get_response (handle_read ops (sub_pool s) h) GGL_COREBUS_MAX_MSG_LEN (sub_world s) =
      (Ret (Inr (msg, data)), w)" by auto
  let ?a = "ggl_bump_alloc_init obj_decode_mem"
  have a: "bump_inv ?a" "bump_index ?a mod 8 = 0" "bump_index ?a = 0" "bump_buf ?a = obj_decode_mem"
    by (simp_all add: bump_inv_def ggl_bump_alloc_init_def fits_def PTRDIFF_MAX_def
        obj_decode_mem_def PAYLOAD_MAX_SUBOBJECTS_def)
  then have "ggl_deserialize (Some ?a) False (ser obj) = Ret (obj, Some (?a\<lparr>bump_index := need obj\<rparr>))"
    using ggl_deserialize_ser [OF obj(1) a(1,2)] assms(5) by simp
  then have "get_subscription_response ops h s = (Ret (), s\<lparr>sub_world := w'\<rparr>)"
    using resp m assms(1,2,6)
    by (simp add: get_subscription_response_def in_world_def ggl_socket_handle_protected_def
        call_on_response_callback_def)
  then show ?thesis by (simp add: sub_fd_ready_def handle_data)
qed

section \<open>A failed subscription is closed\<close>

lemma sub_handle_close_inv:
  assumes "pool_inv (sub_pool s)" "sub_handle_close ops h s = (r, s')"
  shows "pool_inv (sub_pool s') \<and> validate_handle (sub_pool s') h \<noteq> Ret i \<and> r \<noteq> Abort"
proof -
  obtain r0 pool s1 where rel:
    "ggl_socket_pool_release (Some call_close_callback) (sub_pool s) s h = (r0, pool, s1)"
    by (metis prod_cases3)
  have "validate_handle pool h \<noteq> Ret i \<and> pool_inv pool \<and> r0 \<noteq> Abort"
    using release_invalid [OF assms(1) rel]
    by (simp add: run_callback_def call_close_callback_def get_sub_callbacks_def)
  with assms rel show ?thesis by (cases r0) (auto simp: sub_handle_close_def)
qed

text \<open>The callback of a subscription has accepted what arrived on it.\<close>

definition accepted_by_callback :: "'w sub_client \<Rightarrow> u32 \<Rightarrow> 'w sub_client \<Rightarrow> bool" where
  "accepted_by_callback s h s' \<longleftrightarrow> (\<exists>j obj w. validate_handle (sub_pool s) h = Ret j \<and>
     (case on_response (sub_callbacks s ! j) of
        None \<Rightarrow> True
      | Some f \<Rightarrow> f h obj w = (Ret (), sub_world s')))"

lemma on_response_callback_cases:
  assumes "pool_inv (sub_pool s)" "call_on_response_callback ops h obj j (s, Ret ()) = (s', ret)" "ret \<noteq> Abort"
    and "validate_handle (sub_pool s) h = Ret j"
  shows "pool_inv (sub_pool s') \<and> (validate_handle (sub_pool s') h \<noteq> Ret i \<or> accepted_by_callback s h s')"
proof (cases "on_response (sub_callbacks s ! j)")
  case None
  with assms show ?thesis by (auto simp: call_on_response_callback_def accepted_by_callback_def)
next
  case (Some f)
  obtain r w where f: "f h obj (sub_world s) = (r, w)" by fastforce
  show ?thesis
  proof (cases r)
    case (Ret u)
    with Some f assms(2) have "s' = s\<lparr>sub_world := w\<rparr>"
      by (simp add: call_on_response_callback_def in_world_def)
    moreover have "accepted_by_callback s h (s\<lparr>sub_world := w\<rparr>)"
      using Some f Ret assms(4) unfolding accepted_by_callback_def
      by (intro exI [of _ j] exI [of _ obj] exI [of _ "sub_world s"]) simp
    ultimately show ?thesis using assms(1) by simp
  next
    case (Fail e)
    obtain r2 s2 where c: "sub_handle_close ops h (s\<lparr>sub_world := w\<rparr>) = (r2, s2)" by fastforce
    with Some f Fail assms(2) have "s' = s2" by (simp add: call_on_response_callback_def in_world_def)
    with sub_handle_close_inv [OF _ c] assms(1) show ?thesis by simp
  next
    case Abort
    with Some f assms(2,3) show ?thesis by (simp add: call_on_response_callback_def in_world_def)
  qed
qed

lemma get_subscription_response_cases:
  assumes "pool_inv (sub_pool s)" "get_subscription_response ops h s = (r, s')" "r \<noteq> Abort"
  shows "pool_inv (sub_pool s') \<and>
    (r = Ret () \<longrightarrow> validate_handle (sub_pool s') h \<noteq> Ret i \<or> accepted_by_callback s h s')"
proof -
  obtain r1 w where g: "ggl_client_get_response (handle_read ops (sub_pool s) h) GGL_COREBUS_MAX_MSG_LEN
      (sub_world s) = (r1, w)" by fastforce
  let ?s = "s\<lparr>sub_world := w\<rparr>"
  consider msg data obj a where "r1 = Ret (Inr (msg, data))"
      "ggl_deserialize (Some (ggl_bump_alloc_init obj_decode_mem)) False (msg_payload msg) = Ret (obj, a)"
    | "pool_inv (sub_pool s')" "\<exists>e. r = Fail e"
  proof (cases r1)
    case (Ret x)
    show thesis
    proof (cases x)
      case (Inr md)
      obtain msg data where md: "md = (msg, data)" by (cases md)
      show thesis
      proof (cases "ggl_deserialize (Some (ggl_bump_alloc_init obj_decode_mem)) False (msg_payload msg)")
        case dec: (Ret oa)
        obtain obj a where "oa = (obj, a)" by (cases oa)
        with dec Ret Inr md show thesis by (intro that(1)) simp_all
      qed (use g Ret Inr md assms that in \<open>auto simp: get_subscription_response_def in_world_def\<close>)
    qed (use g Ret assms that in \<open>auto simp: get_subscription_response_def in_world_def\<close>)
  qed (use g assms that in \<open>auto simp: get_subscription_response_def in_world_def\<close>)
  then show ?thesis
  proof cases
    case (1 msg data obj a)
    then have get: "get_subscription_response ops h s =
        (case ggl_socket_handle_protected (call_on_response_callback ops h obj) (sub_pool s) (?s, Ret ()) h of
           (ret, s', Abort) \<Rightarrow> (Abort, s') | (ret, s', _) \<Rightarrow> (ret, s'))"
      using g by (simp add: get_subscription_response_def in_world_def)
    show ?thesis
    proof (cases "validate_handle (sub_pool s) h")
      case (Ret j)
      obtain s2 ret where c: "call_on_response_callback ops h obj j (?s, Ret ()) = (s2, ret)" by fastforce
      with get Ret assms(2,3) have "ret \<noteq> Abort" "s' = s2"
        by (auto simp: ggl_socket_handle_protected_def split: res.splits)
      with on_response_callback_cases [OF _ c, of i] Ret assms(1) show ?thesis
        by (simp add: accepted_by_callback_def)
    next
      case (Fail e)
      with get assms show ?thesis by (auto simp: ggl_socket_handle_protected_def)
    qed (simp add: validate_not_Abort)
  qed auto
qed

text \<open>C8: when data has arrived on a subscription, whatever it was, either the callback of the subscription
  has accepted it as a response or the handle of the subscription is no longer valid.\<close>

theorem subscription_failure_closes:
  assumes "pool_inv (sub_pool s)" "sub_fd_ready ops (ucast h) s = (r, s')" "r \<noteq> Abort"
  shows "r = Ret () \<and> pool_inv (sub_pool s') \<and>
    (accepted_by_callback s h s' \<or> validate_handle (sub_pool s') h \<noteq> Ret i)"
proof -
  obtain r1 s1 where g: "get_subscription_response ops h s = (r1, s1)" by fastforce
  have r1: "r1 \<noteq> Abort" using assms(2,3) g by (auto simp: sub_fd_ready_def handle_data)
  note cs = get_subscription_response_cases [OF assms(1) g r1, of i]
  show ?thesis
  proof (cases r1)
    case (Fail e)
    obtain r2 s2 where c: "sub_handle_close ops h s1 = (r2, s2)" by fastforce
    from sub_handle_close_inv [OF _ c, of i] cs Fail g c assms(2) show ?thesis
      by (cases r2) (auto simp: sub_fd_ready_def handle_data io_ignore_def)
  qed (use cs g r1 assms(2) in \<open>auto simp: sub_fd_ready_def handle_data\<close>)
qed

section \<open>Examples\<close>

lemma example_subscribe:
  "\<exists>out. ggl_client_send_message stream_ops (GGL_STR ''gg_config'') GGL_CORE_BUS_SUBSCRIBE (GGL_STR ''read'')
      example_params \<lparr>inbox = input, outbox = [], closed_fds = []\<rparr> =
    (Ret 3, \<lparr>inbox = input, outbox = out, closed_fds = []\<rparr>)"
proof -
  have "request_packet GGL_CORE_BUS_SUBSCRIBE (GGL_STR ''read'') example_params =
      Ret (packet (headers_bytes (request_headers GGL_CORE_BUS_SUBSCRIBE (GGL_STR ''read'')))
        (ser (OBJ_MAP example_params)))"
    by (simp add: request_packet_Ret bus_message_def request_headers_def example_params_def header_ok_def
        header_bytes_def GGL_STR_def GGL_COREBUS_MAX_MSG_LEN_def GGL_MAX_OBJECT_DEPTH_def UINT32_MAX_def ser_buf_def)
  then show ?thesis
    by (simp add: ggl_client_send_message_def interface_connect_def socket_path_def ggl_byte_vec_append_def
        vec_append_def GGL_INTERFACE_SOCKET_PREFIX_def GGL_INTERFACE_NAME_MAX_LEN_def
        GGL_STR_def [of "''gg_config''"] GGL_STR_def [of "''/run/greengrass/''"] SIZE_MAX_def stream_ops_def
        io_on_error_def)
qed

theorem subscription_accepted_witness:
  "\<exists>pkt w'. make_subscribe_request stream_ops (GGL_STR ''gg_config'') (GGL_STR ''read'') example_params
    \<lparr>inbox = pkt, outbox = [], closed_fds = []\<rparr> = (Ret (Inr 3), w')"
proof -
  let ?pkt = "packet (headers_bytes accepted_response) []"
  obtain out where send: "ggl_client_send_message stream_ops (GGL_STR ''gg_config'') GGL_CORE_BUS_SUBSCRIBE
      (GGL_STR ''read'') example_params \<lparr>inbox = ?pkt, outbox = [], closed_fds = []\<rparr> =
    (Ret 3, \<lparr>inbox = ?pkt, outbox = out, closed_fds = []\<rparr>)"
    using example_subscribe by blast
  have "delivers (sock_read stream_ops 3) ?pkt \<lparr>inbox = ?pkt, outbox = out, closed_fds = []\<rparr>
      \<lparr>inbox = [], outbox = out, closed_fds = []\<rparr>"
    using delivers_stream [of "\<lparr>inbox = ?pkt, outbox = out, closed_fds = []\<rparr>" ?pkt "[]" 3]
    by (simp add: length_packet)
  from subscription_accepted [OF send this] accepted_encode show ?thesis by blast
qed

definition example_subs :: "buffer \<Rightarrow> GglError option \<Rightarrow> stream_world sub_client" where
  "example_subs input result =
     \<lparr>sub_pool = example_pool,
      sub_callbacks = [\<lparr>on_response = Some (\<lambda>h obj. io_res (case result of None \<Rightarrow> Ret () | Some e \<Rightarrow> Fail e)),
                        on_close = None\<rparr>],
      sub_epoll_fd = 4, sub_world = \<lparr>inbox = input, outbox = [], closed_fds = []\<rparr>\<rparr>"

theorem subscription_response_reaches_callback_witness:
  "\<exists>s'. sub_fd_ready stream_ops (ucast (1 :: u32)) (example_subs (packet [] (ser (OBJ_I64 5))) None) = (Ret (), s')"
proof -
  let ?pkt = "packet [] (ser (OBJ_I64 5))"
  have enc: "eventstream_encode payload_array None (ggl_serialize_reader (OBJ_I64 5)) = Ret ?pkt"
    by (simp add: bus_message_response bus_message_def GGL_COREBUS_MAX_MSG_LEN_def)
  have "delivers (sock_read stream_ops 7) ?pkt (sub_world (example_subs ?pkt None))
      \<lparr>inbox = [], outbox = [], closed_fds = []\<rparr>"
    using delivers_stream [of "sub_world (example_subs ?pkt None)" ?pkt "[]" 7]
    by (simp add: example_subs_def length_packet)
  then show ?thesis
    using subscription_response_reaches_callback [of "example_subs ?pkt None" 1 0 _ "OBJ_I64 5" ?pkt stream_ops, OF _ _ enc]
      example_pool_valid by (simp add: example_subs_def del: ser.simps)
qed

theorem subscription_failure_closes_witness:
  "\<exists>r s'. sub_fd_ready stream_ops (ucast (1 :: u32)) (example_subs [1, 2, 3] (Some GGL_ERR_BUSY)) = (r, s') \<and>
    validate_handle (sub_pool s') 1 \<noteq> Ret 0"
proof -
  let ?s = "example_subs [1, 2, 3] (Some GGL_ERR_BUSY)"
  have "get_subscription_response stream_ops 1 ?s =
      (Fail GGL_ERR_NODATA, ?s\<lparr>sub_world := \<lparr>inbox = [], outbox = [], closed_fds = []\<rparr>\<rparr>)"
    using example_pool_valid
    by (simp add: get_subscription_response_def in_world_def ggl_client_get_response_def res_assert_def
        GGL_COREBUS_MAX_MSG_LEN_def reader_call_exact_def handle_read_def example_subs_def stream_ops_def)
  moreover obtain r2 s2 where c: "sub_handle_close stream_ops 1
      (?s\<lparr>sub_world := \<lparr>inbox = [], outbox = [], closed_fds = []\<rparr>\<rparr>) = (r2, s2)" by fastforce
  moreover have inv: "pool_inv (sub_pool ?s)"
    by (simp add: example_subs_def example_pool_def pool_inv_def)
  moreover have "r2 \<noteq> Abort" using sub_handle_close_inv [OF _ c] inv by simp
  ultimately obtain r s' where run: "sub_fd_ready stream_ops (ucast (1 :: u32)) ?s = (r, s')" "r \<noteq> Abort"
    using handle_data [of 1] by (cases r2) (auto simp: sub_fd_ready_def io_ignore_def)
  moreover have "\<not> accepted_by_callback ?s 1 s'"
    using example_pool_valid by (simp add: accepted_by_callback_def example_subs_def)
  ultimately show ?thesis using subscription_failure_closes [OF inv run, of 0] by blast
qed

end
