(* ===== verification/ObjectCopy.thy ===== *)
theory ObjectCopy
  imports GglObject GglState
begin

text \<open>
  Deep copies of objects into the memory of a bump allocator, \<^verbatim>\<open>ggl-lib/src/object.c\<close>. A copied object
  refers to its memory by offsets, and \<open>fetch\<close> reads it from there, so that what a copy still says
  after its memory has been written to again is part of the model. A copy reads back as the original,
  its buffers and arrays do not overlap, and what was allocated before is not touched.
\<close>

section \<open>Objects in memory\<close>

text \<open>A buffer is an offset and a length. The array of a list or of a map is at an offset; its items are
  given in place.\<close>

type_synonym loc_buf = "nat \<times> nat"

datatype loc_obj =
    LOC_SCALAR GglObject
  | LOC_BUF loc_buf
  | LOC_LIST nat "loc_obj list"
  | LOC_MAP nat "(loc_buf \<times> loc_obj) list"

definition fetch_buf :: "buffer \<Rightarrow> loc_buf \<Rightarrow> buffer" where
  "fetch_buf mem b = take (snd b) (drop (fst b) mem)"

fun fetch :: "buffer \<Rightarrow> loc_obj \<Rightarrow> GglObject" where
  "fetch mem (LOC_SCALAR v) = v"
| "fetch mem (LOC_BUF b) = OBJ_BUF (fetch_buf mem b)"
| "fetch mem (LOC_LIST p xs) = OBJ_LIST (map (fetch mem) xs)"
| "fetch mem (LOC_MAP p kvs) = OBJ_MAP (map (\<lambda>kv. (fetch_buf mem (fst kv), fetch mem (snd kv))) kvs)"

section \<open>Copying\<close>

text \<open>A copy that fails has written to the memory before it does, so the allocator is the state of a
  routine and not only its result.\<close>

definition copy_bytes :: "buffer \<Rightarrow> (GglBumpAlloc, nat) io" where
  "copy_bytes bs alloc =
     (case bump_alloc_alloc alloc (length bs) 1 of
        None \<Rightarrow> (Fail GGL_ERR_NOMEM, alloc)
      | Some (p, a) \<Rightarrow> (Ret p, a\<lparr>bump_buf := write_at (bump_buf a) p bs\<rparr>))"

text \<open>An empty buffer is not copied; its address does not matter.\<close>

definition deep_copy_buf :: "buffer \<Rightarrow> (GglBumpAlloc, loc_buf) io" where
  "deep_copy_buf buf =
     (if length buf = 0 then io_res (Ret (0, 0))
      else io_bind (copy_bytes buf) (\<lambda>p. io_res (Ret (p, length buf))))"

definition alloc_array :: "nat \<Rightarrow> nat \<Rightarrow> (GglBumpAlloc, nat) io" where
  "alloc_array n sz alloc =
     (case bump_alloc_alloc alloc (n * sz) 8 of
        None \<Rightarrow> (Fail GGL_ERR_NOMEM, alloc)
      | Some (p, a) \<Rightarrow> (Ret p, a))"

fun ggl_obj_deep_copy :: "GglObject \<Rightarrow> (GglBumpAlloc, loc_obj) io"
  and deep_copy_items :: "GglObject list \<Rightarrow> (GglBumpAlloc, loc_obj list) io"
  and deep_copy_pairs :: "(buffer \<times> GglObject) list \<Rightarrow> (GglBumpAlloc, (loc_buf \<times> loc_obj) list) io" where
  "ggl_obj_deep_copy (OBJ_BUF b) = io_bind (deep_copy_buf b) (\<lambda>b. io_res (Ret (LOC_BUF b)))"
| "ggl_obj_deep_copy (OBJ_LIST xs) =
     (if length xs = 0 then io_res (Ret (LOC_LIST 0 []))
      else io_bind (alloc_array (length xs) 24) (\<lambda>p.
           io_bind (deep_copy_items xs) (\<lambda>xs. io_res (Ret (LOC_LIST p xs)))))"
| "ggl_obj_deep_copy (OBJ_MAP kvs) =
     (if length kvs = 0 then io_res (Ret (LOC_MAP 0 []))
      else io_bind (alloc_array (length kvs) 40) (\<lambda>p.
           io_bind (deep_copy_pairs kvs) (\<lambda>kvs. io_res (Ret (LOC_MAP p kvs)))))"
| "ggl_obj_deep_copy v = io_res (Ret (LOC_SCALAR v))"
| "deep_copy_items [] = io_res (Ret [])"
| "deep_copy_items (x # xs) =
     io_bind (ggl_obj_deep_copy x) (\<lambda>x.
     io_bind (deep_copy_items xs) (\<lambda>xs. io_res (Ret (x # xs))))"
| "deep_copy_pairs [] = io_res (Ret [])"
| "deep_copy_pairs ((k, v) # kvs) =
     io_bind (copy_bytes k) (\<lambda>p.
     io_bind (ggl_obj_deep_copy v) (\<lambda>v.
     io_bind (deep_copy_pairs kvs) (\<lambda>kvs. io_res (Ret (((p, length k), v) # kvs)))))"

text \<open>Only the buffers are copied, in place; a null allocator is an error as soon as there is one.\<close>

definition with_alloc :: "(GglBumpAlloc, 'a) io \<Rightarrow> (GglBumpAlloc option, 'a) io" where
  "with_alloc m alloc =
     (case alloc of
        None \<Rightarrow> (Fail GGL_ERR_NOMEM, None)
      | Some a \<Rightarrow> (case m a of (r, a') \<Rightarrow> (r, Some a')))"

definition buffer_copy_buf :: "buffer \<Rightarrow> (GglBumpAlloc option, loc_buf) io" where
  "buffer_copy_buf buf =
     (if length buf = 0 then io_res (Ret (0, 0))
      else io_bind (with_alloc (copy_bytes buf)) (\<lambda>p. io_res (Ret (p, length buf))))"

fun ggl_obj_buffer_copy :: "GglObject \<Rightarrow> (GglBumpAlloc option, loc_obj) io"
  and buffer_copy_list :: "GglObject list \<Rightarrow> (GglBumpAlloc option, loc_obj list) io"
  and buffer_copy_map :: "(buffer \<times> GglObject) list \<Rightarrow> (GglBumpAlloc option, (loc_buf \<times> loc_obj) list) io" where
  "ggl_obj_buffer_copy (OBJ_BUF b) = io_bind (buffer_copy_buf b) (\<lambda>b. io_res (Ret (LOC_BUF b)))"
| "ggl_obj_buffer_copy (OBJ_LIST xs) = io_bind (buffer_copy_list xs) (\<lambda>xs. io_res (Ret (LOC_LIST 0 xs)))"
| "ggl_obj_buffer_copy (OBJ_MAP kvs) = io_bind (buffer_copy_map kvs) (\<lambda>kvs. io_res (Ret (LOC_MAP 0 kvs)))"
| "ggl_obj_buffer_copy v = io_res (Ret (LOC_SCALAR v))"
| "buffer_copy_list [] = io_res (Ret [])"
| "buffer_copy_list (x # xs) =
     io_bind (ggl_obj_buffer_copy x) (\<lambda>x.
     io_bind (buffer_copy_list xs) (\<lambda>xs. io_res (Ret (x # xs))))"
| "buffer_copy_map [] = io_res (Ret [])"
| "buffer_copy_map ((k, v) # kvs) =
     io_bind (with_alloc (copy_bytes k)) (\<lambda>p.
     io_bind (ggl_obj_buffer_copy v) (\<lambda>v.
     io_bind (buffer_copy_map kvs) (\<lambda>kvs. io_res (Ret (((p, length k), v) # kvs)))))"

section \<open>What a copy is\<close>

text \<open>The regions of a copy in the order in which they were allocated: an array before its items.\<close>

fun regions :: "loc_obj \<Rightarrow> (nat \<times> nat) list" where
  "regions (LOC_SCALAR v) = []"
| "regions (LOC_BUF b) = (if snd b = 0 then [] else [b])"
| "regions (LOC_LIST p xs) = (if xs = [] then [] else (p, length xs * 24) # concat (map regions xs))"
| "regions (LOC_MAP p kvs) = (if kvs = [] then [] else
     (p, length kvs * 40) # concat (map (\<lambda>kv. fst kv # regions (snd kv)) kvs))"

text \<open>Regions that follow each other, from \<open>lo\<close> on and up to \<open>hi\<close>.\<close>

fun chain :: "nat \<Rightarrow> (nat \<times> nat) list \<Rightarrow> nat \<Rightarrow> bool" where
  "chain lo [] hi \<longleftrightarrow> lo \<le> hi"
| "chain lo ((p, n) # rs) hi \<longleftrightarrow> lo \<le> p \<and> chain (p + n) rs hi"

lemma chain_mono: "chain lo rs hi \<Longrightarrow> lo' \<le> lo \<Longrightarrow> chain lo' rs hi"
  by (cases rs) auto

lemma chain_append: "chain lo rs mid \<Longrightarrow> chain mid rs' hi \<Longrightarrow> chain lo (rs @ rs') hi"
  by (induction lo rs mid rule: chain.induct) (auto intro: chain_mono)

lemma chain_le: "chain lo rs hi \<Longrightarrow> lo \<le> hi"
  by (induction lo rs hi rule: chain.induct) auto

lemma chain_mem: "chain lo rs hi \<Longrightarrow> r \<in> set rs \<Longrightarrow> lo \<le> fst r \<and> fst r + snd r \<le> hi"
  by (induction lo rs hi rule: chain.induct) (auto dest: chain_le)

text \<open>An object that a program can hold: every buffer and every array fits into memory.\<close>

fun obj_fits :: "GglObject \<Rightarrow> bool" where
  "obj_fits (OBJ_BUF b) \<longleftrightarrow> length b + 8 \<le> PTRDIFF_MAX"
| "obj_fits (OBJ_LIST xs) \<longleftrightarrow> length xs * 24 + 8 \<le> PTRDIFF_MAX \<and> list_all obj_fits xs"
| "obj_fits (OBJ_MAP kvs) \<longleftrightarrow> length kvs * 40 + 8 \<le> PTRDIFF_MAX \<and>
     list_all (\<lambda>kv. length (fst kv) + 8 \<le> PTRDIFF_MAX \<and> obj_fits (snd kv)) kvs"
| "obj_fits _ \<longleftrightarrow> True"

text \<open>An allocator that has been used further: what was allocated before is as it was.\<close>

definition grows :: "GglBumpAlloc \<Rightarrow> GglBumpAlloc \<Rightarrow> bool" where
  "grows a a' \<longleftrightarrow> bump_inv a' \<and> bump_index a \<le> bump_index a' \<and>
     length (bump_buf a') = length (bump_buf a) \<and>
     take (bump_index a) (bump_buf a') = take (bump_index a) (bump_buf a)"

lemma grows_refl: "bump_inv a \<Longrightarrow> grows a a"
  by (simp add: grows_def)

lemma grows_trans: "grows a b \<Longrightarrow> grows b c \<Longrightarrow> grows a c"
  unfolding grows_def by (metis (no_types) min.absorb1 order_trans take_take)

lemma copy_bytes_Ret:
  assumes "bump_inv a" "length bs + 8 \<le> PTRDIFF_MAX" "copy_bytes bs a = (Ret p, a')"
  shows "grows a a'" "p = bump_index a" "bump_index a' = p + length bs"
    "fetch_buf (bump_buf a') (p, length bs) = bs"
proof -
  have al: "bump_alloc_alloc a (length bs) 1 =
      (if bump_index a + length bs > length (bump_buf a) then None
       else Some (bump_index a, a\<lparr>bump_index := bump_index a + length bs\<rparr>))"
    using bump_alloc_cases [OF assms(1), of "length bs" 1] assms(2) by (simp add: bump_req_def Let_def)
  with assms(3) have le: "bump_index a + length bs \<le> length (bump_buf a)"
    and a': "a' = a\<lparr>bump_index := bump_index a + length bs,
      bump_buf := write_at (bump_buf a) (bump_index a) bs\<rparr>" and p: "p = bump_index a"
    by (auto simp: copy_bytes_def split: if_splits)
  show "p = bump_index a" "bump_index a' = p + length bs" by (simp_all add: p a')
  show "grows a a'"
    using assms(1) le by (simp add: grows_def a' bump_inv_def fits_def take_write_at_le)
  show "fetch_buf (bump_buf a') (p, length bs) = bs"
    using le by (simp add: fetch_buf_def a' p write_at_def)
qed

lemma alloc_array_Ret:
  assumes "bump_inv a" "n * sz + 8 \<le> PTRDIFF_MAX" "alloc_array n sz a = (Ret p, a')"
  shows "grows a a'" "bump_index a \<le> p" "bump_index a' = p + n * sz"
  using bump_alloc_cases [OF assms(1), of "n * sz" 8] assms
  by (auto simp: alloc_array_def bump_req_def Let_def grows_def bump_inv_def split: option.splits if_splits)

lemma fetch_buf_stable:
  assumes "take hi mem = take hi mem'" "fst b + snd b \<le> hi"
  shows "fetch_buf mem b = fetch_buf mem' b"
proof -
  have "fetch_buf m b = take (snd b) (drop (fst b) (take hi m))" for m
    using assms(2) by (simp add: fetch_buf_def drop_take min_def)
  then show ?thesis using assms(1) by simp
qed

lemma fetch_stable:
  assumes "take hi mem = take hi mem'" "\<forall>r \<in> set (regions l). fst r + snd r \<le> hi"
  shows "fetch mem l = fetch mem' l"
  using assms
proof (induction mem l rule: fetch.induct)
  case (2 mem b)
  then show ?case using fetch_buf_stable [OF 2(1), of b] by (cases "snd b = 0") (auto simp: fetch_buf_def)
next
  case (3 mem p xs)
  have "fetch mem x = fetch mem' x" if "x \<in> set xs" for x
    using 3 that by (auto split: if_splits)
  then show ?case by simp
next
  case (4 mem p kvs)
  have "fetch mem (snd kv) = fetch mem' (snd kv)" "fetch_buf mem (fst kv) = fetch_buf mem' (fst kv)"
    if "kv \<in> set kvs" for kv
  proof -
    have r: "set (fst kv # regions (snd kv)) \<subseteq> set (regions (LOC_MAP p kvs))"
      using that by (auto split: if_splits)
    then show "fetch mem (snd kv) = fetch mem' (snd kv)" using 4 that by (metis (no_types, lifting) list.set_intros(2) subsetD)
    show "fetch_buf mem (fst kv) = fetch_buf mem' (fst kv)"
      using r 4(3) by (intro fetch_buf_stable [OF 4(2)]) auto
  qed
  then show ?case by simp
qed simp

text \<open>What a copy into an allocator promises of the object, the items and the pairs it makes.\<close>

definition copied :: "GglBumpAlloc \<Rightarrow> GglBumpAlloc \<Rightarrow> (nat \<times> nat) list \<Rightarrow> bool" where
  "copied a a' rs \<longleftrightarrow> grows a a' \<and> chain (bump_index a) rs (bump_index a')"

lemma copied_append:
  "copied a b rs \<Longrightarrow> copied b c rs' \<Longrightarrow> copied a c (rs @ rs')"
  using grows_trans chain_append unfolding copied_def by blast

lemma copied_stable:
  "copied a b (regions l) \<Longrightarrow> grows b c \<Longrightarrow> fetch (bump_buf c) l = fetch (bump_buf b) l"
  by (rule fetch_stable [of "bump_index b"]) (auto simp: copied_def grows_def dest: chain_mem)

lemma copied_inv: "copied a b rs \<Longrightarrow> bump_inv b"
  by (simp add: copied_def grows_def)

lemma deep_copy_buf_Ret:
  assumes "bump_inv a" "length b + 8 \<le> PTRDIFF_MAX" "deep_copy_buf b a = (Ret l, a')"
  shows "copied a a' (regions (LOC_BUF l)) \<and> fetch_buf (bump_buf a') l = b"
proof (cases "b = []")
  case True
  with assms show ?thesis by (auto simp: deep_copy_buf_def copied_def grows_refl fetch_buf_def)
next
  case False
  with assms(3) obtain p where c: "copy_bytes b a = (Ret p, a')" "l = (p, length b)"
    by (auto simp: deep_copy_buf_def io_simps)
  with copy_bytes_Ret [OF assms(1,2) c(1)] False show ?thesis by (simp add: copied_def)
qed

definition good_copy :: "GglObject \<Rightarrow> bool" where
  "good_copy v \<longleftrightarrow> (\<forall>a l a'. bump_inv a \<longrightarrow> ggl_obj_deep_copy v a = (Ret l, a') \<longrightarrow>
     copied a a' (regions l) \<and> fetch (bump_buf a') l = v)"

lemma good_copyD:
  "good_copy v \<Longrightarrow> bump_inv a \<Longrightarrow> ggl_obj_deep_copy v a = (Ret l, a') \<Longrightarrow>
    copied a a' (regions l) \<and> fetch (bump_buf a') l = v"
  unfolding good_copy_def by blast

lemma deep_copy_items_Ret:
  assumes "list_all good_copy xs" "bump_inv a" "deep_copy_items xs a = (Ret ls, a')"
  shows "copied a a' (concat (map regions ls)) \<and> map (fetch (bump_buf a')) ls = xs"
  using assms
proof (induction xs arbitrary: a ls)
  case Nil
  then show ?case by (simp add: copied_def grows_refl)
next
  case (Cons x xs)
  from Cons.prems(3) obtain l b ls' where c: "ggl_obj_deep_copy x a = (Ret l, b)"
    "deep_copy_items xs b = (Ret ls', a')" "ls = l # ls'" by (auto simp: io_simps)
  have x: "copied a b (regions l) \<and> fetch (bump_buf b) l = x"
    using good_copyD [OF _ Cons.prems(2) c(1)] Cons.prems(1) by simp
  then have xs: "copied b a' (concat (map regions ls')) \<and> map (fetch (bump_buf a')) ls' = xs"
    using Cons.IH [OF _ copied_inv c(2)] Cons.prems(1) by auto
  have "fetch (bump_buf a') l = x"
    using copied_stable [of a b l a'] x xs by (simp add: copied_def)
  with x xs c(3) show ?case using copied_append by auto
qed

lemma deep_copy_pairs_Ret:
  assumes "list_all (\<lambda>kv. length (fst kv) + 8 \<le> PTRDIFF_MAX \<and> good_copy (snd kv)) kvs" "bump_inv a"
    "deep_copy_pairs kvs a = (Ret ls, a')"
  shows "copied a a' (concat (map (\<lambda>kv. fst kv # regions (snd kv)) ls)) \<and>
    map (\<lambda>kv. (fetch_buf (bump_buf a') (fst kv), fetch (bump_buf a') (snd kv))) ls = kvs"
  using assms
proof (induction kvs arbitrary: a ls)
  case Nil
  then show ?case by (simp add: copied_def grows_refl)
next
  case (Cons kv kvs)
  obtain k v where kv: "kv = (k, v)" by (cases kv)
  from Cons.prems(3) kv obtain p b l c ls' where c: "copy_bytes k a = (Ret p, b)"
    "ggl_obj_deep_copy v b = (Ret l, c)" "deep_copy_pairs kvs c = (Ret ls', a')"
    "ls = ((p, length k), l) # ls'" by (auto simp: io_simps)
  note key = copy_bytes_Ret [OF Cons.prems(2) _ c(1)]
  have k: "copied a b [(p, length k)]" "fetch_buf (bump_buf b) (p, length k) = k" "bump_index b = p + length k"
    using key Cons.prems(1) kv by (simp_all add: copied_def)
  have v: "copied b c (regions l) \<and> fetch (bump_buf c) l = v"
    using good_copyD [OF _ copied_inv [OF k(1)] c(2)] Cons.prems(1) kv by simp
  then have rest: "copied c a' (concat (map (\<lambda>kv. fst kv # regions (snd kv)) ls')) \<and>
      map (\<lambda>kv. (fetch_buf (bump_buf a') (fst kv), fetch (bump_buf a') (snd kv))) ls' = kvs"
    using Cons.IH [OF _ copied_inv c(3)] Cons.prems(1) by auto
  have "fetch (bump_buf a') l = v"
    using copied_stable [of b c l a'] v rest by (simp add: copied_def)
  moreover have "grows b a'" using v rest grows_trans by (auto simp: copied_def)
  then have "fetch_buf (bump_buf a') (p, length k) = k"
    using fetch_buf_stable [of "bump_index b" "bump_buf a'" "bump_buf b" "(p, length k)"] k
    by (simp add: grows_def)
  moreover have "copied a a' ((p, length k) # regions l @ concat (map (\<lambda>kv. fst kv # regions (snd kv)) ls'))"
    using copied_append [OF k(1) copied_append [OF conjunct1 [OF v] conjunct1 [OF rest]]] by simp
  ultimately show ?case using rest c(4) kv by simp
qed

lemma alloc_array_copied:
  assumes "bump_inv a" "n * sz + 8 \<le> PTRDIFF_MAX" "alloc_array n sz a = (Ret p, a')"
  shows "copied a a' [(p, n * sz)]"
  using alloc_array_Ret [OF assms] by (simp add: copied_def)

lemma deep_copy_good: "obj_fits v \<Longrightarrow> good_copy v"
proof (induction v rule: obj_fits.induct)
  case (1 b)
  then show ?case using deep_copy_buf_Ret by (auto simp: good_copy_def io_simps simp del: regions.simps)
next
  case (2 xs)
  show ?case
    unfolding good_copy_def
  proof (intro allI impI)
    fix a l a' assume a: "bump_inv a" "ggl_obj_deep_copy (OBJ_LIST xs) a = (Ret l, a')"
    show "copied a a' (regions l) \<and> fetch (bump_buf a') l = OBJ_LIST xs"
    proof (cases "xs = []")
      case True
      with a show ?thesis by (auto simp: copied_def grows_refl)
    next
      case False
      with a(2) obtain p b ls where c: "alloc_array (length xs) 24 a = (Ret p, b)"
        "deep_copy_items xs b = (Ret ls, a')" "l = LOC_LIST p ls" by (auto simp: io_simps)
      have p: "copied a b [(p, length xs * 24)]"
        using alloc_array_copied [OF a(1) _ c(1)] 2(2) by simp
      have "list_all good_copy xs" using 2 by (simp add: list_all_iff)
      from deep_copy_items_Ret [OF this copied_inv [OF p] c(2)]
      have ls: "copied b a' (concat (map regions ls))" "map (fetch (bump_buf a')) ls = xs" by auto
      moreover from ls(2) have "length ls = length xs" by auto
      ultimately show ?thesis using copied_append [OF p ls(1)] c(3) False by auto
    qed
  qed
next
  case (3 kvs)
  show ?case
    unfolding good_copy_def
  proof (intro allI impI)
    fix a l a' assume a: "bump_inv a" "ggl_obj_deep_copy (OBJ_MAP kvs) a = (Ret l, a')"
    show "copied a a' (regions l) \<and> fetch (bump_buf a') l = OBJ_MAP kvs"
    proof (cases "kvs = []")
      case True
      with a show ?thesis by (auto simp: copied_def grows_refl)
    next
      case False
      with a(2) obtain p b ls where c: "alloc_array (length kvs) 40 a = (Ret p, b)"
        "deep_copy_pairs kvs b = (Ret ls, a')" "l = LOC_MAP p ls" by (auto simp: io_simps)
      have p: "copied a b [(p, length kvs * 40)]"
        using alloc_array_copied [OF a(1) _ c(1)] 3(2) by simp
      have "list_all (\<lambda>kv. length (fst kv) + 8 \<le> PTRDIFF_MAX \<and> good_copy (snd kv)) kvs"
        using 3 by (simp add: list_all_iff)
      from deep_copy_pairs_Ret [OF this copied_inv [OF p] c(2)]
      have ls: "copied b a' (concat (map (\<lambda>kv. fst kv # regions (snd kv)) ls))"
        "map (\<lambda>kv. (fetch_buf (bump_buf a') (fst kv), fetch (bump_buf a') (snd kv))) ls = kvs" by auto
      moreover from ls(2) have "length ls = length kvs" by auto
      ultimately show ?thesis using copied_append [OF p ls(1)] c(3) False by auto
    qed
  qed
qed (auto simp: good_copy_def copied_def grows_refl)

section \<open>Copies that fail\<close>

text \<open>A routine that, however it ends, keeps what was allocated before, and fails only for lack of memory.\<close>

definition keeps :: "(GglBumpAlloc, 'a) io \<Rightarrow> bool" where
  "keeps m \<longleftrightarrow> (\<forall>a. bump_inv a \<longrightarrow> grows a (snd (m a)) \<and> fst (m a) \<noteq> Abort \<and>
     (\<forall>e. fst (m a) = Fail e \<longrightarrow> e = GGL_ERR_NOMEM))"

lemma keeps_res [intro]: "keeps (io_res (Ret x))"
  by (simp add: keeps_def grows_refl)

lemma keeps_bind [intro]:
  assumes "keeps m" "\<And>x. keeps (f x)"
  shows "keeps (io_bind m f)"
  unfolding keeps_def
proof (intro allI impI)
  fix a :: GglBumpAlloc assume a: "bump_inv a"
  obtain r b where m: "m a = (r, b)" by fastforce
  then have b: "grows a b" "r \<noteq> Abort" "\<forall>e. r = Fail e \<longrightarrow> e = GGL_ERR_NOMEM"
    using assms(1) a unfolding keeps_def by (metis fst_conv snd_conv)+
  show "grows a (snd (io_bind m f a)) \<and> fst (io_bind m f a) \<noteq> Abort \<and>
     (\<forall>e. fst (io_bind m f a) = Fail e \<longrightarrow> e = GGL_ERR_NOMEM)"
  proof (cases r)
    case (Ret x)
    moreover have "bump_inv b" using b(1) by (simp add: grows_def)
    ultimately show ?thesis using assms(2) [of x] m b(1) grows_trans unfolding keeps_def by auto
  qed (use m b in auto)
qed

lemma keeps_copy_bytes [intro]: "length bs + 8 \<le> PTRDIFF_MAX \<Longrightarrow> keeps (copy_bytes bs)"
  unfolding keeps_def
proof (intro allI impI)
  fix a :: GglBumpAlloc assume "length bs + 8 \<le> PTRDIFF_MAX" "bump_inv a"
  then show "grows a (snd (copy_bytes bs a)) \<and> fst (copy_bytes bs a) \<noteq> Abort \<and>
     (\<forall>e. fst (copy_bytes bs a) = Fail e \<longrightarrow> e = GGL_ERR_NOMEM)"
    using copy_bytes_Ret(1) [of a bs]
    by (cases "bump_alloc_alloc a (length bs) 1") (auto simp: copy_bytes_def grows_refl)
qed

lemma keeps_alloc_array [intro]: "n * sz + 8 \<le> PTRDIFF_MAX \<Longrightarrow> keeps (alloc_array n sz)"
  unfolding keeps_def
proof (intro allI impI)
  fix a :: GglBumpAlloc assume "n * sz + 8 \<le> PTRDIFF_MAX" "bump_inv a"
  then show "grows a (snd (alloc_array n sz a)) \<and> fst (alloc_array n sz a) \<noteq> Abort \<and>
     (\<forall>e. fst (alloc_array n sz a) = Fail e \<longrightarrow> e = GGL_ERR_NOMEM)"
    using alloc_array_Ret(1) [of a n sz]
    by (cases "bump_alloc_alloc a (n * sz) 8") (auto simp: alloc_array_def grows_refl)
qed

lemma keeps_copy_buf [intro]: "length b + 8 \<le> PTRDIFF_MAX \<Longrightarrow> keeps (deep_copy_buf b)"
  by (auto simp: deep_copy_buf_def)

lemma deep_copy_keeps:
  "obj_fits v \<Longrightarrow> keeps (ggl_obj_deep_copy v)"
  "list_all obj_fits xs \<Longrightarrow> keeps (deep_copy_items xs)"
  "list_all (\<lambda>kv. length (fst kv) + 8 \<le> PTRDIFF_MAX \<and> obj_fits (snd kv)) kvs \<Longrightarrow> keeps (deep_copy_pairs kvs)"
  by (induction v and xs and kvs rule: ggl_obj_deep_copy_deep_copy_items_deep_copy_pairs.induct) auto

section \<open>How much memory a copy takes\<close>

text \<open>\<open>needs m n\<close>: the routine \<open>m\<close> succeeds if there are \<open>n\<close> bytes left, and takes no more.\<close>

definition needs :: "(GglBumpAlloc, 'a) io \<Rightarrow> nat \<Rightarrow> bool" where
  "needs m n \<longleftrightarrow> (\<forall>a. bump_inv a \<longrightarrow> length (bump_buf a) + 8 \<le> PTRDIFF_MAX \<longrightarrow>
     bump_index a + n \<le> length (bump_buf a) \<longrightarrow>
     (\<exists>x a'. m a = (Ret x, a') \<and> bump_inv a' \<and> length (bump_buf a') = length (bump_buf a) \<and>
        bump_index a' \<le> bump_index a + n))"

lemma needsD:
  assumes "needs m n" "bump_inv a" "length (bump_buf a) + 8 \<le> PTRDIFF_MAX" "bump_index a + n \<le> length (bump_buf a)"
  obtains x a' where "m a = (Ret x, a')" "bump_inv a'" "length (bump_buf a') = length (bump_buf a)"
    "bump_index a' \<le> bump_index a + n"
  using assms unfolding needs_def by metis

lemma needs_res [intro]: "needs (io_res (Ret x)) 0"
  by (auto simp: needs_def)

lemma needs_Pair [intro]: "needs (Pair (Ret x)) 0"
  by (auto simp: needs_def)

lemma needs_bind [intro]:
  assumes "needs m n" "\<And>x. needs (f x) k"
  shows "needs (io_bind m f) (n + k)"
  unfolding needs_def
proof (intro allI impI)
  fix a assume a: "bump_inv a" "length (bump_buf a) + 8 \<le> PTRDIFF_MAX" "bump_index a + (n + k) \<le> length (bump_buf a)"
  obtain x b where b: "m a = (Ret x, b)" "bump_inv b" "length (bump_buf b) = length (bump_buf a)"
    "bump_index b \<le> bump_index a + n"
    by (rule needsD [OF assms(1) a(1,2)]) (use a(3) in auto)
  obtain y c where "f x b = (Ret y, c)" "bump_inv c" "length (bump_buf c) = length (bump_buf b)"
    "bump_index c \<le> bump_index b + k"
    by (rule needsD [OF assms(2) b(2)]) (use a b in auto)
  with b show "\<exists>x a'. io_bind m f a = (Ret x, a') \<and> bump_inv a' \<and> length (bump_buf a') = length (bump_buf a) \<and>
      bump_index a' \<le> bump_index a + (n + k)"
    by (auto simp: io_bind_def)
qed

lemma needs_bind_res [intro]: "needs m n \<Longrightarrow> needs (io_bind m (\<lambda>x. io_res (Ret (g x)))) n"
  using needs_bind [of m n "\<lambda>x. io_res (Ret (g x))" 0] by auto

lemma needs_copy_bytes [intro]: "needs (copy_bytes bs) (length bs)"
  unfolding needs_def
proof (intro allI impI)
  fix a assume a: "bump_inv a" "length (bump_buf a) + 8 \<le> PTRDIFF_MAX" "bump_index a + length bs \<le> length (bump_buf a)"
  show "\<exists>x a'. copy_bytes bs a = (Ret x, a') \<and> bump_inv a' \<and> length (bump_buf a') = length (bump_buf a) \<and>
      bump_index a' \<le> bump_index a + length bs"
    using a bump_alloc_cases [OF a(1), of "length bs" 1]
    by (auto simp: copy_bytes_def bump_req_def bump_inv_def fits_def Let_def)
qed

lemma needs_alloc_array [intro]: "needs (alloc_array n sz) (n * sz + 7)"
  unfolding needs_def
proof (intro allI impI)
  fix a assume a: "bump_inv a" "length (bump_buf a) + 8 \<le> PTRDIFF_MAX" "bump_index a + (n * sz + 7) \<le> length (bump_buf a)"
  have pad: "(8 - bump_index a mod 8) mod 8 \<le> 7" by simp
  show "\<exists>x a'. alloc_array n sz a = (Ret x, a') \<and> bump_inv a' \<and> length (bump_buf a') = length (bump_buf a) \<and>
      bump_index a' \<le> bump_index a + (n * sz + 7)"
    using a pad bump_alloc_cases [OF a(1), of "n * sz" 8]
    by (simp add: alloc_array_def bump_req_def bump_inv_def fits_def Let_def)
qed

fun copy_size :: "GglObject \<Rightarrow> nat" where
  "copy_size (OBJ_BUF b) = length b"
| "copy_size (OBJ_LIST xs) = (if xs = [] then 0 else length xs * 24 + 7 + sum_list (map copy_size xs))"
| "copy_size (OBJ_MAP kvs) = (if kvs = [] then 0 else
     length kvs * 40 + 7 + sum_list (map (\<lambda>kv. length (fst kv) + copy_size (snd kv)) kvs))"
| "copy_size _ = 0"

lemma needs_copy_buf [intro]: "needs (deep_copy_buf b) (length b)"
  by (auto simp: deep_copy_buf_def)

lemma deep_copy_needs:
  "needs (ggl_obj_deep_copy v) (copy_size v)"
  "needs (deep_copy_items xs) (sum_list (map copy_size xs))"
  "needs (deep_copy_pairs kvs) (sum_list (map (\<lambda>kv. length (fst kv) + copy_size (snd kv)) kvs))"
proof (induction v and xs and kvs rule: ggl_obj_deep_copy_deep_copy_items_deep_copy_pairs.induct)
  case (2 xs)
  then show ?case by (cases "xs = []") auto
next
  case (3 kvs)
  then show ?case by (cases "kvs = []") auto
next
  case (8 k v kvs)
  then show ?case by (auto simp: add.assoc)
qed auto

text \<open>C22: a deep copy reads back as the object that was copied, and its buffers and arrays lie one after
  the other behind what had been allocated before. Also a copy that fails leaves that unchanged, and
  the only failure is a lack of memory, which does not occur while \<open>copy_size\<close> bytes are left.\<close>

theorem ggl_obj_deep_copy_correct:
  assumes "bump_inv a" "length (bump_buf a) + 8 \<le> PTRDIFF_MAX" "obj_fits v" "ggl_obj_deep_copy v a = (r, a')"
  shows "take (bump_index a) (bump_buf a') = take (bump_index a) (bump_buf a) \<and> bump_inv a' \<and>
    (case r of
      Ret l \<Rightarrow> fetch (bump_buf a') l = v \<and> chain (bump_index a) (regions l) (bump_index a')
    | Fail e \<Rightarrow> e = GGL_ERR_NOMEM \<and> length (bump_buf a) < bump_index a + copy_size v
    | Abort \<Rightarrow> False)"
proof -
  have "length (bump_buf a) < bump_index a + copy_size v" if "r = Fail e" for e
    using that assms by (auto simp: not_less [symmetric] elim: needsD [OF deep_copy_needs(1) [of v]])
  then show ?thesis
    using good_copyD [OF deep_copy_good [OF assms(3)] assms(1)] deep_copy_keeps(1) [OF assms(3)] assms
    by (cases r) (auto simp: copied_def grows_def keeps_def)
qed

theorem ggl_obj_deep_copy_correct_witness:
  "\<exists>l a'. ggl_obj_deep_copy (OBJ_LIST [OBJ_BUF [1, 2], OBJ_I64 7]) (ggl_bump_alloc_init (replicate 60 0)) = (Ret l, a')
    \<and> fetch (bump_buf a') l = OBJ_LIST [OBJ_BUF [1, 2], OBJ_I64 7]"
proof -
  let ?v = "OBJ_LIST [OBJ_BUF [1, 2], OBJ_I64 7]" and ?a = "ggl_bump_alloc_init (replicate 60 0)"
  have ok: "bump_inv ?a" "length (bump_buf ?a) + 8 \<le> PTRDIFF_MAX" "obj_fits ?v"
    by (simp_all add: bump_inv_def ggl_bump_alloc_init_def fits_def PTRDIFF_MAX_def)
  have "\<exists>l a'. ggl_obj_deep_copy ?v ?a = (Ret l, a')"
    by (simp add: io_bind_def alloc_array_def bump_alloc_alloc_def ggl_bump_alloc_init_def size_add_def Let_def
        deep_copy_buf_def copy_bytes_def)
  then obtain l a' where "ggl_obj_deep_copy ?v ?a = (Ret l, a')" by blast
  with ggl_obj_deep_copy_correct [OF ok this] show ?thesis by auto
qed

end
