(* ===== verification/DeploymentQueue.thy ===== *)
theory DeploymentQueue
  imports ObjectCopy
begin

text \<open>
  The queue of deployments, \<^verbatim>\<open>ggdeploymentd/src/deployment_queue.c\<close>: a ring of slots, each with memory of
  its own that the deployment of the slot is copied into. The entries of a slot refer to its memory,
  so that what a deployment says after the memory has been written to again is part of the model. The
  ring refines a first-in first-out list of deployments.
\<close>

section \<open>Deployments\<close>

datatype GglDeploymentState = GGL_DEPLOYMENT_QUEUED | GGL_DEPLOYMENT_IN_PROGRESS

text \<open>A deployment over buffers, maps and lists of any kind: as values, or as references to memory.\<close>

record ('b, 'm, 'l) GglDeployment =
  deployment_id :: 'b
  recipe_directory_path :: 'b
  artifacts_directory_path :: 'b
  configuration_arn :: 'b
  thing_group :: 'b
  root_component_versions_to_add :: 'm
  root_components_to_remove :: 'l
  component_to_configuration :: 'm
  deployment_state :: GglDeploymentState
  cloud_root_components_to_add :: 'm

type_synonym deployment = "(buffer, GglMap, GglList) GglDeployment"
type_synonym loc_deployment = "(loc_buf, loc_obj, loc_obj) GglDeployment"

definition empty_deployment :: deployment where
  "empty_deployment =
     \<lparr>deployment_id = [], recipe_directory_path = [], artifacts_directory_path = [], configuration_arn = [],
      thing_group = [], root_component_versions_to_add = [], root_components_to_remove = [],
      component_to_configuration = [], deployment_state = GGL_DEPLOYMENT_QUEUED,
      cloud_root_components_to_add = []\<rparr>"

fun obj_map :: "GglObject \<Rightarrow> GglMap" where
  "obj_map (OBJ_MAP m) = m"
| "obj_map _ = []"

fun obj_list :: "GglObject \<Rightarrow> GglList" where
  "obj_list (OBJ_LIST l) = l"
| "obj_list _ = []"

fun obj_buf :: "GglObject \<Rightarrow> buffer" where
  "obj_buf (OBJ_BUF b) = b"
| "obj_buf _ = []"

definition fetch_deployment :: "buffer \<Rightarrow> loc_deployment \<Rightarrow> deployment" where
  "fetch_deployment mem d =
     \<lparr>deployment_id = fetch_buf mem (deployment_id d),
      recipe_directory_path = fetch_buf mem (recipe_directory_path d),
      artifacts_directory_path = fetch_buf mem (artifacts_directory_path d),
      configuration_arn = fetch_buf mem (configuration_arn d),
      thing_group = fetch_buf mem (thing_group d),
      root_component_versions_to_add = obj_map (fetch mem (root_component_versions_to_add d)),
      root_components_to_remove = obj_list (fetch mem (root_components_to_remove d)),
      component_to_configuration = obj_map (fetch mem (component_to_configuration d)),
      deployment_state = deployment_state d,
      cloud_root_components_to_add = obj_map (fetch mem (cloud_root_components_to_add d))\<rparr>"

section \<open>Copying a deployment\<close>

definition null_terminate_buffer :: "buffer \<Rightarrow> (GglBumpAlloc, loc_buf) io" where
  "null_terminate_buffer buf =
     (if length buf = 0 then io_res (Ret (0, 0))
      else io_bind (copy_bytes (buf @ [0])) (\<lambda>p. io_res (Ret (p, length buf))))"

definition deep_copy_deployment :: "deployment \<Rightarrow> (GglBumpAlloc, loc_deployment) io" where
  "deep_copy_deployment d =
     io_bind (deep_copy_buf (deployment_id d)) (\<lambda>ident.
     io_bind (null_terminate_buffer (recipe_directory_path d)) (\<lambda>recipe_path.
     io_bind (null_terminate_buffer (artifacts_directory_path d)) (\<lambda>artifacts_path.
     io_bind (ggl_obj_deep_copy (OBJ_MAP (root_component_versions_to_add d))) (\<lambda>to_add.
     io_bind (ggl_obj_deep_copy (OBJ_MAP (cloud_root_components_to_add d))) (\<lambda>cloud_to_add.
     io_bind (ggl_obj_deep_copy (OBJ_LIST (root_components_to_remove d))) (\<lambda>to_remove.
     io_bind (ggl_obj_deep_copy (OBJ_MAP (component_to_configuration d))) (\<lambda>to_config.
     io_bind (deep_copy_buf (configuration_arn d)) (\<lambda>arn.
     io_bind (deep_copy_buf (thing_group d)) (\<lambda>group.
     io_res (Ret
       \<lparr>deployment_id = ident, recipe_directory_path = recipe_path,
        artifacts_directory_path = artifacts_path, configuration_arn = arn, thing_group = group,
        root_component_versions_to_add = to_add, root_components_to_remove = to_remove,
        component_to_configuration = to_config, deployment_state = deployment_state d,
        cloud_root_components_to_add = cloud_to_add\<rparr>))))))))))"

section \<open>Parsing a deployment\<close>

text \<open>The loop from the end of the ARN: \<open>i\<close> is the number of bytes that are left to look at.\<close>

fun arn_locations :: "buffer \<Rightarrow> nat \<Rightarrow> nat \<Rightarrow> nat \<Rightarrow> nat \<times> nat" where
  "arn_locations arn 0 slash_index last_colon_index = (slash_index, last_colon_index)"
| "arn_locations arn (Suc i) slash_index last_colon_index =
     (let last_colon_index =
            (if arn ! i = of_char (CHR '':'') \<and> last_colon_index = 0 then i else last_colon_index);
          slash_index = (if arn ! i = of_char (CHR ''/'') then i else slash_index) in
      if slash_index \<noteq> 0 \<and> last_colon_index \<noteq> 0 then (slash_index, last_colon_index)
      else arn_locations arn i slash_index last_colon_index)"

definition get_slash_and_colon_locations_from_arn :: "buffer \<Rightarrow> nat \<times> nat" where
  "get_slash_and_colon_locations_from_arn arn = arn_locations arn (length arn) 0 0"

definition deployment_schema :: "GglMapSchemaEntry list" where
  "deployment_schema =
     [\<lparr>entry_key = GGL_STR ''recipe_directory_path'', entry_required = False, entry_type = GGL_TYPE_BUF\<rparr>,
      \<lparr>entry_key = GGL_STR ''artifacts_directory_path'', entry_required = False, entry_type = GGL_TYPE_BUF\<rparr>,
      \<lparr>entry_key = GGL_STR ''root_component_versions_to_add'', entry_required = False, entry_type = GGL_TYPE_MAP\<rparr>,
      \<lparr>entry_key = GGL_STR ''components'', entry_required = False, entry_type = GGL_TYPE_MAP\<rparr>,
      \<lparr>entry_key = GGL_STR ''root_components_to_remove'', entry_required = False, entry_type = GGL_TYPE_LIST\<rparr>,
      \<lparr>entry_key = GGL_STR ''component_to_configuration'', entry_required = False, entry_type = GGL_TYPE_MAP\<rparr>,
      \<lparr>entry_key = GGL_STR ''deployment_id'', entry_required = False, entry_type = GGL_TYPE_BUF\<rparr>,
      \<lparr>entry_key = GGL_STR ''configurationArn'', entry_required = False, entry_type = GGL_TYPE_BUF\<rparr>]"

text \<open>\<open>uuid\<close> is the identifier that is generated if there is none (\<^verbatim>\<open>uuid_generate_random\<close>).\<close>

definition parse_deployment_obj :: "buffer \<Rightarrow> GglMap \<Rightarrow> deployment res" where
  "parse_deployment_obj uuid args =
     (case ggl_map_validate args deployment_schema of
        Abort \<Rightarrow> Abort
      | Fail e \<Rightarrow> Fail GGL_ERR_INVALID
      | Ret [recipe_path, artifacts_path, to_add, cloud_to_add, to_remove, to_config, ident, arn] \<Rightarrow>
          (let doc = empty_deployment;
               doc = (case recipe_path of None \<Rightarrow> doc | Some v \<Rightarrow> doc\<lparr>recipe_directory_path := obj_buf v\<rparr>);
               doc = (case artifacts_path of None \<Rightarrow> doc | Some v \<Rightarrow> doc\<lparr>artifacts_directory_path := obj_buf v\<rparr>);
               doc = (case to_add of None \<Rightarrow> doc | Some v \<Rightarrow> doc\<lparr>root_component_versions_to_add := obj_map v\<rparr>);
               doc = (case cloud_to_add of None \<Rightarrow> doc | Some v \<Rightarrow> doc\<lparr>cloud_root_components_to_add := obj_map v\<rparr>);
               doc = (case to_remove of None \<Rightarrow> doc | Some v \<Rightarrow> doc\<lparr>root_components_to_remove := obj_list v\<rparr>);
               doc = (case to_config of None \<Rightarrow> doc | Some v \<Rightarrow> doc\<lparr>component_to_configuration := obj_map v\<rparr>);
               doc = doc\<lparr>deployment_id := (case ident of None \<Rightarrow> uuid | Some v \<Rightarrow> obj_buf v)\<rparr> in
           Ret (case arn of
                  None \<Rightarrow> doc\<lparr>thing_group := GGL_STR ''LOCAL_DEPLOYMENTS''\<rparr>
                | Some v \<Rightarrow>
                    (case get_slash_and_colon_locations_from_arn (obj_buf v) of (slash_index, last_colon_index) \<Rightarrow>
                       doc\<lparr>configuration_arn := ggl_buffer_substr (obj_buf v) 0 last_colon_index,
                           thing_group := ggl_buffer_substr (obj_buf v) (slash_index + 1) last_colon_index\<rparr>)))
      | Ret _ \<Rightarrow> Abort)"

section \<open>The queue\<close>

definition DEPLOYMENT_QUEUE_SIZE :: nat where
  "DEPLOYMENT_QUEUE_SIZE = 10"

definition DEPLOYMENT_MEM_SIZE :: nat where
  "DEPLOYMENT_MEM_SIZE = 5000"

record deployment_queue =
  deployments :: "loc_deployment list"
  deployment_mem :: "buffer list"
  queue_index :: nat
  queue_count :: nat

definition slot_index :: "deployment_queue \<Rightarrow> nat \<Rightarrow> nat" where
  "slot_index q i = (queue_index q + i) mod DEPLOYMENT_QUEUE_SIZE"

text \<open>What is read through the entry of a slot.\<close>

definition slot_deployment :: "deployment_queue \<Rightarrow> nat \<Rightarrow> deployment" where
  "slot_deployment q j = fetch_deployment (deployment_mem q ! j) (deployments q ! j)"

fun matching_from :: "deployment_queue \<Rightarrow> buffer \<Rightarrow> nat list \<Rightarrow> nat option" where
  "matching_from q ident [] = None"
| "matching_from q ident (i # is) =
     (if ggl_buffer_eq ident (deployment_id (slot_deployment q (slot_index q i))) then Some (slot_index q i)
      else matching_from q ident is)"

definition get_matching_deployment :: "deployment_queue \<Rightarrow> buffer \<Rightarrow> nat option" where
  "get_matching_deployment q ident = matching_from q ident [0..<queue_count q]"

text \<open>The copy of the new deployment into the slot \<open>index\<close>. A copy that fails has written to the memory of
  the slot all the same.\<close>

definition store_deployment :: "deployment \<Rightarrow> nat \<Rightarrow> (deployment_queue, unit) io" where
  "store_deployment d index q =
     (case deep_copy_deployment d (ggl_bump_alloc_init (deployment_mem q ! index)) of
        (r, balloc) \<Rightarrow>
          (let q = q\<lparr>deployment_mem := (deployment_mem q)[index := bump_buf balloc]\<rparr> in
           case r of
             Ret new \<Rightarrow> (Ret (), q\<lparr>deployments := (deployments q)[index := new]\<rparr>)
           | Fail e \<Rightarrow> (Fail e, q)
           | Abort \<Rightarrow> (Abort, q)))"

text \<open>\<open>id_vec\<close> is the vector the identifier is appended to, if the caller gives one; it is returned.\<close>

definition ggl_deployment_enqueue ::
  "buffer \<Rightarrow> GglMap \<Rightarrow> byte vec option \<Rightarrow> deployment_queue \<Rightarrow> unit res \<times> byte vec option \<times> deployment_queue" where
  "ggl_deployment_enqueue uuid deployment_doc id_vec q =
     (case parse_deployment_obj uuid deployment_doc of
        Fail e \<Rightarrow> (Fail e, id_vec, q)
      | Abort \<Rightarrow> (Abort, id_vec, q)
      | Ret new \<Rightarrow>
          (case (case id_vec of
                   None \<Rightarrow> (GGL_ERR_OK, None)
                 | Some v \<Rightarrow> (case ggl_byte_vec_append v (deployment_id new) of (ret, v) \<Rightarrow> (ret, Some v))) of
             (ret, id_vec) \<Rightarrow>
               if ret \<noteq> GGL_ERR_OK then (Fail ret, id_vec, q)
               else
                 (case get_matching_deployment q (deployment_id new) of
                    Some index \<Rightarrow>
                      if deployment_state (deployments q ! index) \<noteq> GGL_DEPLOYMENT_QUEUED then
                        (Fail GGL_ERR_FAILURE, id_vec, q)
                      else (case store_deployment new index q of (r, q) \<Rightarrow> (r, id_vec, q))
                  | None \<Rightarrow>
                      if queue_count q \<ge> DEPLOYMENT_QUEUE_SIZE then (Fail GGL_ERR_BUSY, id_vec, q)
                      else
                        (case store_deployment new (slot_index q (queue_count q))
                            (q\<lparr>queue_count := queue_count q + 1\<rparr>) of
                           (r, q) \<Rightarrow> (r, id_vec, q)))))"

text \<open>\<open>None\<close>: the routine waits for a deployment. The deployment is returned as its slot.\<close>

definition ggl_deployment_dequeue :: "deployment_queue \<Rightarrow> (nat \<times> deployment_queue) option" where
  "ggl_deployment_dequeue q =
     (if queue_count q = 0 then None
      else Some (queue_index q,
        q\<lparr>deployments := (deployments q)[queue_index q :=
            (deployments q ! queue_index q)\<lparr>deployment_state := GGL_DEPLOYMENT_IN_PROGRESS\<rparr>]\<rparr>))"

text \<open>A release takes no lock, so that its two assignments are steps of their own: other threads can run between
  them. Each of them is taken to be indivisible.\<close>

definition release_count :: "nat \<Rightarrow> (deployment_queue, unit) io" where
  "release_count slot q =
     (if slot \<noteq> queue_index q then (Abort, q) else (Ret (), q\<lparr>queue_count := size_sub (queue_count q) 1\<rparr>))"

definition release_index :: "deployment_queue \<Rightarrow> deployment_queue" where
  "release_index q = q\<lparr>queue_index := (queue_index q + 1) mod DEPLOYMENT_QUEUE_SIZE\<rparr>"

definition ggl_deployment_release :: "nat \<Rightarrow> (deployment_queue, unit) io" where
  "ggl_deployment_release slot = io_bind (release_count slot) (\<lambda>_. io_do release_index)"

section \<open>A copied deployment reads back\<close>

text \<open>A routine that stores a value, to be read by \<open>rd\<close> as long as the allocator only grows.\<close>

definition stores :: "(GglBumpAlloc, 'l) io \<Rightarrow> (buffer \<Rightarrow> 'l \<Rightarrow> 'v) \<Rightarrow> 'v \<Rightarrow> bool" where
  "stores m rd v \<longleftrightarrow> (\<forall>a l a'. bump_inv a \<longrightarrow> m a = (Ret l, a') \<longrightarrow>
     grows a a' \<and> (\<forall>c. grows a' c \<longrightarrow> rd (bump_buf c) l = v))"

lemma storesD:
  assumes "stores m rd v" "bump_inv a" "m a = (Ret l, a')"
  shows "grows a a'" "grows a' c \<Longrightarrow> rd (bump_buf c) l = v"
  using assms unfolding stores_def by blast+

lemma grows_inv: "grows a b \<Longrightarrow> bump_inv b"
  by (simp add: grows_def)

lemma stores_copy_bytes:
  assumes "length bs + 8 \<le> PTRDIFF_MAX" "n \<le> length bs"
  shows "stores (io_bind (copy_bytes bs) (\<lambda>p. io_res (Ret (p, n)))) fetch_buf (take n bs)"
  unfolding stores_def
proof (intro allI impI)
  fix a l a' assume a: "bump_inv a" "io_bind (copy_bytes bs) (\<lambda>p. io_res (Ret (p, n))) a = (Ret l, a')"
  then obtain p where c: "copy_bytes bs a = (Ret p, a')" and l: "l = (p, n)" by (auto simp: io_simps)
  note cp = copy_bytes_Ret [OF a(1) assms(1) c]
  have "fetch_buf (bump_buf c) l = take n bs" if "grows a' c" for c
  proof -
    have "fetch_buf (bump_buf c) (p, length bs) = bs"
      using that cp fetch_buf_stable [of "bump_index a'" "bump_buf c" "bump_buf a'" "(p, length bs)"]
      by (simp add: grows_def)
    then have "take n bs = take n (take (length bs) (drop p (bump_buf c)))" by (simp add: fetch_buf_def)
    with assms(2) show ?thesis by (simp add: fetch_buf_def l min_def)
  qed
  with cp(1) show "grows a a' \<and> (\<forall>c. grows a' c \<longrightarrow> fetch_buf (bump_buf c) l = take n bs)" by blast
qed

lemma stores_nothing: "stores (io_res (Ret (0, 0))) fetch_buf []"
  by (auto simp: stores_def grows_refl fetch_buf_def)

lemma stores_buf: "length b + 8 \<le> PTRDIFF_MAX \<Longrightarrow> stores (deep_copy_buf b) fetch_buf b"
  using stores_copy_bytes [of b "length b"] stores_nothing by (cases "b = []") (simp_all add: deep_copy_buf_def)

lemma stores_path: "length b + 9 \<le> PTRDIFF_MAX \<Longrightarrow> stores (null_terminate_buffer b) fetch_buf b"
  using stores_copy_bytes [of "b @ [0]" "length b"] stores_nothing
  by (cases "b = []") (simp_all add: null_terminate_buffer_def)

lemma stores_obj: "obj_fits v \<Longrightarrow> stores (ggl_obj_deep_copy v) fetch v"
  unfolding stores_def
proof (intro allI impI)
  fix a l a' assume v: "obj_fits v" and a: "bump_inv a" "ggl_obj_deep_copy v a = (Ret l, a')"
  from good_copyD [OF deep_copy_good [OF v] a] have "copied a a' (regions l)" "fetch (bump_buf a') l = v" by auto
  then show "grows a a' \<and> (\<forall>c. grows a' c \<longrightarrow> fetch (bump_buf c) l = v)"
    using copied_stable [of a a' l] by (auto simp: copied_def)
qed

definition deployment_fits :: "deployment \<Rightarrow> bool" where
  "deployment_fits d \<longleftrightarrow> length (deployment_id d) + 9 \<le> PTRDIFF_MAX \<and>
     length (recipe_directory_path d) + 9 \<le> PTRDIFF_MAX \<and> length (artifacts_directory_path d) + 9 \<le> PTRDIFF_MAX \<and>
     length (configuration_arn d) + 9 \<le> PTRDIFF_MAX \<and> length (thing_group d) + 9 \<le> PTRDIFF_MAX \<and>
     obj_fits (OBJ_MAP (root_component_versions_to_add d)) \<and> obj_fits (OBJ_MAP (cloud_root_components_to_add d)) \<and>
     obj_fits (OBJ_LIST (root_components_to_remove d)) \<and> obj_fits (OBJ_MAP (component_to_configuration d))"

lemma deployment_stores:
  assumes "deployment_fits d"
  shows "stores (deep_copy_buf (deployment_id d)) fetch_buf (deployment_id d)"
    "stores (null_terminate_buffer (recipe_directory_path d)) fetch_buf (recipe_directory_path d)"
    "stores (null_terminate_buffer (artifacts_directory_path d)) fetch_buf (artifacts_directory_path d)"
    "stores (ggl_obj_deep_copy (OBJ_MAP (root_component_versions_to_add d))) fetch (OBJ_MAP (root_component_versions_to_add d))"
    "stores (ggl_obj_deep_copy (OBJ_MAP (cloud_root_components_to_add d))) fetch (OBJ_MAP (cloud_root_components_to_add d))"
    "stores (ggl_obj_deep_copy (OBJ_LIST (root_components_to_remove d))) fetch (OBJ_LIST (root_components_to_remove d))"
    "stores (ggl_obj_deep_copy (OBJ_MAP (component_to_configuration d))) fetch (OBJ_MAP (component_to_configuration d))"
    "stores (deep_copy_buf (configuration_arn d)) fetch_buf (configuration_arn d)"
    "stores (deep_copy_buf (thing_group d)) fetch_buf (thing_group d)"
  using assms unfolding deployment_fits_def
  by (simp_all add: stores_buf stores_path stores_obj del: obj_fits.simps ggl_obj_deep_copy.simps)

lemma deep_copy_deployment_Ret:
  assumes "deployment_fits d" "bump_inv a" "deep_copy_deployment d a = (Ret l, a')"
  shows "grows a a' \<and> fetch_deployment (bump_buf a') l = d"
proof -
  from assms(3) obtain i a1 r a2 p a3 t a4 c a5 x a6 g a7 n a8 h where
    1: "deep_copy_buf (deployment_id d) a = (Ret i, a1)" and
    2: "null_terminate_buffer (recipe_directory_path d) a1 = (Ret r, a2)" and
    3: "null_terminate_buffer (artifacts_directory_path d) a2 = (Ret p, a3)" and
    4: "ggl_obj_deep_copy (OBJ_MAP (root_component_versions_to_add d)) a3 = (Ret t, a4)" and
    5: "ggl_obj_deep_copy (OBJ_MAP (cloud_root_components_to_add d)) a4 = (Ret c, a5)" and
    6: "ggl_obj_deep_copy (OBJ_LIST (root_components_to_remove d)) a5 = (Ret x, a6)" and
    7: "ggl_obj_deep_copy (OBJ_MAP (component_to_configuration d)) a6 = (Ret g, a7)" and
    8: "deep_copy_buf (configuration_arn d) a7 = (Ret n, a8)" and
    9: "deep_copy_buf (thing_group d) a8 = (Ret h, a')" and
    l: "l = \<lparr>deployment_id = i, recipe_directory_path = r, artifacts_directory_path = p, configuration_arn = n,
        thing_group = h, root_component_versions_to_add = t, root_components_to_remove = x,
        component_to_configuration = g, deployment_state = deployment_state d, cloud_root_components_to_add = c\<rparr>"
    unfolding deep_copy_deployment_def io_simps by auto
  note f = deployment_stores [OF assms(1)]
  note s1 = storesD [OF f(1) assms(2) 1]
  note s2 = storesD [OF f(2) grows_inv [OF s1(1)] 2]
  note s3 = storesD [OF f(3) grows_inv [OF s2(1)] 3]
  note s4 = storesD [OF f(4) grows_inv [OF s3(1)] 4]
  note s5 = storesD [OF f(5) grows_inv [OF s4(1)] 5]
  note s6 = storesD [OF f(6) grows_inv [OF s5(1)] 6]
  note s7 = storesD [OF f(7) grows_inv [OF s6(1)] 7]
  note s8 = storesD [OF f(8) grows_inv [OF s7(1)] 8]
  note s9 = storesD [OF f(9) grows_inv [OF s8(1)] 9]
  note t9 = grows_refl [OF grows_inv [OF s9(1)]]
  note t8 = grows_trans [OF s9(1) t9]
  note t7 = grows_trans [OF s8(1) t8]
  note t6 = grows_trans [OF s7(1) t7]
  note t5 = grows_trans [OF s6(1) t6]
  note t4 = grows_trans [OF s5(1) t5]
  note t3 = grows_trans [OF s4(1) t4]
  note t2 = grows_trans [OF s3(1) t3]
  note t1 = grows_trans [OF s2(1) t2]
  have "fetch_deployment (bump_buf a') l = d"
    unfolding fetch_deployment_def l
    by (simp add: s1(2) [OF t1] s2(2) [OF t2] s3(2) [OF t3] s4(2) [OF t4] s5(2) [OF t5] s6(2) [OF t6]
        s7(2) [OF t7] s8(2) [OF t8] s9(2) [OF t9])
  with grows_trans [OF s1(1) t1] show ?thesis by simp
qed

section \<open>The ring as a list\<close>

definition queue_inv :: "deployment_queue \<Rightarrow> bool" where
  "queue_inv q \<longleftrightarrow> length (deployments q) = DEPLOYMENT_QUEUE_SIZE \<and>
     length (deployment_mem q) = DEPLOYMENT_QUEUE_SIZE \<and>
     (\<forall>m \<in> set (deployment_mem q). length m = DEPLOYMENT_MEM_SIZE) \<and>
     queue_index q < DEPLOYMENT_QUEUE_SIZE \<and> queue_count q \<le> DEPLOYMENT_QUEUE_SIZE"

definition queue_view :: "deployment_queue \<Rightarrow> deployment list" where
  "queue_view q = map (\<lambda>i. slot_deployment q (slot_index q i)) [0..<queue_count q]"

text \<open>The list operation that enqueueing implements: a queued deployment with the same identifier is
  replaced in its place, one in progress is not.\<close>

fun replace_deployment :: "deployment \<Rightarrow> deployment list \<Rightarrow> deployment list res option" where
  "replace_deployment d [] = None"
| "replace_deployment d (x # xs) =
     (if deployment_id x = deployment_id d then
        Some (if deployment_state x = GGL_DEPLOYMENT_QUEUED then Ret (d # xs) else Fail GGL_ERR_FAILURE)
      else map_option (\<lambda>r. res_bind r (\<lambda>ys. Ret (x # ys))) (replace_deployment d xs))"

definition enqueue_spec :: "deployment \<Rightarrow> deployment list \<Rightarrow> deployment list res" where
  "enqueue_spec d ds =
     (case replace_deployment d ds of
        Some r \<Rightarrow> r
      | None \<Rightarrow> if length ds \<ge> DEPLOYMENT_QUEUE_SIZE then Fail GGL_ERR_BUSY else Ret (ds @ [d]))"

lemma slot_index_less: "slot_index q i < DEPLOYMENT_QUEUE_SIZE"
  by (simp add: slot_index_def DEPLOYMENT_QUEUE_SIZE_def)

lemma mod_add_inj:
  assumes "(a + i) mod n = (a + j) mod n" "i < n" "j < (n :: nat)"
  shows "i = j"
  using assms
proof (induction i j rule: linorder_wlog)
  case (le i j)
  then have "n dvd j - i" using mod_eq_dvd_iff_nat [of "a + i" "a + j" n] by simp
  with le have "j - i = 0" by (metis dvd_imp_le gr0I less_imp_diff_less not_le)
  with le show ?case by simp
next
  case (sym i j)
  then show ?case by simp
qed

lemma slot_index_inj:
  assumes "i < DEPLOYMENT_QUEUE_SIZE" "j < DEPLOYMENT_QUEUE_SIZE" "slot_index q i = slot_index q j"
  shows "i = j"
  using mod_add_inj assms unfolding slot_index_def by blast

lemma length_queue_view [simp]: "length (queue_view q) = queue_count q"
  by (simp add: queue_view_def)

lemma nth_queue_view: "i < queue_count q \<Longrightarrow> queue_view q ! i = slot_deployment q (slot_index q i)"
  by (simp add: queue_view_def)

lemma queue_view_eqI:
  assumes "length ds = queue_count q" "\<And>i. i < queue_count q \<Longrightarrow> slot_deployment q (slot_index q i) = ds ! i"
  shows "queue_view q = ds"
  using assms by (intro nth_equalityI) (simp_all add: nth_queue_view)

lemma matching_from_upt:
  "case matching_from q ident [k..<n] of
     None \<Rightarrow> \<forall>i. k \<le> i \<and> i < n \<longrightarrow> deployment_id (slot_deployment q (slot_index q i)) \<noteq> ident
   | Some j \<Rightarrow> \<exists>i. k \<le> i \<and> i < n \<and> j = slot_index q i \<and> deployment_id (slot_deployment q j) = ident \<and>
       (\<forall>l. k \<le> l \<and> l < i \<longrightarrow> deployment_id (slot_deployment q (slot_index q l)) \<noteq> ident)"
proof (induction "n - k" arbitrary: k)
  case 0
  then have "[k..<n] = []" by simp
  with 0 show ?case by auto
next
  case (Suc m)
  then have kn: "k < n" "m = n - Suc k" by simp_all
  show ?case
  proof (cases "deployment_id (slot_deployment q (slot_index q k)) = ident")
    case True
    with kn(1) show ?thesis by (auto simp: upt_conv_Cons intro!: exI [of _ k])
  next
    case False
    have "matching_from q ident [k..<n] = matching_from q ident [Suc k..<n]"
      using False kn(1) by (simp add: upt_conv_Cons)
    with Suc.hyps(1) [OF kn(2)] False show ?thesis
      by (auto split: option.splits) (metis Suc_le_eq le_neq_implies_less Suc_leD)+
  qed
qed

lemma get_matching_cases:
  obtains (none) "get_matching_deployment q ident = None" "ident \<notin> deployment_id ` set (queue_view q)"
  | (found) i where "get_matching_deployment q ident = Some (slot_index q i)" "i < queue_count q"
      "deployment_id (queue_view q ! i) = ident" "\<forall>j < i. deployment_id (queue_view q ! j) \<noteq> ident"
proof (cases "get_matching_deployment q ident")
  case None
  with matching_from_upt [where q = q and ident = ident and k = 0 and n = "queue_count q"]
  have "\<forall>i < queue_count q. deployment_id (slot_deployment q (slot_index q i)) \<noteq> ident"
    by (simp add: get_matching_deployment_def)
  then have "ident \<notin> deployment_id ` set (queue_view q)" by (auto simp: queue_view_def)
  with None show thesis by (rule none)
next
  case (Some j)
  with matching_from_upt [where q = q and ident = ident and k = 0 and n = "queue_count q"] obtain i where "i < queue_count q" "j = slot_index q i"
    "deployment_id (slot_deployment q j) = ident"
    "\<forall>l < i. deployment_id (slot_deployment q (slot_index q l)) \<noteq> ident"
    by (auto simp: get_matching_deployment_def)
  with Some show thesis by (intro found [of i]) (auto simp: nth_queue_view)
qed

lemma replace_None: "replace_deployment d ds = None \<longleftrightarrow> deployment_id d \<notin> deployment_id ` set ds"
  by (induction ds) auto

lemma replace_found:
  assumes "i < length ds" "deployment_id (ds ! i) = deployment_id d" "\<forall>j < i. deployment_id (ds ! j) \<noteq> deployment_id d"
  shows "replace_deployment d ds =
    Some (if deployment_state (ds ! i) = GGL_DEPLOYMENT_QUEUED then Ret (ds[i := d]) else Fail GGL_ERR_FAILURE)"
  using assms
proof (induction ds arbitrary: i)
  case (Cons x xs)
  show ?case
  proof (cases i)
    case 0
    with Cons show ?thesis by simp
  next
    case (Suc k)
    have "deployment_id x \<noteq> deployment_id d" using Cons.prems(3) Suc by auto
    moreover have "\<forall>j < k. deployment_id (xs ! j) \<noteq> deployment_id d" using Cons.prems(3) Suc by auto
    ultimately show ?thesis using Cons.IH [of k] Cons.prems(1,2) Suc by simp
  qed
qed simp

lemma keeps_path: "length b + 9 \<le> PTRDIFF_MAX \<Longrightarrow> keeps (null_terminate_buffer b)"
  using keeps_copy_bytes [of "b @ [0]"] by (auto simp: null_terminate_buffer_def)

lemma deep_copy_deployment_keeps:
  assumes "deployment_fits d"
  shows "keeps (deep_copy_deployment d)"
  using assms unfolding deep_copy_deployment_def deployment_fits_def
  by (intro keeps_bind keeps_res keeps_path keeps_copy_buf deep_copy_keeps(1)) simp_all

text \<open>What the copy of a deployment takes of the memory of a slot.\<close>

definition deployment_size :: "deployment \<Rightarrow> nat" where
  "deployment_size d = length (deployment_id d) + Suc (length (recipe_directory_path d)) +
     Suc (length (artifacts_directory_path d)) + copy_size (OBJ_MAP (root_component_versions_to_add d)) +
     copy_size (OBJ_MAP (cloud_root_components_to_add d)) + copy_size (OBJ_LIST (root_components_to_remove d)) +
     copy_size (OBJ_MAP (component_to_configuration d)) + length (configuration_arn d) + length (thing_group d)"

lemma needs_path [intro]: "needs (null_terminate_buffer b) (Suc (length b))"
  using needs_copy_bytes [of "b @ [0]"] by (auto simp: null_terminate_buffer_def needs_def)

lemma deep_copy_deployment_needs: "needs (deep_copy_deployment d) (deployment_size d)"
  unfolding deep_copy_deployment_def deployment_size_def add.assoc
  by (intro needs_bind needs_bind_res needs_copy_buf needs_path deep_copy_needs(1))

lemma store_deployment_enough:
  assumes "queue_inv q" "j < DEPLOYMENT_QUEUE_SIZE" "deployment_size d \<le> DEPLOYMENT_MEM_SIZE"
  shows "fst (store_deployment d j q) = Ret ()"
proof -
  let ?a = "ggl_bump_alloc_init (deployment_mem q ! j)"
  have l: "length (deployment_mem q ! j) = DEPLOYMENT_MEM_SIZE" using assms(1,2) by (simp add: queue_inv_def)
  obtain x a' where "deep_copy_deployment d ?a = (Ret x, a')"
    by (rule needsD [OF deep_copy_deployment_needs [of d], of ?a])
      (use l assms(3) in \<open>auto simp: bump_inv_def ggl_bump_alloc_init_def fits_def DEPLOYMENT_MEM_SIZE_def PTRDIFF_MAX_def\<close>)
  then show ?thesis by (simp add: store_deployment_def)
qed

lemma store_deployment_cases:
  assumes "queue_inv q" "j < DEPLOYMENT_QUEUE_SIZE" "deployment_fits d" "store_deployment d j q = (r, q')"
  shows "queue_inv q' \<and> queue_index q' = queue_index q \<and> queue_count q' = queue_count q \<and>
    (\<forall>k. k \<noteq> j \<longrightarrow> slot_deployment q' k = slot_deployment q k) \<and>
    (r = Ret () \<and> slot_deployment q' j = d \<or> r = Fail GGL_ERR_NOMEM \<and> DEPLOYMENT_MEM_SIZE < deployment_size d)"
proof -
  let ?a = "ggl_bump_alloc_init (deployment_mem q ! j)"
  obtain r1 a' where c: "deep_copy_deployment d ?a = (r1, a')" by fastforce
  have "length (deployment_mem q ! j) = DEPLOYMENT_MEM_SIZE"
    using assms(1,2) by (simp add: queue_inv_def)
  then have inv: "bump_inv ?a"
    by (simp add: bump_inv_def ggl_bump_alloc_init_def fits_def DEPLOYMENT_MEM_SIZE_def PTRDIFF_MAX_def)
  have k: "grows ?a a'" "r1 \<noteq> Abort" "\<forall>e. r1 = Fail e \<longrightarrow> e = GGL_ERR_NOMEM"
    using deep_copy_deployment_keeps [OF assms(3)] inv c unfolding keeps_def by (metis fst_conv snd_conv)+
  have len: "length (bump_buf a') = DEPLOYMENT_MEM_SIZE"
    using k(1) \<open>length (deployment_mem q ! j) = _\<close> by (simp add: grows_def ggl_bump_alloc_init_def)
  then have mem: "\<forall>m \<in> set ((deployment_mem q)[j := bump_buf a']). length m = DEPLOYMENT_MEM_SIZE"
    using assms(1) by (auto simp: queue_inv_def dest!: set_update_subset_insert [THEN subsetD])
  show ?thesis
  proof (cases r1)
    case (Ret l)
    with deep_copy_deployment_Ret [OF assms(3) inv, of l a'] c have "fetch_deployment (bump_buf a') l = d" by simp
    with Ret c assms mem show ?thesis
      by (auto simp: store_deployment_def Let_def queue_inv_def slot_deployment_def)
  next
    case (Fail e)
    have "DEPLOYMENT_MEM_SIZE < deployment_size d"
      using store_deployment_enough [OF assms(1,2), of d] Fail c by (force simp: store_deployment_def Let_def)
    with Fail k(3) c assms mem show ?thesis
      by (auto simp: store_deployment_def Let_def queue_inv_def slot_deployment_def)
  qed (use k in simp)
qed

lemma queue_view_append:
  assumes "queue_inv q" "queue_count q < DEPLOYMENT_QUEUE_SIZE" "deployment_fits d"
    and "store_deployment d (slot_index q (queue_count q)) (q\<lparr>queue_count := queue_count q + 1\<rparr>) = (r, q')"
  shows "queue_inv q' \<and> (r = Ret () \<and> queue_view q' = queue_view q @ [d] \<or>
    r = Fail GGL_ERR_NOMEM \<and> DEPLOYMENT_MEM_SIZE < deployment_size d)"
proof -
  have inv: "queue_inv (q\<lparr>queue_count := queue_count q + 1\<rparr>)" using assms(1,2) by (simp add: queue_inv_def)
  note c = store_deployment_cases [OF inv slot_index_less assms(3,4)]
  have "queue_view q' = queue_view q @ [d]" if "r = Ret ()"
  proof (rule queue_view_eqI)
    show "length (queue_view q @ [d]) = queue_count q'" using c by simp
    fix i assume i: "i < queue_count q'"
    have s: "slot_index q' i = slot_index q i" using c by (simp add: slot_index_def)
    have "slot_index q i \<noteq> slot_index q (queue_count q)" if "i < queue_count q"
      using slot_index_inj [of i "queue_count q" q] that assms(2) by auto
    then show "slot_deployment q' (slot_index q' i) = (queue_view q @ [d]) ! i"
      using c i \<open>r = Ret ()\<close> s
      by (cases "i = queue_count q") (auto simp: nth_append nth_queue_view slot_deployment_def)
  qed
  with c show ?thesis by blast
qed

lemma queue_view_replace:
  assumes "queue_inv q" "i < queue_count q" "deployment_fits d"
    and "store_deployment d (slot_index q i) q = (r, q')"
  shows "queue_inv q' \<and> (r = Ret () \<and> queue_view q' = (queue_view q)[i := d] \<or>
    r = Fail GGL_ERR_NOMEM \<and> DEPLOYMENT_MEM_SIZE < deployment_size d)"
proof -
  note c = store_deployment_cases [OF assms(1) slot_index_less assms(3,4)]
  have "queue_view q' = (queue_view q)[i := d]" if "r = Ret ()"
  proof (rule queue_view_eqI)
    show "length ((queue_view q)[i := d]) = queue_count q'" using c by simp
    fix k assume k: "k < queue_count q'"
    have s: "slot_index q' k = slot_index q k" using c by (simp add: slot_index_def)
    have "slot_index q k \<noteq> slot_index q i" if "k \<noteq> i"
      using slot_index_inj [of k i q] that k c assms(1,2) by (auto simp: queue_inv_def)
    then show "slot_deployment q' (slot_index q' k) = (queue_view q)[i := d] ! k"
      using c k s assms(2) \<open>r = Ret ()\<close> by (cases "k = i") (auto simp: nth_queue_view)
  qed
  with c show ?thesis by blast
qed

lemma enqueue_refines:
  assumes "queue_inv q" "parse_deployment_obj uuid doc = Ret d" "deployment_fits d"
    and "ggl_deployment_enqueue uuid doc None q = (r, id_vec, q')"
  shows "queue_inv q' \<and> r \<noteq> Abort \<and> (r = Fail GGL_ERR_NOMEM \<longrightarrow> DEPLOYMENT_MEM_SIZE < deployment_size d) \<and>
    (r \<noteq> Fail GGL_ERR_NOMEM \<longrightarrow>
      (case enqueue_spec d (queue_view q) of
         Ret ds \<Rightarrow> r = Ret () \<and> queue_view q' = ds
       | Fail e \<Rightarrow> r = Fail e \<and> q' = q
       | Abort \<Rightarrow> False))"
proof (cases rule: get_matching_cases [of q "deployment_id d"])
  case none
  then have spec: "enqueue_spec d (queue_view q) =
      (if queue_count q \<ge> DEPLOYMENT_QUEUE_SIZE then Fail GGL_ERR_BUSY else Ret (queue_view q @ [d]))"
    using replace_None [of d "queue_view q"] by (simp add: enqueue_spec_def)
  show ?thesis
  proof (cases "queue_count q \<ge> DEPLOYMENT_QUEUE_SIZE")
    case True
    with none spec assms show ?thesis by (auto simp: ggl_deployment_enqueue_def)
  next
    case False
    have "store_deployment d (slot_index q (queue_count q)) (q\<lparr>queue_count := queue_count q + 1\<rparr>) = (r, q')"
      using none(1) False assms(2,4) by (simp add: ggl_deployment_enqueue_def split: prod.splits)
    from queue_view_append [OF assms(1) _ assms(3) this] spec False show ?thesis by auto
  qed
next
  case (found i)
  have spec: "enqueue_spec d (queue_view q) =
      (if deployment_state (queue_view q ! i) = GGL_DEPLOYMENT_QUEUED then Ret ((queue_view q)[i := d])
       else Fail GGL_ERR_FAILURE)"
    using replace_found [of i "queue_view q" d] found by (simp add: enqueue_spec_def)
  have state: "deployment_state (queue_view q ! i) = deployment_state (deployments q ! slot_index q i)"
    using found(2) by (simp add: nth_queue_view slot_deployment_def fetch_deployment_def)
  show ?thesis
  proof (cases "deployment_state (deployments q ! slot_index q i) = GGL_DEPLOYMENT_QUEUED")
    case False
    with found spec state assms show ?thesis by (auto simp: ggl_deployment_enqueue_def)
  next
    case True
    have "store_deployment d (slot_index q i) q = (r, q')"
      using found(1) True assms(2,4) by (simp add: ggl_deployment_enqueue_def split: prod.splits)
    from queue_view_replace [OF assms(1) found(2) assms(3) this] spec state True show ?thesis by auto
  qed
qed

text \<open>The vector that takes the identifier: whether it has room, and what it holds afterwards.\<close>

definition id_fits :: "byte vec option \<Rightarrow> buffer \<Rightarrow> bool" where
  "id_fits id_vec ident \<longleftrightarrow> (case id_vec of None \<Rightarrow> True | Some v \<Rightarrow> length (vec_items v) + length ident \<le> vec_capacity v)"

definition id_added :: "byte vec option \<Rightarrow> buffer \<Rightarrow> byte vec option" where
  "id_added id_vec ident = map_option (\<lambda>v. v\<lparr>vec_items := vec_items v @ ident\<rparr>) id_vec"

lemma enqueue_id:
  assumes "pred_option vec_inv id_vec" "parse_deployment_obj uuid doc = Ret d"
  shows "ggl_deployment_enqueue uuid doc id_vec q =
    (if \<not> id_fits id_vec (deployment_id d) then (Fail GGL_ERR_NOMEM, id_vec, q)
     else case ggl_deployment_enqueue uuid doc None q of (r, _, q') \<Rightarrow> (r, id_added id_vec (deployment_id d), q'))"
proof (cases id_vec)
  case None
  then show ?thesis using assms(2)
    by (auto simp: ggl_deployment_enqueue_def id_fits_def id_added_def split: option.splits prod.splits)
next
  case (Some v)
  have "ggl_byte_vec_append v i =
      (if length (vec_items v) + length i \<le> vec_capacity v then (GGL_ERR_OK, v\<lparr>vec_items := vec_items v @ i\<rparr>) else (GGL_ERR_NOMEM, v))" for i
    using assms(1) Some by (simp add: ggl_byte_vec_append_def vec_append_iff)
  with Some assms(2) show ?thesis
    by (auto simp: ggl_deployment_enqueue_def id_fits_def id_added_def split: option.splits prod.splits)
qed

text \<open>C10: enqueueing a deployment is the operation on the list of deployments, as long as the memory of a
  slot suffices: it replaces a queued deployment of the same identifier, refuses to replace one that is
  in progress, refuses if the queue is full, and otherwise appends. The identifier is appended to the
  vector that the caller gives, also if the deployment is then refused; if that vector has no room for
  it, nothing is changed. Memory runs out only if the identifier does not fit into the vector or the
  deployment is larger than a slot. The invariant of the queue is kept in any case.\<close>

theorem ggl_deployment_enqueue_refines:
  assumes "queue_inv q" "parse_deployment_obj uuid doc = Ret d" "deployment_fits d" "pred_option vec_inv id_vec"
    and "ggl_deployment_enqueue uuid doc id_vec q = (r, id_vec', q')"
  shows "if \<not> id_fits id_vec (deployment_id d) then r = Fail GGL_ERR_NOMEM \<and> id_vec' = id_vec \<and> q' = q
    else id_vec' = id_added id_vec (deployment_id d) \<and> queue_inv q' \<and> r \<noteq> Abort \<and>
      (r = Fail GGL_ERR_NOMEM \<longrightarrow> DEPLOYMENT_MEM_SIZE < deployment_size d) \<and>
      (r \<noteq> Fail GGL_ERR_NOMEM \<longrightarrow>
        (case enqueue_spec d (queue_view q) of
           Ret ds \<Rightarrow> r = Ret () \<and> queue_view q' = ds
         | Fail e \<Rightarrow> r = Fail e \<and> q' = q
         | Abort \<Rightarrow> False))"
proof (cases "id_fits id_vec (deployment_id d)")
  case True
  with assms(5) have "\<exists>j. ggl_deployment_enqueue uuid doc None q = (r, j, q')" "id_vec' = id_added id_vec (deployment_id d)"
    by (auto simp: enqueue_id [OF assms(4,2)] split: prod.splits)
  with True enqueue_refines [OF assms(1-3)] show ?thesis by auto
qed (use assms(5) enqueue_id [OF assms(4,2)] in simp)

text \<open>Taking the head, and releasing it.\<close>

lemma slot_index_0: "queue_inv q \<Longrightarrow> slot_index q 0 = queue_index q"
  by (simp add: slot_index_def queue_inv_def)

lemma dequeue_view:
  assumes "queue_inv q" "queue_view q = d # ds"
  obtains q' where "ggl_deployment_dequeue q = Some (queue_index q, q')" "queue_inv q'"
    "queue_view q' = d\<lparr>deployment_state := GGL_DEPLOYMENT_IN_PROGRESS\<rparr> # ds" "queue_index q' = queue_index q"
    "slot_deployment q' (queue_index q) = d\<lparr>deployment_state := GGL_DEPLOYMENT_IN_PROGRESS\<rparr>"
proof -
  let ?i = "queue_index q"
  let ?q = "q\<lparr>deployments := (deployments q)[?i :=
      (deployments q ! ?i)\<lparr>deployment_state := GGL_DEPLOYMENT_IN_PROGRESS\<rparr>]\<rparr>"
  have n: "queue_count q = Suc (length ds)" using assms(2) length_queue_view [of q] by simp
  have i: "?i < length (deployments q)" using assms(1) by (simp add: queue_inv_def)
  have d: "slot_deployment q ?i = d"
    using assms(2) nth_queue_view [of 0 q] n slot_index_0 [OF assms(1)] by simp
  then have head: "slot_deployment ?q ?i = d\<lparr>deployment_state := GGL_DEPLOYMENT_IN_PROGRESS\<rparr>"
    using i by (auto simp: slot_deployment_def fetch_deployment_def)
  have "queue_view ?q = d\<lparr>deployment_state := GGL_DEPLOYMENT_IN_PROGRESS\<rparr> # ds"
  proof (rule queue_view_eqI)
    show "length (d\<lparr>deployment_state := GGL_DEPLOYMENT_IN_PROGRESS\<rparr> # ds) = queue_count ?q" using n by simp
    fix k assume k: "k < queue_count ?q"
    have s: "slot_index ?q k = slot_index q k" by (simp add: slot_index_def)
    show "slot_deployment ?q (slot_index ?q k) = (d\<lparr>deployment_state := GGL_DEPLOYMENT_IN_PROGRESS\<rparr> # ds) ! k"
    proof (cases k)
      case 0
      with head s slot_index_0 [OF assms(1)] show ?thesis by simp
    next
      case (Suc m)
      have "slot_index q k \<noteq> ?i"
        using slot_index_inj [of k 0 q] slot_index_0 [OF assms(1)] Suc k assms(1)
        by (auto simp: queue_inv_def DEPLOYMENT_QUEUE_SIZE_def)
      moreover have "slot_deployment q (slot_index q k) = ds ! m"
        using nth_queue_view [of k q] assms(2) k Suc by simp
      ultimately show ?thesis using s Suc by (simp add: slot_deployment_def)
    qed
  qed
  moreover have "queue_inv ?q" using assms(1) by (simp add: queue_inv_def)
  ultimately show thesis using head n by (intro that [of ?q]) (simp_all add: ggl_deployment_dequeue_def)
qed

text \<open>The halves of a release: the last entry leaves the view, then the view moves on by one slot.\<close>

lemma release_count_view:
  assumes "queue_inv q" "queue_view q \<noteq> []"
  obtains q' where "release_count (queue_index q) q = (Ret (), q')" "queue_inv q'" "queue_view q' = butlast (queue_view q)"
    "queue_index q' = queue_index q" "slot_deployment q' = slot_deployment q"
proof -
  let ?q = "q\<lparr>queue_count := size_sub (queue_count q) 1\<rparr>"
  have n: "0 < queue_count q" using assms(2) length_queue_view [of q] by (metis length_greater_0_conv)
  then have c: "queue_count ?q = queue_count q - 1"
    using assms(1) by (simp add: queue_inv_def DEPLOYMENT_QUEUE_SIZE_def SIZE_MAX_def)
  have sd: "slot_deployment ?q = slot_deployment q" by (simp add: slot_deployment_def fun_eq_iff)
  have "queue_view ?q = butlast (queue_view q)"
    by (rule queue_view_eqI) (use c n in \<open>simp_all add: nth_butlast nth_queue_view slot_deployment_def slot_index_def\<close>)
  moreover have "queue_inv ?q" using assms(1) c by (auto simp: queue_inv_def)
  ultimately show thesis using sd by (intro that [of ?q]) (simp_all add: release_count_def)
qed

lemma release_index_view:
  assumes "queue_inv q"
  shows "queue_inv (release_index q)"
    "0 < queue_count q \<Longrightarrow> queue_view (release_index q) = tl (queue_view q) @ [slot_deployment q (slot_index q (queue_count q))]"
    "queue_count q = 0 \<Longrightarrow> queue_view (release_index q) = []"
proof -
  have s: "slot_index (release_index q) k = slot_index q (Suc k)" for k
    by (simp add: slot_index_def release_index_def mod_simps)
  have sd: "slot_deployment (release_index q) j = slot_deployment q j" for j
    by (simp add: slot_deployment_def release_index_def)
  have c: "queue_count (release_index q) = queue_count q" by (simp add: release_index_def)
  show "queue_inv (release_index q)"
    using assms by (simp add: queue_inv_def release_index_def DEPLOYMENT_QUEUE_SIZE_def)
  show "queue_view (release_index q) = tl (queue_view q) @ [slot_deployment q (slot_index q (queue_count q))]"
    if "0 < queue_count q"
  proof (rule queue_view_eqI)
    fix i assume i: "i < queue_count (release_index q)"
    show "slot_deployment (release_index q) (slot_index (release_index q) i) =
        (tl (queue_view q) @ [slot_deployment q (slot_index q (queue_count q))]) ! i"
    proof (cases "Suc i = queue_count q")
      case True
      then have "i = length (tl (queue_view q))" by simp
      with True show ?thesis by (simp add: s sd nth_append del: length_tl)
    next
      case False
      with i c have "Suc i < queue_count q" by simp
      then show ?thesis by (simp add: s sd nth_append nth_tl nth_queue_view)
    qed
  qed (use that c in simp)
  show "queue_view (release_index q) = []" if "queue_count q = 0" using that c by (simp add: queue_view_def)
qed

text \<open>With nothing between them the halves take the head away.\<close>

lemma release_halves:
  assumes "queue_inv q" "queue_view q = d # ds"
  obtains q' where "release_count (queue_index q) q = (Ret (), q')" "queue_inv q'" "queue_view (release_index q') = ds"
proof -
  from assms(2) have "queue_view q \<noteq> []" by simp
  then obtain q' where
    q': "release_count (queue_index q) q = (Ret (), q')" "queue_inv q'" "queue_view q' = butlast (queue_view q)"
      "queue_index q' = queue_index q" "slot_deployment q' = slot_deployment q"
    by (rule release_count_view [OF assms(1)])
  have n: "queue_count q' = length ds" using length_queue_view [of q'] q'(3) assms(2) by (simp split: if_splits)
  have "queue_view (release_index q') = ds"
  proof (cases "ds = []")
    case True
    with release_index_view(3) [OF q'(2)] n show ?thesis by simp
  next
    case False
    have "slot_deployment q' (slot_index q' (queue_count q')) = queue_view q ! length ds"
      using nth_queue_view [of "length ds" q] length_queue_view [of q] assms(2) n q'(4,5) by (simp add: slot_index_def)
    also have "\<dots> = last ds" using False assms(2) by (simp add: last_conv_nth nth_Cons' )
    finally show ?thesis using release_index_view(2) [OF q'(2)] n q'(3) assms(2) False by simp
  qed
  with q' show thesis by (intro that [of q'])
qed

lemma release_view:
  assumes "queue_inv q" "queue_view q = d # ds"
  obtains q' where "ggl_deployment_release (queue_index q) q = (Ret (), q')" "queue_inv q'" "queue_view q' = ds"
proof -
  from release_halves [OF assms] obtain q' where
    "release_count (queue_index q) q = (Ret (), q')" "queue_inv q'" "queue_view (release_index q') = ds" .
  with release_index_view(1) show thesis
    by (intro that [of "release_index q'"]) (simp_all add: ggl_deployment_release_def io_bind_def io_do_def)
qed

text \<open>C12: the deployments are handed out first in, first out: dequeueing gives the head of the queue, which
  is then marked as in progress and stays there until it is released, which leaves the rest. Dequeueing
  waits exactly when the queue is empty.\<close>

theorem ggl_deployment_dequeue_fifo:
  assumes "queue_inv q"
  shows "case queue_view q of
      [] \<Rightarrow> ggl_deployment_dequeue q = None
    | d # ds \<Rightarrow> \<exists>slot q1 q2. ggl_deployment_dequeue q = Some (slot, q1) \<and> queue_inv q1 \<and>
        slot_deployment q1 slot = d\<lparr>deployment_state := GGL_DEPLOYMENT_IN_PROGRESS\<rparr> \<and>
        queue_view q1 = slot_deployment q1 slot # ds \<and>
        ggl_deployment_release slot q1 = (Ret (), q2) \<and> queue_inv q2 \<and> queue_view q2 = ds"
proof (cases "queue_view q")
  case Nil
  with length_queue_view [of q] show ?thesis by (simp add: ggl_deployment_dequeue_def)
next
  case (Cons d ds)
  obtain q1 where q1: "ggl_deployment_dequeue q = Some (queue_index q, q1)" "queue_inv q1"
    "queue_view q1 = d\<lparr>deployment_state := GGL_DEPLOYMENT_IN_PROGRESS\<rparr> # ds" "queue_index q1 = queue_index q"
    "slot_deployment q1 (queue_index q) = d\<lparr>deployment_state := GGL_DEPLOYMENT_IN_PROGRESS\<rparr>"
    by (rule dequeue_view [OF assms Cons])
  obtain q2 where "ggl_deployment_release (queue_index q1) q1 = (Ret (), q2)" "queue_inv q2" "queue_view q2 = ds"
    by (rule release_view [OF q1(2,3)])
  with q1 Cons show ?thesis by auto
qed

section \<open>The deployment thread and the bus\<close>

text \<open>The handler of \<^verbatim>\<open>create_local_deployment\<close>: what it responds with, or the error that it returns.\<close>

definition create_local_deployment ::
  "buffer \<Rightarrow> GglMap \<Rightarrow> deployment_queue \<Rightarrow> GglObject res \<times> deployment_queue" where
  "create_local_deployment uuid params q =
     (case ggl_deployment_enqueue uuid params (Some \<lparr>vec_items = [], vec_capacity = 36\<rparr>) q of
        (Ret _, Some i, q) \<Rightarrow> (Ret (OBJ_BUF (vec_items i)), q)
      | (Ret _, None, q) \<Rightarrow> (Abort, q)
      | (Fail e, _, q) \<Rightarrow> (Fail e, q)
      | (Abort, _, q) \<Rightarrow> (Abort, q))"

text \<open>The thread of \<^verbatim>\<open>ggl_deployment_listen\<close> waits for a deployment, handles one, or is between the two
  assignments that release it. \<open>handled\<close> is the sequence of the deployments that it has been given.\<close>

datatype thread_phase = Waiting | Handling nat | Releasing

record deployment_thread =
  thread_queue :: deployment_queue
  thread_at :: thread_phase
  handled :: "deployment list"

definition ggl_deployment_listen :: "deployment_thread \<Rightarrow> deployment_thread res" where
  "ggl_deployment_listen t =
     (case thread_at t of
        Waiting \<Rightarrow>
          Ret (case ggl_deployment_dequeue (thread_queue t) of
                 None \<Rightarrow> t
               | Some (slot, q) \<Rightarrow>
                   t\<lparr>thread_queue := q, thread_at := Handling slot, handled := handled t @ [slot_deployment q slot]\<rparr>)
      | Handling slot \<Rightarrow>
          (case release_count slot (thread_queue t) of
             (Ret _, q) \<Rightarrow> Ret (t\<lparr>thread_queue := q, thread_at := Releasing\<rparr>)
           | (Fail e, q) \<Rightarrow> Fail e
           | (Abort, q) \<Rightarrow> Abort)
      | Releasing \<Rightarrow> Ret (t\<lparr>thread_queue := release_index (thread_queue t), thread_at := Waiting\<rparr>))"

text \<open>The thread and its clients in any order. Enqueueing holds the lock of the queue, as dequeueing does; the
  steps of a release hold none.\<close>

datatype queue_event = Thread_step | Enqueue buffer GglMap "byte vec option"

fun queue_step :: "queue_event \<Rightarrow> deployment_thread \<Rightarrow> deployment_thread res" where
  "queue_step Thread_step t = ggl_deployment_listen t"
| "queue_step (Enqueue uuid doc id_vec) t =
     (case ggl_deployment_enqueue uuid doc id_vec (thread_queue t) of
        (r, i, q) \<Rightarrow> if r = Abort then Abort else Ret (t\<lparr>thread_queue := q\<rparr>))"

fun queue_run :: "queue_event list \<Rightarrow> deployment_thread \<Rightarrow> deployment_thread res" where
  "queue_run [] t = Ret t"
| "queue_run (e # es) t = res_bind (queue_step e t) (queue_run es)"

text \<open>A document that is not accepted, or whose deployment fits into the memory of a slot.\<close>

fun event_fits :: "queue_event \<Rightarrow> bool" where
  "event_fits Thread_step \<longleftrightarrow> True"
| "event_fits (Enqueue uuid doc id_vec) \<longleftrightarrow> pred_option vec_inv id_vec \<and>
     (case parse_deployment_obj uuid doc of
        Ret d \<Rightarrow> deployment_fits d \<and> deployment_size d \<le> DEPLOYMENT_MEM_SIZE
      | Fail e \<Rightarrow> True
      | Abort \<Rightarrow> False)"

text \<open>A run in which no client enqueues between the two assignments of a release.\<close>

fun undisturbed :: "queue_event list \<Rightarrow> deployment_thread \<Rightarrow> bool" where
  "undisturbed [] t \<longleftrightarrow> True"
| "undisturbed (e # es) t \<longleftrightarrow> (thread_at t = Releasing \<longrightarrow> e = Thread_step) \<and>
     (case queue_step e t of Ret t' \<Rightarrow> undisturbed es t' | _ \<Rightarrow> True)"

definition thread_inv :: "deployment_thread \<Rightarrow> bool" where
  "thread_inv t \<longleftrightarrow> queue_inv (thread_queue t) \<and>
     (case thread_at t of
        Handling slot \<Rightarrow> slot = queue_index (thread_queue t) \<and>
          (\<exists>d ds. queue_view (thread_queue t) = d # ds \<and> deployment_state d = GGL_DEPLOYMENT_IN_PROGRESS)
      | _ \<Rightarrow> True)"

text \<open>The deployments in the queue, once a release that has begun is complete; and the number of steps of the thread
  until the one at a position is taken. \<open>awaits n x t\<close>: the deployment \<open>x\<close> has been given to the thread, or will be
  after \<open>n\<close> steps of it.\<close>

definition pending :: "deployment_thread \<Rightarrow> deployment list" where
  "pending t = queue_view (if thread_at t = Releasing then release_index (thread_queue t) else thread_queue t)"

definition steps_until :: "thread_phase \<Rightarrow> nat \<Rightarrow> nat" where
  "steps_until ph i = 3 * i + (case ph of Waiting \<Rightarrow> 1 | Handling _ \<Rightarrow> 0 | Releasing \<Rightarrow> 2)"

definition awaits :: "nat \<Rightarrow> buffer \<Rightarrow> deployment_thread \<Rightarrow> bool" where
  "awaits n x t \<longleftrightarrow> x \<in> deployment_id ` set (handled t) \<or>
     (\<exists>i. i < length (pending t) \<and> deployment_id (pending t ! i) = x \<and> n = steps_until (thread_at t) i \<and> 0 < n)"

lemma enqueue_spec_keeps:
  assumes "enqueue_spec d ds = Ret ds'"
  shows "length ds \<le> length ds'"
    "i < length ds \<Longrightarrow> deployment_id (ds' ! i) = deployment_id (ds ! i)"
    "i < length ds \<Longrightarrow> deployment_state (ds ! i) = GGL_DEPLOYMENT_IN_PROGRESS \<Longrightarrow> ds' ! i = ds ! i"
proof -
  have "length ds \<le> length ds' \<and> (\<forall>i<length ds. deployment_id (ds' ! i) = deployment_id (ds ! i) \<and>
      (deployment_state (ds ! i) = GGL_DEPLOYMENT_IN_PROGRESS \<longrightarrow> ds' ! i = ds ! i))"
  proof (cases "replace_deployment d ds")
    case None
    with assms show ?thesis by (auto simp: enqueue_spec_def nth_append split: if_splits)
  next
    case (Some r)
    have "length ds \<le> length ds' \<and> (\<forall>i<length ds. deployment_id (ds' ! i) = deployment_id (ds ! i) \<and>
      (deployment_state (ds ! i) = GGL_DEPLOYMENT_IN_PROGRESS \<longrightarrow> ds' ! i = ds ! i))"
      if "replace_deployment d ds = Some (Ret ds')"
      using that
      by (induction ds arbitrary: ds')
        (auto simp: nth_Cons res_simps split: if_splits nat.splits)
    with Some assms show ?thesis by (simp add: enqueue_spec_def)
  qed
  then show "length ds \<le> length ds'"
    "i < length ds \<Longrightarrow> deployment_id (ds' ! i) = deployment_id (ds ! i)"
    "i < length ds \<Longrightarrow> deployment_state (ds ! i) = GGL_DEPLOYMENT_IN_PROGRESS \<Longrightarrow> ds' ! i = ds ! i" by auto
qed

lemma enqueue_index:
  assumes "ggl_deployment_enqueue uuid doc i q = (r, j, q')"
  shows "queue_index q' = queue_index q"
  using assms
  by (auto simp: ggl_deployment_enqueue_def store_deployment_def Let_def
      split: res.splits prod.splits option.splits if_splits)

text \<open>What an event of a client leaves of the queue.\<close>

lemma enqueue_keeps:
  assumes "queue_inv q" "event_fits (Enqueue uuid doc id_vec)" "ggl_deployment_enqueue uuid doc id_vec q = (r, j, q')"
  shows "queue_inv q' \<and> r \<noteq> Abort \<and> queue_index q' = queue_index q \<and> queue_count q \<le> queue_count q' \<and>
    (\<forall>i<queue_count q. deployment_id (queue_view q' ! i) = deployment_id (queue_view q ! i) \<and>
      (deployment_state (queue_view q ! i) = GGL_DEPLOYMENT_IN_PROGRESS \<longrightarrow> queue_view q' ! i = queue_view q ! i))"
proof (cases "parse_deployment_obj uuid doc")
  case (Ret d)
  with assms(2) have d: "deployment_fits d" "deployment_size d \<le> DEPLOYMENT_MEM_SIZE" "pred_option vec_inv id_vec" by simp_all
  have i: "queue_index q' = queue_index q" using assms(3) by (rule enqueue_index)
  show ?thesis
  proof (cases "id_fits id_vec (deployment_id d)")
    case True
    with assms(3) obtain j' where "ggl_deployment_enqueue uuid doc None q = (r, j', q')"
      by (auto simp: enqueue_id [OF d(3) Ret] split: prod.splits)
    note e = enqueue_refines [OF assms(1) Ret d(1) this]
    show ?thesis
    proof (cases "enqueue_spec d (queue_view q)")
      case (Ret ds)
      with e d(2) have "queue_view q' = ds" by auto
      with enqueue_spec_keeps [OF Ret] e i length_queue_view [of q'] show ?thesis by auto
    qed (use e d(2) i in auto)
  qed (use assms(1,3) enqueue_id [OF d(3) Ret] in auto)
qed (use assms in \<open>auto simp: ggl_deployment_enqueue_def\<close>)

lemma awaits_enqueue:
  assumes "thread_inv t" "thread_at t \<noteq> Releasing" "event_fits (Enqueue uuid doc i)" "awaits n x t"
  obtains t' where "queue_step (Enqueue uuid doc i) t = Ret t'" "thread_inv t'" "awaits n x t'"
proof -
  obtain r j q' where e: "ggl_deployment_enqueue uuid doc i (thread_queue t) = (r, j, q')" by (metis prod_cases3)
  from assms(1) have "queue_inv (thread_queue t)" by (simp add: thread_inv_def)
  note k = enqueue_keeps [OF this assms(3) e]
  let ?t = "t\<lparr>thread_queue := q'\<rparr>"
  have "thread_inv ?t"
  proof (cases "thread_at t")
    case (Handling slot)
    with assms(1) obtain d ds where d: "queue_view (thread_queue t) = d # ds"
      "deployment_state d = GGL_DEPLOYMENT_IN_PROGRESS" "slot = queue_index (thread_queue t)"
      by (auto simp: thread_inv_def)
    then have "0 < queue_count (thread_queue t)" using length_queue_view [of "thread_queue t"] by simp
    with k d have "queue_view q' ! 0 = d" "0 < queue_count q'" by auto
    then have "\<exists>es. queue_view q' = d # es"
      using length_queue_view [of q'] by (cases "queue_view q'") auto
    with k d Handling show ?thesis by (auto simp: thread_inv_def)
  qed (use k in \<open>simp_all add: thread_inv_def\<close>)
  moreover have "awaits n x ?t" using assms(2,4) k unfolding awaits_def pending_def by fastforce
  ultimately show thesis using that [of ?t] e k by simp
qed

lemma awaits_thread:
  assumes "thread_inv t" "awaits (Suc n) x t"
  obtains t' where "ggl_deployment_listen t = Ret t'" "thread_inv t'" "awaits n x t'"
proof (cases "thread_at t")
  case (Handling slot)
  with assms(1) obtain d ds where d: "queue_view (thread_queue t) = d # ds" "slot = queue_index (thread_queue t)"
    "queue_inv (thread_queue t)"
    by (auto simp: thread_inv_def)
  obtain q' where q': "release_count slot (thread_queue t) = (Ret (), q')" "queue_inv q'" "queue_view (release_index q') = ds"
    using release_halves [OF d(3,1)] d(2) by metis
  let ?t = "t\<lparr>thread_queue := q', thread_at := Releasing\<rparr>"
  have "awaits n x ?t"
  proof (cases "x \<in> deployment_id ` set (handled t)")
    case False
    with assms(2) Handling obtain i where i: "i < length (d # ds)" "Suc n = 3 * i" "deployment_id ((d # ds) ! i) = x"
      by (auto simp: awaits_def pending_def steps_until_def d(1))
    then obtain k where k: "i = Suc k" by (cases i) auto
    with i q' show ?thesis by (auto simp: awaits_def pending_def steps_until_def)
  qed (simp add: awaits_def)
  with q' Handling show thesis by (intro that [of ?t]) (simp_all add: ggl_deployment_listen_def thread_inv_def)
next
  case Releasing
  let ?t = "t\<lparr>thread_queue := release_index (thread_queue t), thread_at := Waiting\<rparr>"
  have "awaits n x ?t" using assms(2) Releasing by (auto simp: awaits_def pending_def steps_until_def)
  moreover have "thread_inv ?t" using assms(1) release_index_view(1) by (simp add: thread_inv_def)
  ultimately show thesis using Releasing by (intro that [of ?t]) (simp_all add: ggl_deployment_listen_def)
next
  case Waiting
  have inv: "queue_inv (thread_queue t)" using assms(1) by (simp add: thread_inv_def)
  show thesis
  proof (cases "queue_view (thread_queue t)")
    case Nil
    with length_queue_view [of "thread_queue t"] Waiting assms that [of t] show thesis
      by (auto simp: ggl_deployment_listen_def ggl_deployment_dequeue_def awaits_def pending_def)
  next
    case (Cons d ds)
    let ?d = "d\<lparr>deployment_state := GGL_DEPLOYMENT_IN_PROGRESS\<rparr>" and ?i = "queue_index (thread_queue t)"
    obtain q' where q': "ggl_deployment_dequeue (thread_queue t) = Some (?i, q')" "queue_inv q'"
      "queue_view q' = ?d # ds" "queue_index q' = ?i" "slot_deployment q' ?i = ?d"
      by (rule dequeue_view [OF inv Cons])
    let ?t = "t\<lparr>thread_queue := q', thread_at := Handling ?i, handled := handled t @ [?d]\<rparr>"
    have "awaits n x ?t"
    proof (cases "x \<in> deployment_id ` set (handled t)")
      case False
      with assms(2) Waiting Cons obtain i where i: "i < length (d # ds)" "n = 3 * i" "deployment_id ((d # ds) ! i) = x"
        by (auto simp: awaits_def pending_def steps_until_def)
      with q' show ?thesis by (cases i) (auto simp: awaits_def pending_def steps_until_def)
    qed (simp add: awaits_def)
    with q' Waiting show thesis by (intro that [of ?t]) (simp_all add: ggl_deployment_listen_def thread_inv_def)
  qed
qed

lemma thread_steps:
  assumes "thread_inv t" "list_all event_fits es" "undisturbed es t" "awaits n x t" "n \<le> count_list es Thread_step"
  shows "\<exists>t'. queue_run es t = Ret t' \<and> thread_inv t' \<and> x \<in> deployment_id ` set (handled t')"
  using assms
proof (induction es arbitrary: t n)
  case Nil
  then show ?case by (auto simp: awaits_def)
next
  case (Cons e es)
  show ?case
  proof (cases e)
    case Thread_step
    have "awaits (Suc (n - 1)) x t" using Cons.prems(4) by (auto simp: awaits_def)
    then obtain t' where "ggl_deployment_listen t = Ret t'" "thread_inv t'" "awaits (n - 1) x t'"
      by (rule awaits_thread [OF Cons.prems(1)])
    with Cons.IH [of t' "n - 1"] Cons.prems Thread_step show ?thesis by (simp add: res_simps)
  next
    case (Enqueue uuid doc i)
    then have "event_fits (Enqueue uuid doc i)" "thread_at t \<noteq> Releasing" using Cons.prems(2,3) by auto
    with Cons.prems(1,4) obtain t' where "queue_step (Enqueue uuid doc i) t = Ret t'" "thread_inv t'" "awaits n x t'"
      using awaits_enqueue by metis
    with Cons.IH [of t' n] Cons.prems Enqueue show ?thesis by (simp add: res_simps del: queue_step.simps)
  qed
qed

text \<open>C11: no deployment starves as long as no client enqueues between the two assignments of a release: one that
  is in the queue is given to the deployment thread once the thread has worked off those in front of it,
  whatever the clients enqueue meanwhile (of documents that fit into the memory of a slot), and no
  assertion fails on the way.\<close>

theorem queued_deployment_is_handled:
  assumes "thread_inv t" "thread_at t = Waiting" "i < queue_count (thread_queue t)"
    and "list_all event_fits es" "undisturbed es t" "3 * i + 1 \<le> count_list es Thread_step"
  shows "\<exists>t'. queue_run es t = Ret t' \<and>
    deployment_id (queue_view (thread_queue t) ! i) \<in> deployment_id ` set (handled t')"
proof -
  have "awaits (3 * i + 1) (deployment_id (queue_view (thread_queue t) ! i)) t"
    using assms(2,3) by (auto simp: awaits_def pending_def steps_until_def)
  from thread_steps [OF assms(1,4,5) this assms(6)] show ?thesis by auto
qed

text \<open>The condition is needed: a client that enqueues a new deployment between the two assignments of a release
  writes it to the slot of the last one in the queue, which is lost, and what some other slot held comes
  after it.\<close>

theorem release_race_loses_deployment:
  assumes "queue_inv q" "queue_view q = d # ds @ [e]" "parse_deployment_obj uuid doc = Ret x" "deployment_fits x"
    and "deployment_size x \<le> DEPLOYMENT_MEM_SIZE" "deployment_id x \<notin> deployment_id ` set (d # ds)"
  shows "\<exists>q' stale. queue_run [Thread_step, Enqueue uuid doc None, Thread_step]
      \<lparr>thread_queue = q, thread_at = Handling (queue_index q), handled = h\<rparr> =
        Ret \<lparr>thread_queue = q', thread_at = Waiting, handled = h\<rparr> \<and>
    queue_view q' = ds @ [x, stale]"
proof -
  from assms(2) have "queue_view q \<noteq> []" by simp
  then obtain q1 where q1: "release_count (queue_index q) q = (Ret (), q1)" "queue_inv q1"
    "queue_view q1 = butlast (queue_view q)"
    by (rule release_count_view [OF assms(1)])
  have v1: "queue_view q1 = d # ds" using q1(3) assms(2) by (simp add: butlast_append)
  obtain r j q2 where e: "ggl_deployment_enqueue uuid doc None q1 = (r, j, q2)" by (metis prod_cases3)
  have "length (queue_view q) \<le> DEPLOYMENT_QUEUE_SIZE" using assms(1) by (simp add: queue_inv_def)
  with assms(2,6) have "enqueue_spec x (queue_view q1) = Ret (d # ds @ [x])"
    using replace_None [of x "d # ds"] by (simp add: enqueue_spec_def v1)
  with enqueue_refines [OF q1(2) assms(3,4) e] assms(5) have q2: "queue_inv q2" "r = Ret ()" "queue_view q2 = d # ds @ [x]" by auto
  then have "0 < queue_count q2" using length_queue_view [of q2] by simp
  with release_index_view(2) [OF q2(1)] q2(3) q1(1) e q2(2) show ?thesis
    by (auto simp: ggl_deployment_listen_def res_simps)
qed

section \<open>The group of a deployment\<close>

lemma arn_skip:
  assumes "\<And>j. n \<le> j \<Longrightarrow> j < n + k \<Longrightarrow> arn ! j \<noteq> of_char (CHR ''/'') \<and> (c = 0 \<longrightarrow> arn ! j \<noteq> of_char (CHR '':''))"
  shows "arn_locations arn (n + k) 0 c = arn_locations arn n 0 c"
  using assms by (induction k) (auto simp: Let_def)

lemma arn_split:
  assumes "of_char (CHR ''/'') \<notin> set grp" "of_char (CHR ''/'') \<notin> set ver" "of_char (CHR '':'') \<notin> set ver" "pre \<noteq> []"
  shows "get_slash_and_colon_locations_from_arn (pre @ of_char (CHR ''/'') # grp @ of_char (CHR '':'') # ver) =
    (length pre, length pre + 1 + length grp)"
proof -
  define arn where "arn = pre @ of_char (CHR ''/'') # grp @ of_char (CHR '':'') # ver"
  define c where "c = length pre + 1 + length grp"
  have "arn_locations arn (Suc c + length ver) 0 0 = arn_locations arn (Suc c) 0 0"
  proof (rule arn_skip)
    fix j assume "Suc c \<le> j" "j < Suc c + length ver"
    then obtain k where j: "j = Suc c + k" and "k < length ver" by (metis le_Suc_ex nat_add_left_cancel_less)
    moreover have "arn ! j = ver ! k"
      using j nth_append_length_plus [of "pre @ of_char (CHR ''/'') # grp @ [of_char (CHR '':'')]" ver k]
      by (simp add: arn_def c_def)
    ultimately have "arn ! j \<in> set ver" by simp
    with assms(2,3) show
      "arn ! j \<noteq> of_char (CHR ''/'') \<and> (0 = 0 \<longrightarrow> arn ! j \<noteq> of_char (CHR '':''))" by auto
  qed
  moreover have "arn ! c = of_char (CHR '':'')" by (simp add: arn_def c_def nth_append)
  then have "arn_locations arn (Suc c) 0 0 = arn_locations arn (Suc (length pre) + length grp) 0 c"
    by (simp add: c_def Let_def)
  moreover have "arn_locations arn (Suc (length pre) + length grp) 0 c = arn_locations arn (Suc (length pre)) 0 c"
  proof (rule arn_skip)
    fix j assume "Suc (length pre) \<le> j" "j < Suc (length pre) + length grp"
    then obtain k where "j = Suc (length pre) + k" "k < length grp" by (metis le_Suc_ex nat_add_left_cancel_less)
    then have "arn ! j \<in> set grp"
      using nth_append_length_plus [of "pre @ [of_char (CHR ''/'')]" "grp @ of_char (CHR '':'') # ver" k]
      by (simp add: arn_def nth_append)
    with assms(1) show
      "arn ! j \<noteq> of_char (CHR ''/'') \<and> (c = 0 \<longrightarrow> arn ! j \<noteq> of_char (CHR '':''))" by (auto simp: c_def)
  qed
  moreover have "arn_locations arn (Suc (length pre)) 0 c = (length pre, c)"
    using assms(4) by (simp add: Let_def c_def) (simp add: arn_def nth_append)
  moreover have "length arn = Suc c + length ver" by (simp add: arn_def c_def)
  ultimately have "arn_locations arn (length arn) 0 0 = (length pre, c)" by metis
  then show ?thesis by (simp only: get_slash_and_colon_locations_from_arn_def arn_def c_def)
qed

text \<open>The configuration ARN of a cloud deployment, prefix/group:version, is kept without its version, and
  the thing group is the part between the slash and the version.\<close>

theorem parse_deployment_arn:
  assumes "parse_deployment_obj uuid args = Ret d"
    and "ggl_map_get args (GGL_STR ''configurationArn'') =
      Some (OBJ_BUF (pre @ of_char (CHR ''/'') # grp @ of_char (CHR '':'') # ver))"
    and "pre \<noteq> []" "of_char (CHR ''/'') \<notin> set grp" "of_char (CHR ''/'') \<notin> set ver" "of_char (CHR '':'') \<notin> set ver"
  shows "configuration_arn d = pre @ of_char (CHR ''/'') # grp \<and> thing_group d = grp"
proof -
  obtain vs where vs: "ggl_map_validate args deployment_schema = Ret vs"
    using assms(1) by (auto simp: parse_deployment_obj_def split: res.splits)
  then have "vs = map (\<lambda>e. map_of args (entry_key e)) deployment_schema" by (simp add: ggl_map_validate_Ret)
  then obtain a b c d' e f g where v: "vs = [a, b, c, d', e, f, g, Some (OBJ_BUF (pre @ of_char (CHR ''/'') # grp @ of_char (CHR '':'') # ver))]"
    using assms(2) by (simp add: deployment_schema_def ggl_map_get_map_of)
  show ?thesis
    using assms(1) vs v arn_split [OF assms(4,5,6,3)]
    by (auto simp: parse_deployment_obj_def Let_def ggl_buffer_substr_take_drop)
qed

section \<open>A copy that fails\<close>

text \<open>C23: a new deployment whose copy into its slot fails for lack of memory is refused, but only after the queue
  has been made longer: the deployments in front of it are as before, and behind them there is one more
  entry, the one that the slot had.\<close>

theorem enqueue_without_memory_adds_entry:
  assumes "queue_inv q" "queue_count q < DEPLOYMENT_QUEUE_SIZE" "parse_deployment_obj uuid doc = Ret d" "deployment_fits d"
    and "deployment_id d \<notin> deployment_id ` set (queue_view q)" "pred_option vec_inv id_vec" "id_fits id_vec (deployment_id d)"
    and "fst (deep_copy_deployment d (ggl_bump_alloc_init (deployment_mem q ! slot_index q (queue_count q)))) = Fail e"
  shows "\<exists>q'. ggl_deployment_enqueue uuid doc id_vec q = (Fail GGL_ERR_NOMEM, id_added id_vec (deployment_id d), q') \<and>
    queue_inv q' \<and> queue_count q' = queue_count q + 1 \<and> take (queue_count q) (queue_view q') = queue_view q \<and>
    deployments q' = deployments q"
proof -
  have m: "get_matching_deployment q (deployment_id d) = None"
    using assms(5) by (cases rule: get_matching_cases [of q "deployment_id d"]) (auto simp: image_iff all_set_conv_all_nth)
  let ?j = "slot_index q (queue_count q)" and ?q = "q\<lparr>queue_count := queue_count q + 1\<rparr>"
  obtain a where c: "deep_copy_deployment d (ggl_bump_alloc_init (deployment_mem q ! ?j)) = (Fail e, a)"
    using assms(8) by (metis prod.collapse)
  then obtain q' where s: "store_deployment d ?j ?q = (Fail e, q')" "deployments q' = deployments q"
    by (simp add: store_deployment_def Let_def)
  have "queue_inv ?q" using assms(1,2) by (simp add: queue_inv_def)
  note k = store_deployment_cases [OF this slot_index_less assms(4) s(1)]
  have "take (queue_count q) (queue_view q') = queue_view q"
  proof (rule nth_equalityI)
    fix i assume "i < length (take (queue_count q) (queue_view q'))"
    then have i: "i < queue_count q" using k by simp
    then have "slot_index q i \<noteq> ?j" using slot_index_inj [of i "queue_count q" q] assms(2) by auto
    with k i show "take (queue_count q) (queue_view q') ! i = queue_view q ! i"
      by (simp add: nth_queue_view slot_index_def slot_deployment_def)
  qed (use k in simp)
  with k s assms(2,3,7) m show ?thesis
    by (auto simp: enqueue_id [OF assms(6,3)]) (simp add: ggl_deployment_enqueue_def)
qed

section \<open>The queue at the start, and witnesses\<close>

definition initial_slot :: loc_deployment where
  "initial_slot =
     \<lparr>deployment_id = (0, 0), recipe_directory_path = (0, 0), artifacts_directory_path = (0, 0),
      configuration_arn = (0, 0), thing_group = (0, 0), root_component_versions_to_add = LOC_MAP 0 [],
      root_components_to_remove = LOC_LIST 0 [], component_to_configuration = LOC_MAP 0 [],
      deployment_state = GGL_DEPLOYMENT_QUEUED, cloud_root_components_to_add = LOC_MAP 0 []\<rparr>"

definition initial_queue :: deployment_queue where
  "initial_queue =
     \<lparr>deployments = replicate DEPLOYMENT_QUEUE_SIZE initial_slot,
      deployment_mem = replicate DEPLOYMENT_QUEUE_SIZE (replicate DEPLOYMENT_MEM_SIZE 0),
      queue_index = 0, queue_count = 0\<rparr>"

lemma initial_queue_inv: "queue_inv initial_queue" "queue_inv (initial_queue\<lparr>queue_count := Suc 0\<rparr>)"
  by (simp_all add: queue_inv_def initial_queue_def DEPLOYMENT_QUEUE_SIZE_def)

lemma initial_queue_view [simp]: "queue_view initial_queue = []"
  by (simp add: queue_view_def initial_queue_def)

lemma initial_slot_view: "queue_view (initial_queue\<lparr>queue_count := Suc 0\<rparr>) = [empty_deployment]"
  by (simp add: queue_view_def slot_deployment_def slot_index_def initial_queue_def DEPLOYMENT_QUEUE_SIZE_def
      fetch_deployment_def fetch_buf_def initial_slot_def empty_deployment_def)

text \<open>A local deployment with nothing but an identifier.\<close>

definition plain_doc :: "buffer \<Rightarrow> GglMap" where
  "plain_doc i = [(GGL_STR ''deployment_id'', OBJ_BUF i)]"

definition plain_deployment :: "buffer \<Rightarrow> deployment" where
  "plain_deployment i = empty_deployment\<lparr>deployment_id := i, thing_group := GGL_STR ''LOCAL_DEPLOYMENTS''\<rparr>"

lemma parse_plain: "parse_deployment_obj uuid (plain_doc i) = Ret (plain_deployment i)"
  by (simp add: parse_deployment_obj_def deployment_schema_def plain_doc_def plain_deployment_def ggl_map_get_map_of
      GGL_STR_def res_simps Let_def)

lemma plain_size: "length i \<le> 100 \<Longrightarrow> deployment_size (plain_deployment i) \<le> DEPLOYMENT_MEM_SIZE"
  and plain_fits: "length i \<le> 100 \<Longrightarrow> deployment_fits (plain_deployment i)"
  by (simp_all add: deployment_size_def deployment_fits_def plain_deployment_def empty_deployment_def GGL_STR_def
      DEPLOYMENT_MEM_SIZE_def PTRDIFF_MAX_def)

theorem ggl_deployment_enqueue_refines_witness:
  "\<exists>q'. ggl_deployment_enqueue [] (plain_doc [1, 2]) (Some \<lparr>vec_items = [9], vec_capacity = 36\<rparr>) initial_queue =
      (Ret (), Some \<lparr>vec_items = [9, 1, 2], vec_capacity = 36\<rparr>, q') \<and>
    queue_view q' = [plain_deployment [1, 2]]"
proof -
  let ?v = "Some \<lparr>vec_items = [9], vec_capacity = 36\<rparr>"
  obtain r i q' where e: "ggl_deployment_enqueue [] (plain_doc [1, 2]) ?v initial_queue = (r, i, q')"
    by (metis prod_cases3)
  have v: "pred_option vec_inv ?v" by (simp add: vec_inv_def PTRDIFF_MAX_def)
  have "enqueue_spec (plain_deployment [1, 2]) [] = Ret [plain_deployment [1, 2]]"
    by (simp add: enqueue_spec_def DEPLOYMENT_QUEUE_SIZE_def)
  moreover have "deployment_fits (plain_deployment [1, 2])" by (simp add: plain_fits)
  ultimately show ?thesis
    using ggl_deployment_enqueue_refines [OF initial_queue_inv(1) parse_plain _ v e] plain_size [of "[1, 2]"] e
    by (auto simp: id_fits_def id_added_def plain_deployment_def)
qed

theorem ggl_deployment_dequeue_fifo_witness:
  "\<exists>slot q1 q2. ggl_deployment_dequeue (initial_queue\<lparr>queue_count := Suc 0\<rparr>) = Some (slot, q1) \<and>
    ggl_deployment_release slot q1 = (Ret (), q2) \<and> queue_view q2 = []"
  using ggl_deployment_dequeue_fifo [OF initial_queue_inv(2)] by (auto simp: initial_slot_view)

theorem queued_deployment_is_handled_witness:
  "\<exists>t'. queue_run [Enqueue [] (plain_doc [1]) None, Thread_step]
      \<lparr>thread_queue = initial_queue\<lparr>queue_count := Suc 0\<rparr>, thread_at = Waiting, handled = []\<rparr> = Ret t' \<and>
    [] \<in> deployment_id ` set (handled t')"
  using queued_deployment_is_handled [of "\<lparr>thread_queue = initial_queue\<lparr>queue_count := Suc 0\<rparr>, thread_at = Waiting, handled = []\<rparr>"
      0 "[Enqueue [] (plain_doc [1]) None, Thread_step]"]
  by (auto simp: thread_inv_def initial_queue_inv initial_slot_view parse_plain plain_size plain_fits
      empty_deployment_def simp del: queue_run.simps split: prod.splits res.splits)

theorem parse_deployment_arn_witness:
  "\<exists>d. parse_deployment_obj [] [(GGL_STR ''configurationArn'', OBJ_BUF (GGL_STR ''arn:g/dev:3''))] = Ret d \<and>
    configuration_arn d = GGL_STR ''arn:g/dev'' \<and> thing_group d = GGL_STR ''dev''"
proof -
  let ?doc = "[(GGL_STR ''configurationArn'', OBJ_BUF (GGL_STR ''arn:g/dev:3''))]"
  obtain d where d: "parse_deployment_obj [] ?doc = Ret d"
    by (simp add: parse_deployment_obj_def deployment_schema_def ggl_map_get_map_of GGL_STR_def res_simps Let_def
        split: prod.splits)
  from parse_deployment_arn [OF d, of "GGL_STR ''arn:g''" "GGL_STR ''dev''" "GGL_STR ''3''"] d show ?thesis
    by (auto simp: GGL_STR_def ggl_map_get_map_of)
qed

text \<open>A local deployment with a path that is longer than the memory of a slot, and the vector for the identifier that
  \<open>create_local_deployment\<close> uses.\<close>

definition long_doc :: GglMap where
  "long_doc = [(GGL_STR ''recipe_directory_path'', OBJ_BUF (replicate 5001 7)), (GGL_STR ''deployment_id'', OBJ_BUF [1])]"

lemma parse_long:
  "parse_deployment_obj uuid long_doc = Ret ((plain_deployment [1])\<lparr>recipe_directory_path := replicate 5001 7\<rparr>)"
  by (simp add: parse_deployment_obj_def deployment_schema_def long_doc_def plain_deployment_def empty_deployment_def
      ggl_map_get_map_of GGL_STR_def res_simps Let_def)

lemma long_copy_fails:
  assumes "bump_inv a" "length (bump_buf a) = DEPLOYMENT_MEM_SIZE" "recipe_directory_path d = replicate 5001 7"
    and "length (deployment_id d) + 8 \<le> PTRDIFF_MAX"
  shows "\<exists>e. fst (deep_copy_deployment d a) = Fail e"
proof -
  have k: "keeps (deep_copy_buf (deployment_id d))" using assms(4) by (rule keeps_copy_buf)
  obtain r a1 where c: "deep_copy_buf (deployment_id d) a = (r, a1)" by fastforce
  with k assms(1) have g: "grows a a1" "r \<noteq> Abort" by (auto simp: keeps_def)
  then have a1: "bump_inv a1" "length (bump_buf a1) = DEPLOYMENT_MEM_SIZE" using assms(2) by (simp_all add: grows_def)
  have "bump_alloc_alloc a1 5002 1 = None"
    using bump_alloc_cases [OF a1(1), of 5002 1] a1(2) by (simp add: bump_req_def PTRDIFF_MAX_def DEPLOYMENT_MEM_SIZE_def)
  then have "null_terminate_buffer (recipe_directory_path d) a1 = (Fail GGL_ERR_NOMEM, a1)"
    using assms(3) by (simp add: null_terminate_buffer_def copy_bytes_def io_bind_def)
  with c g(2) show ?thesis by (cases r) (simp_all add: deep_copy_deployment_def io_bind_def)
qed

theorem enqueue_without_memory_adds_entry_witness:
  "\<exists>q'. ggl_deployment_enqueue [] long_doc (Some \<lparr>vec_items = [], vec_capacity = 36\<rparr>) initial_queue =
      (Fail GGL_ERR_NOMEM, Some \<lparr>vec_items = [1], vec_capacity = 36\<rparr>, q') \<and> queue_count q' = 1"
proof -
  let ?d = "(plain_deployment [1])\<lparr>recipe_directory_path := replicate 5001 7\<rparr>" and ?v = "Some \<lparr>vec_items = [], vec_capacity = 36\<rparr>"
  have j: "slot_index initial_queue (queue_count initial_queue) < DEPLOYMENT_QUEUE_SIZE" by (rule slot_index_less)
  have m: "deployment_mem initial_queue ! slot_index initial_queue (queue_count initial_queue) = replicate DEPLOYMENT_MEM_SIZE 0"
    using j by (simp add: initial_queue_def)
  have inv: "bump_inv (ggl_bump_alloc_init (replicate DEPLOYMENT_MEM_SIZE 0))"
    by (simp add: bump_inv_def ggl_bump_alloc_init_def fits_def DEPLOYMENT_MEM_SIZE_def PTRDIFF_MAX_def)
  obtain e where e: "fst (deep_copy_deployment ?d (ggl_bump_alloc_init (replicate DEPLOYMENT_MEM_SIZE 0))) = Fail e"
    using long_copy_fails [OF inv, of ?d] by (auto simp: plain_deployment_def ggl_bump_alloc_init_def PTRDIFF_MAX_def)
  have f: "deployment_fits ?d"
    using plain_fits [of "[1]"] by (simp add: deployment_fits_def PTRDIFF_MAX_def)
  have c: "queue_count initial_queue < DEPLOYMENT_QUEUE_SIZE" by (simp add: initial_queue_def DEPLOYMENT_QUEUE_SIZE_def)
  have v: "pred_option vec_inv ?v" "id_fits ?v (deployment_id ?d)"
    by (simp_all add: vec_inv_def PTRDIFF_MAX_def id_fits_def plain_deployment_def)
  obtain q' where "ggl_deployment_enqueue [] long_doc ?v initial_queue = (Fail GGL_ERR_NOMEM, id_added ?v (deployment_id ?d), q')"
    "queue_count q' = queue_count initial_queue + 1"
    using enqueue_without_memory_adds_entry [OF initial_queue_inv(1) c parse_long f _ v, unfolded m, OF _ e, of "[]"] by auto
  then show ?thesis by (auto simp: id_added_def plain_deployment_def initial_queue_def)
qed

end
