(* ===== verification/ConfigStore.thy ===== *)
theory ConfigStore
  imports ObjectSerde ObjectCopy "HOL-Library.Sublist"
begin

text \<open>
  The configuration store, \<^verbatim>\<open>ggconfigd/src/db_interface.c\<close> with the statements of \<^verbatim>\<open>ggconfigd/src/sql\<close>: a tree
  of keys in three tables of an SQLite database, with a value at the leaves and subscribers at any key.
  Shows that the tables stay a tree whatever the database fails at, that a write is the update of a map
  from key paths to values, that a failed write changes nothing, and that a read returns what is stored
  below a key.

  A table is the list of its rows in the order of their insertion, which is the order in which SQLite
  visits them. A step of a statement can fail at any time; which steps do is part of the state. The
  commands that begin, end and roll back a transaction are taken to succeed.
\<close>

section \<open>Tables and statements\<close>

type_synonym key_row = "int \<times> buffer"
type_synonym relation_row = "int \<times> int"
type_synonym value_row = "int \<times> buffer \<times> int"
type_synonym subscriber_row = "int \<times> u32"

record config_tables =
  keyTable :: "key_row list"
  relationTable :: "relation_row list"
  valueTable :: "value_row list"
  subscriberTable :: "subscriber_row list"

text \<open>\<open>sql_faults\<close> says which of the next steps of statements fail (none after its end), and \<open>notified\<close> is
  what has been sent to subscribers.\<close>

record config_db =
  config_initialized :: bool
  config_database :: config_tables
  sql_faults :: "bool list"
  notified :: "(u32 \<times> buffer list) list"

definition create_database :: config_tables where
  "create_database = \<lparr>keyTable = [], relationTable = [], valueTable = [], subscriberTable = []\<rparr>"

text \<open>A step of a statement that has \<open>rows\<close> still to return.\<close>

definition sqlite3_step :: "'r list \<Rightarrow> (config_db, ('r \<times> 'r list) option) io" where
  "sqlite3_step rows s =
     (let row = (case rows of [] \<Rightarrow> None | r # rs \<Rightarrow> Some (r, rs)) in
      case sql_faults s of
        [] \<Rightarrow> (Ret row, s)
      | fault # fs \<Rightarrow> (if fault then Fail GGL_ERR_FAILURE else Ret row, s\<lparr>sql_faults := fs\<rparr>))"

text \<open>The first step of a query, and the only step of a change, which fails on a violated constraint.\<close>

definition sql_first :: "(config_tables \<Rightarrow> 'r list) \<Rightarrow> (config_db, 'r option) io" where
  "sql_first query s =
     io_bind (sqlite3_step (query (config_database s))) (\<lambda>row. io_res (Ret (map_option fst row))) s"

definition sql_change :: "(config_tables \<Rightarrow> config_tables option) \<Rightarrow> (config_db, unit) io" where
  "sql_change change =
     io_bind (sqlite3_step ([] :: unit list)) (\<lambda>_ s.
     case change (config_database s) of
       None \<Rightarrow> (Fail GGL_ERR_FAILURE, s)
     | Some db \<Rightarrow> (Ret (), s\<lparr>config_database := db\<rparr>))"

text \<open>\<^verbatim>\<open>sqlite3_column_int\<close>: the low 32 bits of a column, as a signed integer.\<close>

definition column_int :: "int \<Rightarrow> int" where
  "column_int v = sint (word_of_int v :: 32 word)"

text \<open>The row identifier that \<^verbatim>\<open>AUTOINCREMENT\<close> gives to the next key.\<close>

definition next_keyid :: "config_tables \<Rightarrow> int" where
  "next_keyid db = fold max (map fst (keyTable db)) 0 + 1"

definition sql_key_insert :: "buffer \<Rightarrow> config_tables \<Rightarrow> config_tables option" where
  "sql_key_insert key db =
     (if next_keyid db > 2 ^ 63 - 1 then None
      else Some (db\<lparr>keyTable := keyTable db @ [(next_keyid db, key)]\<rparr>))"

definition sql_insert_relation :: "int \<Rightarrow> int \<Rightarrow> config_tables \<Rightarrow> config_tables option" where
  "sql_insert_relation keyid parentid db =
     (if keyid \<in> fst ` set (relationTable db) then None
      else Some (db\<lparr>relationTable := relationTable db @ [(keyid, parentid)]\<rparr>))"

definition sql_value_insert :: "int \<Rightarrow> buffer \<Rightarrow> int \<Rightarrow> config_tables \<Rightarrow> config_tables option" where
  "sql_value_insert keyid v timestamp db =
     (if keyid \<in> fst ` set (valueTable db) then None
      else Some (db\<lparr>valueTable := valueTable db @ [(keyid, v, timestamp)]\<rparr>))"

definition sql_value_update :: "buffer \<Rightarrow> int \<Rightarrow> int \<Rightarrow> config_tables \<Rightarrow> config_tables option" where
  "sql_value_update v timestamp keyid db =
     Some (db\<lparr>valueTable := map (\<lambda>row. if fst row = keyid then (fst row, v, timestamp) else row) (valueTable db)\<rparr>)"

definition sql_add_subscription :: "int \<Rightarrow> u32 \<Rightarrow> config_tables \<Rightarrow> config_tables option" where
  "sql_add_subscription keyid handle db =
     Some (db\<lparr>subscriberTable := subscriberTable db @ [(keyid, handle)]\<rparr>)"

definition sql_value_present :: "int \<Rightarrow> config_tables \<Rightarrow> int list" where
  "sql_value_present keyid db = [fst row. row \<leftarrow> valueTable db, fst row = keyid]"

definition sql_read_value :: "int \<Rightarrow> config_tables \<Rightarrow> buffer list" where
  "sql_read_value keyid db = [fst (snd row). row \<leftarrow> valueTable db, fst row = keyid]"

definition sql_get_timestamp :: "int \<Rightarrow> config_tables \<Rightarrow> int list" where
  "sql_get_timestamp keyid db = [snd (snd row). row \<leftarrow> valueTable db, fst row = keyid]"

definition sql_get_root_key :: "buffer \<Rightarrow> config_tables \<Rightarrow> int list" where
  "sql_get_root_key key db =
     [fst k. k \<leftarrow> keyTable db, fst k \<notin> fst ` set (relationTable db) \<and> snd k = key]"

definition sql_get_key_with_parent :: "buffer \<Rightarrow> int \<Rightarrow> config_tables \<Rightarrow> int list" where
  "sql_get_key_with_parent key parentid db =
     [fst kt. kt \<leftarrow> keyTable db, rt \<leftarrow> relationTable db, fst kt = fst rt \<and> snd kt = key \<and> snd rt = parentid]"

definition sql_has_child :: "int \<Rightarrow> config_tables \<Rightarrow> unit list" where
  "sql_has_child parentid db = take 1 [(). rt \<leftarrow> relationTable db, snd rt = parentid]"

definition sql_get_children :: "int \<Rightarrow> config_tables \<Rightarrow> key_row list" where
  "sql_get_children parentid db =
     [k. r \<leftarrow> relationTable db, k \<leftarrow> keyTable db, fst r = fst k \<and> snd r = parentid]"

definition sql_get_subscribers :: "int \<Rightarrow> config_tables \<Rightarrow> u32 list" where
  "sql_get_subscribers keyid db =
     [snd s. s \<leftarrow> subscriberTable db, k \<leftarrow> keyTable db, fst s = fst k \<and> fst k = keyid]"

text \<open>The recursive query for the keys along a path: the rows of one depth after the other, each joined
  with its children. The statement has parameters for the root and 14 further keys.\<close>

fun path_cte :: "config_tables \<Rightarrow> int list \<Rightarrow> buffer list \<Rightarrow> int list" where
  "path_cte db level [] = level"
| "path_cte db level (key # keys) =
     level @ path_cte db
       [fst kt. pc \<leftarrow> level, rt \<leftarrow> relationTable db, pc = snd rt, kt \<leftarrow> keyTable db, fst rt = fst kt \<and> snd kt = key]
       keys"

definition sql_find_element :: "buffer list \<Rightarrow> config_tables \<Rightarrow> int list" where
  "sql_find_element key_path db =
     (case key_path of
        [] \<Rightarrow> []
      | key # keys \<Rightarrow> path_cte db (sql_get_root_key key db) (take (GGL_MAX_OBJECT_DEPTH - 1) keys))"

section \<open>Keys and values\<close>

definition key_insert :: "buffer \<Rightarrow> (config_db, int) io" where
  "key_insert key s =
     (let keyid = next_keyid (config_database s) in
      io_bind (sql_change (sql_key_insert key)) (\<lambda>_. io_res (Ret keyid)) s)"

definition value_is_present_for_key :: "int \<Rightarrow> (config_db, bool) io" where
  "value_is_present_for_key key_id =
     io_bind (sql_first (sql_value_present key_id)) (\<lambda>row.
     io_res (case row of
        Some pid \<Rightarrow> if column_int pid \<noteq> 0 then Ret True else Fail GGL_ERR_FAILURE
      | None \<Rightarrow> Ret False))"

definition find_key_with_parent :: "buffer \<Rightarrow> int \<Rightarrow> (config_db, int) io" where
  "find_key_with_parent key parent_key_id =
     io_bind (sql_first (sql_get_key_with_parent key parent_key_id)) (\<lambda>row.
     io_res (case row of Some i \<Rightarrow> Ret (column_int i) | None \<Rightarrow> Fail GGL_ERR_NOENTRY))"

definition get_or_create_key_at_root :: "buffer \<Rightarrow> (config_db, int) io" where
  "get_or_create_key_at_root key =
     io_bind (sql_first (sql_get_root_key key)) (\<lambda>row.
     case row of
       Some i \<Rightarrow> io_res (Ret (column_int i))
     | None \<Rightarrow> key_insert key)"

definition relation_insert :: "int \<Rightarrow> int \<Rightarrow> (config_db, unit) io" where
  "relation_insert key_id parent = sql_change (sql_insert_relation key_id parent)"

definition value_insert :: "int \<Rightarrow> buffer \<Rightarrow> int \<Rightarrow> (config_db, unit) io" where
  "value_insert key_id v timestamp = sql_change (sql_value_insert key_id v timestamp)"

definition value_update :: "int \<Rightarrow> buffer \<Rightarrow> int \<Rightarrow> (config_db, unit) io" where
  "value_update key_id v timestamp = sql_change (sql_value_update v timestamp key_id)"

definition value_get_timestamp :: "int \<Rightarrow> (config_db, int) io" where
  "value_get_timestamp key_id =
     io_bind (sql_first (sql_get_timestamp key_id)) (\<lambda>row.
     io_res (case row of Some timestamp \<Rightarrow> Ret timestamp | None \<Rightarrow> Fail GGL_ERR_NOENTRY))"

definition child_is_present_for_key :: "int \<Rightarrow> (config_db, bool) io" where
  "child_is_present_for_key key_id =
     io_bind (sql_first (sql_has_child key_id)) (\<lambda>row. io_res (Ret (row \<noteq> None)))"

text \<open>The vector of identifiers that is passed along has room for a path of the greatest depth; a push
  beyond it is ignored.\<close>

definition no_ids :: "int vec" where
  "no_ids = \<lparr>vec_items = [], vec_capacity = GGL_MAX_OBJECT_DEPTH\<rparr>"

fun step_key_ids :: "nat \<Rightarrow> int list \<Rightarrow> int vec \<Rightarrow> (config_db, int vec) io" where
  "step_key_ids 0 rows ids = io_res (Ret ids)"
| "step_key_ids (Suc n) rows ids =
     io_bind (sqlite3_step rows) (\<lambda>row.
     case row of
       None \<Rightarrow> io_res (Fail GGL_ERR_NOENTRY)
     | Some (i, rows) \<Rightarrow> step_key_ids n rows (snd (vec_push ids (column_int i))))"

text \<open>A path as a string for the log (\<^verbatim>\<open>helpers.c\<close>), in an array of its own; the arguments of the log macros are
  computed whatever the level of the log is. A string is its bytes before the terminating zero, and writing
  beyond the array is \<open>Abort\<close>. As in the source, \<open>string_length\<close> stays zero.\<close>

definition PATH_STRING_MAX_SIZE :: nat where
  "PATH_STRING_MAX_SIZE = 1024"

definition strncat_path :: "buffer \<Rightarrow> buffer \<Rightarrow> nat \<Rightarrow> buffer res" where
  "strncat_path path_string src n =
     (let result = path_string @ takeWhile (\<lambda>c. c \<noteq> 0) (take n src) in
      if length result + 1 > PATH_STRING_MAX_SIZE then Abort else Ret result)"

fun print_keys :: "nat \<Rightarrow> nat \<Rightarrow> buffer list \<Rightarrow> buffer \<Rightarrow> buffer res" where
  "print_keys string_length x [] path_string = Ret path_string"
| "print_keys string_length x (key # keys) path_string =
     (let additional_length = 1 + length key in
      if 5 + string_length + additional_length < PATH_STRING_MAX_SIZE then
        res_bind (if x > 0 then strncat_path path_string (GGL_STR ''/ '') 1 else Ret path_string) (\<lambda>path_string.
        res_bind (strncat_path path_string key (length key)) (\<lambda>path_string.
        print_keys string_length (x + 1) keys path_string))
      else strncat_path path_string (GGL_STR ''/... '') 4)"

definition print_key_path :: "buffer list \<Rightarrow> buffer res" where
  "print_key_path key_path = print_keys 0 0 key_path []"

text \<open>The path is printed for the log first, and the same path again later.\<close>

definition get_key_ids :: "buffer list \<Rightarrow> (config_db, int vec) io" where
  "get_key_ids key_path =
     io_bind (io_res (print_key_path key_path)) (\<lambda>_ s.
     step_key_ids (length key_path) (sql_find_element key_path (config_database s)) no_ids s)"

definition find_or_create_key :: "buffer \<Rightarrow> int \<Rightarrow> (config_db, int) io" where
  "find_or_create_key key parent_key_id s =
     (case find_key_with_parent key parent_key_id s of
        (Fail e, s) \<Rightarrow>
          if e = GGL_ERR_NOENTRY then
            io_bind (key_insert key) (\<lambda>current_key_id.
            io_bind (relation_insert current_key_id parent_key_id) (\<lambda>_.
            io_res (Ret current_key_id))) s
          else (Fail e, s)
      | (Ret current_key_id, s) \<Rightarrow>
          io_bind (value_is_present_for_key current_key_id) (\<lambda>value_is_present.
          io_res (if value_is_present then Fail GGL_ERR_FAILURE else Ret current_key_id)) s
      | (Abort, s) \<Rightarrow> (Abort, s))"

fun create_keys :: "buffer list \<Rightarrow> int \<Rightarrow> int vec \<Rightarrow> (config_db, int vec) io" where
  "create_keys [] parent_key_id ids = io_res (Ret ids)"
| "create_keys (key # keys) parent_key_id ids =
     io_bind (find_or_create_key key parent_key_id) (\<lambda>current_key_id.
     create_keys keys current_key_id (snd (vec_push ids current_key_id)))"

text \<open>The first key of an empty path is out of range.\<close>

definition create_key_path :: "buffer list \<Rightarrow> (config_db, int vec) io" where
  "create_key_path key_path =
     (case key_path of
        [] \<Rightarrow> io_res Abort
      | root_key # keys \<Rightarrow>
          io_bind (get_or_create_key_at_root root_key) (\<lambda>parent_key_id.
          io_bind (value_is_present_for_key parent_key_id) (\<lambda>value_is_present_for_root_key.
          if value_is_present_for_root_key then io_res (Fail GGL_ERR_FAILURE)
          else create_keys keys parent_key_id (snd (vec_push no_ids parent_key_id)))))"

section \<open>Notifications\<close>

fun notify_handles :: "u32 list \<Rightarrow> buffer list \<Rightarrow> (config_db, unit) io" where
  "notify_handles [] changed_key_path = io_bind (sqlite3_step ([] :: u32 list)) (\<lambda>_. io_res (Ret ()))"
| "notify_handles (handle # handles) changed_key_path =
     io_bind (sqlite3_step (handle # handles)) (\<lambda>_.
     io_bind (io_do (\<lambda>s. s\<lparr>notified := notified s @ [(handle, changed_key_path)]\<rparr>)) (\<lambda>_.
     notify_handles handles changed_key_path))"

definition notify_single_key :: "int \<Rightarrow> buffer list \<Rightarrow> (config_db, unit) io" where
  "notify_single_key notify_key_id changed_key_path s =
     notify_handles (sql_get_subscribers notify_key_id (config_database s)) changed_key_path s"

text \<open>A key whose subscribers cannot all be notified does not keep the others from being notified.\<close>

fun notify_nested_key :: "buffer list \<Rightarrow> int list \<Rightarrow> (config_db, unit) io" where
  "notify_nested_key key_path [] s = (Ret (), s)"
| "notify_nested_key key_path (i # is) s =
     (case notify_single_key i key_path s of
        (Ret _, s) \<Rightarrow> notify_nested_key key_path is s
      | (Fail e, s) \<Rightarrow> io_bind (notify_nested_key key_path is) (\<lambda>_. io_res (Fail GGL_ERR_FAILURE)) s
      | (Abort, s) \<Rightarrow> (Abort, s))"

section \<open>Writing\<close>

text \<open>A transaction that is rolled back on an error.\<close>

definition rolled_back :: "config_tables \<Rightarrow> (config_db, 'a) io \<Rightarrow> (config_db, 'a) io" where
  "rolled_back db m = io_on_error m (io_do (\<lambda>s. s\<lparr>config_database := db\<rparr>))"

text \<open>The last of the identifiers; there is none if the path is empty.\<close>

definition last_id :: "int vec \<Rightarrow> int res" where
  "last_id ids = (if vec_items ids = [] then Abort else Ret (last (vec_items ids)))"

definition write_new_key :: "buffer list \<Rightarrow> buffer \<Rightarrow> int \<Rightarrow> (config_db, int list) io" where
  "write_new_key key_path v timestamp =
     io_bind (create_key_path key_path) (\<lambda>ids.
     io_bind (io_res (last_id ids)) (\<lambda>last_key_id.
     io_bind (io_ignore (value_insert last_key_id v timestamp)) (\<lambda>_.
     io_res (Ret (vec_items ids)))))"

text \<open>\<open>None\<close>: the key has a newer value and is not updated.\<close>

definition write_old_key :: "int vec \<Rightarrow> buffer \<Rightarrow> int \<Rightarrow> (config_db, int list option) io" where
  "write_old_key ids v timestamp =
     io_bind (io_res (last_id ids)) (\<lambda>last_key_id.
     io_bind (child_is_present_for_key last_key_id) (\<lambda>child_is_present.
     if child_is_present then io_res (Fail GGL_ERR_FAILURE)
     else
       io_bind (value_get_timestamp last_key_id) (\<lambda>existing_timestamp.
       if existing_timestamp > timestamp then io_res (Ret None)
       else
         io_bind (value_update last_key_id v timestamp) (\<lambda>_. io_res (Ret (Some (vec_items ids)))))))"

definition ggconfig_write_value_at_key :: "buffer list \<Rightarrow> buffer \<Rightarrow> int \<Rightarrow> (config_db, unit) io" where
  "ggconfig_write_value_at_key key_path v timestamp s =
     (if \<not> config_initialized s then (Fail GGL_ERR_FAILURE, s)
      else
        (case get_key_ids key_path s of
           (Fail e, s') \<Rightarrow>
             if e = GGL_ERR_NOENTRY then
               io_bind (rolled_back (config_database s) (write_new_key key_path v timestamp)) (\<lambda>ids.
               io_ignore (notify_nested_key key_path ids)) s'
             else (Fail e, s'\<lparr>config_database := config_database s\<rparr>)
         | (Ret ids, s') \<Rightarrow>
             io_bind (rolled_back (config_database s) (write_old_key ids v timestamp)) (\<lambda>written.
             case written of
               None \<Rightarrow> io_res (Ret ())
             | Some ids \<Rightarrow> io_ignore (notify_nested_key key_path ids)) s'
         | (Abort, s') \<Rightarrow> (Abort, s')))"

section \<open>Reading\<close>

text \<open>A read allocates what it returns; the state is the database with the allocator.\<close>

definition on_db :: "(config_db, 'a) io \<Rightarrow> (config_db \<times> GglBumpAlloc, 'a) io" where
  "on_db m s = (case m (fst s) of (r, db) \<Rightarrow> (r, db, snd s))"

definition read_alloc :: "nat \<Rightarrow> nat \<Rightarrow> (config_db \<times> GglBumpAlloc, unit) io" where
  "read_alloc n alignment s =
     (case bump_alloc_alloc (snd s) n alignment of
        None \<Rightarrow> (Fail GGL_ERR_NOMEM, s)
      | Some (_, a) \<Rightarrow> (Ret (), fst s, a))"

definition read_value_at_key :: "int \<Rightarrow> (config_db \<times> GglBumpAlloc, GglObject) io" where
  "read_value_at_key key_id =
     io_bind (on_db (sql_first (sql_read_value key_id))) (\<lambda>row.
     case row of
       None \<Rightarrow> io_res (Fail GGL_ERR_NOENTRY)
     | Some v \<Rightarrow> io_bind (read_alloc (length v) 1) (\<lambda>_. io_res (Ret (OBJ_BUF v))))"

text \<open>The loop that counts the children: a step that fails ends it as well.\<close>

fun count_rows :: "'r list \<Rightarrow> (config_db, nat) io" where
  "count_rows [] s =
     (case sqlite3_step ([] :: 'r list) s of (Abort, s) \<Rightarrow> (Abort, s) | (_, s) \<Rightarrow> (Ret 0, s))"
| "count_rows (r # rs) s =
     (case sqlite3_step (r # rs) s of
        (Ret _, s) \<Rightarrow> io_bind (count_rows rs) (\<lambda>n. io_res (Ret (Suc n))) s
      | (Fail e, s) \<Rightarrow> (Ret 0, s)
      | (Abort, s) \<Rightarrow> (Abort, s))"

text \<open>The recursion is bounded by the stack: \<open>n\<close> is the number of nested calls that it has room for. The
  value of a child that cannot be read stays null.\<close>

function read_key_recursive :: "nat \<Rightarrow> int \<Rightarrow> (config_db \<times> GglBumpAlloc, GglObject) io"
  and read_children :: "nat \<Rightarrow> key_row list \<Rightarrow> GglKVVec \<Rightarrow> (config_db \<times> GglBumpAlloc, GglKVVec) io" where
  "read_key_recursive 0 key_id s = (Abort, s)"
| "read_key_recursive (Suc n) key_id s =
     io_bind (on_db (value_is_present_for_key key_id)) (\<lambda>value_is_present.
     if value_is_present then read_value_at_key key_id
     else
       io_bind (on_db (count_rows (sql_get_children key_id (config_database (fst s))))) (\<lambda>children_count.
       if children_count = 0 then io_res (Fail GGL_ERR_FAILURE)
       else
         io_bind (read_alloc (children_count * 40) 8) (\<lambda>_.
         io_bind (read_children n (sql_get_children key_id (config_database (fst s)))
             \<lparr>vec_items = [], vec_capacity = children_count\<rparr>) (\<lambda>kvs.
         io_res (Ret (OBJ_MAP (vec_items kvs))))))) s"
| "read_children n [] kvs s =
     (case on_db (sqlite3_step ([] :: key_row list)) s of (Abort, s) \<Rightarrow> (Abort, s) | (_, s) \<Rightarrow> (Ret kvs, s))"
| "read_children n ((child_key_id, name) # rows) kvs s =
     (case on_db (sqlite3_step ((child_key_id, name) # rows)) s of
        (Fail e, s) \<Rightarrow> (Ret kvs, s)
      | (Abort, s) \<Rightarrow> (Abort, s)
      | (Ret _, s) \<Rightarrow>
          io_bind (read_alloc (length name) 1) (\<lambda>_ s.
          case read_key_recursive n child_key_id s of
            (Abort, s) \<Rightarrow> (Abort, s)
          | (r, s) \<Rightarrow>
              (case ggl_kv_vec_push kvs (name, case r of Ret v \<Rightarrow> v | _ \<Rightarrow> OBJ_NULL) of
                 (err, kvs) \<Rightarrow> if err \<noteq> GGL_ERR_OK then (Fail err, s) else read_children n rows kvs s)) s)"
  by pat_completeness auto
termination
  by (relation "inv_image (less_than <*lex*> less_than)
      (\<lambda>x. case x of Inl (n, i, s) \<Rightarrow> (2 * n, 0) | Inr (n, rows, kvs, s) \<Rightarrow> (2 * n + 1, length rows))") auto

definition key_value_memory :: buffer where
  "key_value_memory = replicate 10000 0"

definition ggconfig_get_value_from_key :: "nat \<Rightarrow> buffer list \<Rightarrow> (config_db, GglObject) io" where
  "ggconfig_get_value_from_key stack key_path s =
     (if \<not> config_initialized s then (Fail GGL_ERR_FAILURE, s)
      else
        io_bind (get_key_ids key_path) (\<lambda>ids.
        io_bind (io_res (last_id ids)) (\<lambda>key_id s.
        case read_key_recursive stack key_id (s, ggl_bump_alloc_init key_value_memory) of
          (r, s, _) \<Rightarrow> (r, s))) s)"

section \<open>Subscribing\<close>

definition ggconfig_get_key_notification :: "buffer list \<Rightarrow> u32 \<Rightarrow> (config_db, unit) io" where
  "ggconfig_get_key_notification key_path handle s =
     (if \<not> config_initialized s then (Fail GGL_ERR_FAILURE, s)
      else
        io_bind (get_key_ids key_path) (\<lambda>ids.
        io_bind (io_res (last_id ids)) (\<lambda>key_id.
        sql_change (sql_add_subscription key_id handle))) s)"

section \<open>The tree of keys\<close>

definition keys_of :: "config_tables \<Rightarrow> int set" where
  "keys_of db = fst ` set (keyTable db)"

definition parent_of :: "config_tables \<Rightarrow> int \<Rightarrow> int option" where
  "parent_of db k = map_of (relationTable db) k"

text \<open>The tables are a tree: identifiers are unique and small, a key comes after its parent, the keys below
  one parent (or at the root) have different names, a key with a value has no children, and subscribers
  are at keys.\<close>

definition db_inv :: "config_tables \<Rightarrow> bool" where
  "db_inv db \<longleftrightarrow>
     distinct (map fst (keyTable db)) \<and> distinct (map fst (relationTable db)) \<and> distinct (map fst (valueTable db)) \<and>
     (\<forall>k \<in> keys_of db. 1 \<le> k \<and> k \<le> int (length (keyTable db))) \<and>
     (\<forall>(c, p) \<in> set (relationTable db). c \<in> keys_of db \<and> p \<in> keys_of db \<and> p < c) \<and>
     (\<forall>(k, n) \<in> set (keyTable db). \<forall>(k', n') \<in> set (keyTable db).
        n = n' \<longrightarrow> parent_of db k = parent_of db k' \<longrightarrow> k = k') \<and>
     (\<forall>k \<in> fst ` set (valueTable db). k \<in> keys_of db \<and> k \<notin> snd ` set (relationTable db)) \<and>
     fst ` set (subscriberTable db) \<subseteq> keys_of db"

lemma db_invD:
  assumes "db_inv db"
  shows "distinct (map fst (keyTable db))" "distinct (map fst (relationTable db))" "distinct (map fst (valueTable db))"
    "k \<in> keys_of db \<Longrightarrow> 1 \<le> k" "k \<in> keys_of db \<Longrightarrow> k \<le> int (length (keyTable db))"
    "(c, p) \<in> set (relationTable db) \<Longrightarrow> c \<in> keys_of db" "(c, p) \<in> set (relationTable db) \<Longrightarrow> p \<in> keys_of db"
    "(c, p) \<in> set (relationTable db) \<Longrightarrow> p < c"
    "(k, n) \<in> set (keyTable db) \<Longrightarrow> (k', n) \<in> set (keyTable db) \<Longrightarrow> parent_of db k = parent_of db k' \<Longrightarrow> k = k'"
    "k \<in> fst ` set (valueTable db) \<Longrightarrow> k \<in> keys_of db"
    "k \<in> fst ` set (valueTable db) \<Longrightarrow> k \<notin> snd ` set (relationTable db)"
    "fst ` set (subscriberTable db) \<subseteq> keys_of db"
  using assms unfolding db_inv_def by auto

text \<open>The key named \<open>n\<close> below a parent, or at the root.\<close>

definition child :: "config_tables \<Rightarrow> int option \<Rightarrow> buffer \<Rightarrow> int option" where
  "child db par n = map_option fst (List.find (\<lambda>k. snd k = n \<and> parent_of db (fst k) = par) (keyTable db))"

lemma find_member: "List.find P xs = Some x \<Longrightarrow> x \<in> set xs \<and> P x"
  by (auto simp: find_Some_iff)

lemma child_Some:
  assumes "db_inv db"
  shows "child db par n = Some k \<longleftrightarrow> (k, n) \<in> set (keyTable db) \<and> parent_of db k = par"
proof
  assume "child db par n = Some k"
  then show "(k, n) \<in> set (keyTable db) \<and> parent_of db k = par"
    by (auto simp: child_def dest: find_member)
next
  assume k: "(k, n) \<in> set (keyTable db) \<and> parent_of db k = par"
  then obtain k' n' where f: "List.find (\<lambda>k. snd k = n \<and> parent_of db (fst k) = par) (keyTable db) = Some (k', n')"
    by (cases "List.find (\<lambda>k. snd k = n \<and> parent_of db (fst k) = par) (keyTable db)") (auto simp: find_None_iff)
  then have "(k', n) \<in> set (keyTable db)" "parent_of db k' = par"
    by (auto dest: find_member)
  with k db_invD(9) [OF assms, of k n k'] f show "child db par n = Some k" by (simp add: child_def)
qed

lemma child_in_keys: "db_inv db \<Longrightarrow> child db par n = Some k \<Longrightarrow> k \<in> keys_of db"
  by (force simp: child_Some keys_of_def)

lemma child_inj:
  assumes "db_inv db" "child db par n = Some k" "child db par' n' = Some k"
  shows "par = par' \<and> n = n'"
  using assms db_invD(1) [OF assms(1)] by (auto simp: child_Some dest: eq_key_imp_eq_value)

text \<open>A query for one key gives its identifier, if there is one.\<close>

lemma comprehension_filter: "[f x. x \<leftarrow> xs, P x] = map f (filter P xs)"
  by (induction xs) auto

lemma join_unique:
  "distinct (map fst rel) \<Longrightarrow> [x. r \<leftarrow> rel, a = fst r \<and> Q (snd r)] =
    (case map_of rel a of Some b \<Rightarrow> if Q b then [x] else [] | None \<Rightarrow> [])"
proof (induction rel)
  case (Cons r rel)
  have "[x. r \<leftarrow> rel, fst r = fst r \<and> False] = []" by simp
  moreover have "map_of rel a = None" if "a = fst r"
    using that Cons.prems by (auto simp: map_of_eq_None_iff)
  ultimately show ?case using Cons by (cases r) auto
qed simp

lemma at_most_one:
  assumes "distinct xs" "set xs = set_option y"
  shows "xs = (case y of None \<Rightarrow> [] | Some k \<Rightarrow> [k])"
proof (cases y)
  case (Some k)
  with assms show ?thesis by (cases xs; cases "tl xs") auto
qed (use assms in simp)

lemma root_rows: "db_inv db \<Longrightarrow> sql_get_root_key n db = (case child db None n of None \<Rightarrow> [] | Some k \<Rightarrow> [k])"
proof (rule at_most_one)
  assume inv: "db_inv db"
  have rows: "sql_get_root_key n db = map fst (filter (\<lambda>k. fst k \<notin> fst ` set (relationTable db) \<and> snd k = n) (keyTable db))"
    by (simp add: sql_get_root_key_def comprehension_filter)
  then show "distinct (sql_get_root_key n db)" using db_invD(1) [OF inv] by (simp add: distinct_map_filter)
  show "set (sql_get_root_key n db) = set_option (child db None n)"
    using inv rows by (force simp: child_Some parent_of_def map_of_eq_None_iff)
qed

lemma parent_rows:
  "db_inv db \<Longrightarrow> sql_get_key_with_parent n p db = (case child db (Some p) n of None \<Rightarrow> [] | Some k \<Rightarrow> [k])"
proof (rule at_most_one)
  assume inv: "db_inv db"
  have "[fst kt. rt \<leftarrow> relationTable db, fst kt = fst rt \<and> snd kt = n \<and> snd rt = p] =
      (if snd kt = n \<and> parent_of db (fst kt) = Some p then [fst kt] else [])" for kt :: key_row
    using join_unique [OF db_invD(2) [OF inv], where x = "fst kt" and a = "fst kt" and Q = "\<lambda>q. snd kt = n \<and> q = p"]
    by (auto simp: parent_of_def split: option.splits)
  then have rows: "sql_get_key_with_parent n p db = map fst (filter (\<lambda>k. snd k = n \<and> parent_of db (fst k) = Some p) (keyTable db))"
    by (simp add: sql_get_key_with_parent_def comprehension_filter)
  then show "distinct (sql_get_key_with_parent n p db)" using db_invD(1) [OF inv] by (simp add: distinct_map_filter)
  show "set (sql_get_key_with_parent n p db) = set_option (child db (Some p) n)"
    using inv rows by (force simp: child_Some)
qed

lemma cte_rows:
  "db_inv db \<Longrightarrow> [fst kt. rt \<leftarrow> relationTable db, p = snd rt, kt \<leftarrow> keyTable db, fst rt = fst kt \<and> snd kt = n] =
    (case child db (Some p) n of None \<Rightarrow> [] | Some k \<Rightarrow> [k])"
proof (rule at_most_one)
  assume inv: "db_inv db"
  let ?rows = "[fst kt. rt \<leftarrow> relationTable db, p = snd rt, kt \<leftarrow> keyTable db, fst rt = fst kt \<and> snd kt = n]"
  have "[fst kt. kt \<leftarrow> keyTable db, fst rt = fst kt \<and> snd kt = n] =
      (if map_of (keyTable db) (fst rt) = Some n then [fst rt] else [])" for rt :: relation_row
  proof -
    have "[fst kt. kt \<leftarrow> keyTable db, fst rt = fst kt \<and> snd kt = n] =
        [fst rt. kt \<leftarrow> keyTable db, fst rt = fst kt \<and> snd kt = n]"
      by (intro arg_cong [where f = concat] map_cong) auto
    with join_unique [OF db_invD(1) [OF inv], where x = "fst rt" and a = "fst rt" and Q = "\<lambda>m. m = n"] show ?thesis
      by (auto split: option.splits)
  qed
  then have "?rows = [fst rt. rt \<leftarrow> relationTable db, p = snd rt \<and> map_of (keyTable db) (fst rt) = Some n]"
    by (intro arg_cong [where f = concat] map_cong) auto
  then have rows: "?rows = map fst (filter (\<lambda>rt. p = snd rt \<and> map_of (keyTable db) (fst rt) = Some n) (relationTable db))"
    by (simp only: comprehension_filter)
  then show "distinct ?rows" using db_invD(2) [OF inv] by (simp add: distinct_map_filter)
  have "map_of (keyTable db) k = Some n \<longleftrightarrow> (k, n) \<in> set (keyTable db)"
    and "map_of (relationTable db) k = Some p \<longleftrightarrow> (k, p) \<in> set (relationTable db)" for k
    using db_invD(1,2) [OF inv] by simp_all
  then show "set ?rows = set_option (child db (Some p) n)"
    unfolding rows by (auto simp: child_Some [OF inv] parent_of_def image_iff)
qed
section \<open>Key paths\<close>

text \<open>The node at the end of a path: \<open>Some None\<close> is the root of the tree, which has no key.\<close>

definition node :: "config_tables \<Rightarrow> buffer list \<Rightarrow> int option option" where
  "node db p = foldl (\<lambda>acc n. case acc of None \<Rightarrow> None | Some par \<Rightarrow> map_option Some (child db par n)) (Some None) p"

lemma node_Nil [simp]: "node db [] = Some None"
  by (simp add: node_def)

lemma node_snoc: "node db (p @ [n]) = (case node db p of None \<Rightarrow> None | Some par \<Rightarrow> map_option Some (child db par n))"
  by (simp add: node_def)

lemma node_snoc_Some [simp]:
  "node db (p @ [n]) = Some x \<longleftrightarrow> (\<exists>par k. node db p = Some par \<and> child db par n = Some k \<and> x = Some k)"
  by (auto simp: node_snoc split: option.splits)

lemma node_Some_key: "node db p = Some (Some k) \<Longrightarrow> db_inv db \<Longrightarrow> k \<in> keys_of db"
  by (cases p rule: rev_cases) (auto dest: child_in_keys)

lemma node_prefix: "node db (p @ q) \<noteq> None \<Longrightarrow> node db p \<noteq> None"
proof (induction q rule: rev_induct)
  case (snoc n q)
  then show ?case by (auto simp: append_assoc [symmetric] simp del: append_assoc)
qed simp

lemma node_inj:
  assumes "db_inv db"
  shows "node db p = Some x \<Longrightarrow> node db q = Some x \<Longrightarrow> p = q"
proof (induction p arbitrary: q x rule: rev_induct)
  case Nil
  then show ?case by (cases q rule: rev_cases) auto
next
  case (snoc n p)
  then obtain par k where k: "node db p = Some par" "child db par n = Some k" "x = Some k" by auto
  with snoc.prems(2) obtain q' m par' where q: "q = q' @ [m]" "node db q' = Some par'" "child db par' m = Some k"
    by (cases q rule: rev_cases) auto
  with child_inj [OF assms k(2) q(3)] snoc.IH [OF k(1)] show ?case by simp
qed

text \<open>What is at a path: \<open>None\<close> if there is no key, and otherwise the value of the key with its timestamp, if
  it has one.\<close>

type_synonym config_view = "buffer list \<Rightarrow> (buffer \<times> int) option option"

definition view :: "config_tables \<Rightarrow> config_view" where
  "view db p = (case node db p of Some (Some k) \<Rightarrow> Some (map_of (valueTable db) k) | _ \<Rightarrow> None)"

text \<open>A new key below \<open>par\<close>.\<close>

definition add_key :: "config_tables \<Rightarrow> buffer \<Rightarrow> int option \<Rightarrow> config_tables" where
  "add_key db n par =
     db\<lparr>keyTable := keyTable db @ [(next_keyid db, n)],
        relationTable := relationTable db @ (case par of None \<Rightarrow> [] | Some p \<Rightarrow> [(next_keyid db, p)])\<rparr>"

lemma fold_max_bounds: "(a :: int) \<le> fold max xs a \<and> (\<forall>x\<in>set xs. x \<le> fold max xs a) \<and> (fold max xs a = a \<or> fold max xs a \<in> set xs)"
proof (induction xs arbitrary: a)
  case (Cons x xs)
  from Cons.IH [of "max x a"] show ?case by (auto simp: max_def split: if_splits)
qed simp

lemma next_keyid_new:
  assumes "db_inv db"
  shows "next_keyid db \<notin> keys_of db" "1 \<le> next_keyid db" "next_keyid db \<le> int (length (keyTable db)) + 1"
    "k \<in> keys_of db \<Longrightarrow> k < next_keyid db"
proof -
  note m = fold_max_bounds [of 0 "map fst (keyTable db)"]
  show "1 \<le> next_keyid db" using m by (simp add: next_keyid_def)
  show less: "k < next_keyid db" if "k \<in> keys_of db" for k using m that by (auto simp: next_keyid_def keys_of_def)
  then show "next_keyid db \<notin> keys_of db" by blast
  show "next_keyid db \<le> int (length (keyTable db)) + 1"
    using m db_invD(5) [OF assms, of "fold max (map fst (keyTable db)) 0"] by (auto simp: next_keyid_def keys_of_def)
qed

text \<open>The name is free, and the parent is a key without a value.\<close>

definition can_add :: "config_tables \<Rightarrow> buffer \<Rightarrow> int option \<Rightarrow> bool" where
  "can_add db n par \<longleftrightarrow> db_inv db \<and> child db par n = None \<and>
     (\<forall>p. par = Some p \<longrightarrow> p \<in> keys_of db \<and> p \<notin> fst ` set (valueTable db))"

lemma can_addD:
  assumes "can_add db n par"
  shows "db_inv db" "child db par n = None" "par = Some p \<Longrightarrow> p \<in> keys_of db"
    "par = Some p \<Longrightarrow> p \<notin> fst ` set (valueTable db)"
  using assms by (auto simp: can_add_def)

lemma add_key_parent:
  assumes "can_add db n par"
  shows "parent_of (add_key db n par) k = (if k = next_keyid db then par else parent_of db k)"
proof -
  note inv = can_addD(1) [OF assms]
  have "next_keyid db \<notin> fst ` set (relationTable db)" using db_invD(6) [OF inv] next_keyid_new(1) [OF inv] by force
  then have "map_of (relationTable db) (next_keyid db) = None" by (simp add: map_of_eq_None_iff)
  then show ?thesis
    by (auto simp: parent_of_def add_key_def map_add_def split: option.splits)
qed

lemma add_key_keys: "keys_of (add_key db n par) = insert (next_keyid db) (keys_of db)"
  by (simp add: keys_of_def add_key_def)

lemma add_key_relations:
  "(c, p) \<in> set (relationTable (add_key db n par)) \<longleftrightarrow>
    (c, p) \<in> set (relationTable db) \<or> c = next_keyid db \<and> par = Some p"
  by (auto simp: add_key_def split: option.splits)

lemma add_key_inv:
  assumes "can_add db n par"
  shows "db_inv (add_key db n par)"
  unfolding db_inv_def
proof (intro conjI)
  note inv = can_addD(1) [OF assms] and free = can_addD(2) [OF assms] and par = can_addD(3,4) [OF assms]
  note new = next_keyid_new [OF inv]
  show "distinct (map fst (keyTable (add_key db n par)))"
    using db_invD(1) [OF inv] new(1) by (simp add: add_key_def keys_of_def)
  show "distinct (map fst (relationTable (add_key db n par)))"
    using db_invD(2,6) [OF inv] new(1) by (force simp: add_key_def split: option.splits)
  show "fst ` set (subscriberTable (add_key db n par)) \<subseteq> keys_of (add_key db n par)"
    using db_invD(12) [OF inv] by (auto simp: add_key_keys) (auto simp: add_key_def)
  show "distinct (map fst (valueTable (add_key db n par)))" using db_invD(3) [OF inv] by (simp add: add_key_def)
  show "\<forall>k\<in>keys_of (add_key db n par). 1 \<le> k \<and> k \<le> int (length (keyTable (add_key db n par)))"
  proof
    fix k assume "k \<in> keys_of (add_key db n par)"
    then consider "k = next_keyid db" | "k \<in> keys_of db" by (auto simp: add_key_keys)
    then show "1 \<le> k \<and> k \<le> int (length (keyTable (add_key db n par)))"
      using db_invD(4,5) [OF inv, of k] new(2,3) by cases (simp_all add: add_key_def)
  qed
  show "\<forall>(c, p)\<in>set (relationTable (add_key db n par)).
      c \<in> keys_of (add_key db n par) \<and> p \<in> keys_of (add_key db n par) \<and> p < c"
    using db_invD(6,7,8) [OF inv] new(4) par by (auto simp: add_key_relations add_key_keys)
  show "\<forall>k\<in>fst ` set (valueTable (add_key db n par)).
      k \<in> keys_of (add_key db n par) \<and> k \<notin> snd ` set (relationTable (add_key db n par))"
  proof
    fix k assume "k \<in> fst ` set (valueTable (add_key db n par))"
    then have k: "k \<in> fst ` set (valueTable db)" by (simp add: add_key_def)
    have "snd ` set (relationTable (add_key db n par)) = snd ` set (relationTable db) \<union> set_option par"
      by (auto simp: add_key_def split: option.splits)
    moreover have "par \<noteq> Some k" using par(2) k by blast
    ultimately show "k \<in> keys_of (add_key db n par) \<and> k \<notin> snd ` set (relationTable (add_key db n par))"
      using db_invD(10,11) [OF inv k] by (cases par) (auto simp: add_key_keys)
  qed
  have "parent_of db k \<noteq> par" if "(k, n) \<in> set (keyTable db)" for k
    using that free child_Some [OF inv, of par n k] by auto
  moreover have "k \<noteq> next_keyid db" if "(k, m) \<in> set (keyTable db)" for k m
    using that new(1) by (force simp: keys_of_def)
  ultimately show "\<forall>(k, m)\<in>set (keyTable (add_key db n par)). \<forall>(k', m')\<in>set (keyTable (add_key db n par)).
      m = m' \<longrightarrow> parent_of (add_key db n par) k = parent_of (add_key db n par) k' \<longrightarrow> k = k'"
    using db_invD(9) [OF inv] unfolding add_key_parent [OF assms] by (auto simp: add_key_def) metis
qed

lemma add_key_child:
  assumes "can_add db n par"
  shows "child (add_key db n par) par' m = (if par' = par \<and> m = n then Some (next_keyid db) else child db par' m)"
proof -
  note inv = can_addD(1) [OF assms] and free = can_addD(2) [OF assms]
  note new_inv = add_key_inv [OF assms] and new_parent = add_key_parent [OF assms]
  have rows: "(k, m) \<in> set (keyTable (add_key db n par)) \<longleftrightarrow> (k, m) \<in> set (keyTable db) \<or> k = next_keyid db \<and> m = n" for k m
    by (auto simp: add_key_def)
  have old: "k \<noteq> next_keyid db" if "(k, m) \<in> set (keyTable db)" for k m
    using that next_keyid_new(1) [OF inv] by (force simp: keys_of_def)
  show ?thesis
  proof (cases "child db par' m")
    case (Some k)
    with free have "\<not> (par' = par \<and> m = n)" by auto
    moreover have "child (add_key db n par) par' m = Some k"
      using Some old by (auto simp: child_Some [OF inv] child_Some [OF new_inv] new_parent rows)
    ultimately show ?thesis using Some by auto
  next
    case None
    then have "\<not> ((k, m) \<in> set (keyTable db) \<and> parent_of db k = par')" for k
      using child_Some [OF inv, of par' m k] by auto
    then have "child (add_key db n par) par' m = Some k \<longleftrightarrow> k = next_keyid db \<and> m = n \<and> par' = par" for k
      using old by (auto simp: child_Some [OF new_inv] new_parent rows)
    with None show ?thesis
      by (cases "child (add_key db n par) par' m") auto
  qed
qed

lemma add_key_node:
  assumes "can_add db n par" "node db p = Some par"
  shows "node (add_key db n par) q = (if q = p @ [n] then Some (Some (next_keyid db)) else node db q)"
proof (induction q rule: rev_induct)
  case (snoc m q)
  note inv = can_addD(1) [OF assms(1)] and free = can_addD(2) [OF assms(1)] and par = can_addD(3) [OF assms(1)]
  have "child db (Some (next_keyid db)) m = None"
  proof (rule ccontr)
    assume "child db (Some (next_keyid db)) m \<noteq> None"
    then obtain k where "(k, next_keyid db) \<in> set (relationTable db)"
      by (auto simp: child_Some [OF inv] parent_of_def dest: map_of_SomeD)
    with db_invD(7) [OF inv] next_keyid_new(1) [OF inv] show False by blast
  qed
  moreover have "par \<noteq> Some (next_keyid db)" using par next_keyid_new(1) [OF inv] by blast
  moreover have "node db (p @ [n]) = None" using assms(2) free by (simp add: node_snoc)
  moreover have "q = p" if "node db q = Some par" using node_inj [OF inv that assms(2)] .
  ultimately show ?case
    using snoc assms(2) by (cases "node db q") (auto simp: node_snoc add_key_child [OF assms(1)])
qed simp

section \<open>What the operations do\<close>

text \<open>Nothing but the sequence of faults is used up.\<close>

definition same :: "config_db \<Rightarrow> config_db \<Rightarrow> bool" where
  "same s s' \<longleftrightarrow> config_database s' = config_database s \<and> config_initialized s' = config_initialized s \<and>
     notified s' = notified s \<and> (sql_faults s = [] \<longrightarrow> sql_faults s' = [])"

lemma same_refl [simp]: "same s s"
  by (simp add: same_def)

lemma same_trans: "same s t \<Longrightarrow> same t u \<Longrightarrow> same s u"
  by (simp add: same_def)

lemma step_cases:
  assumes "sqlite3_step rows s = (r, s')"
  shows "same s s' \<and> (r = Ret (case rows of [] \<Rightarrow> None | x # xs \<Rightarrow> Some (x, xs)) \<or> r = Fail GGL_ERR_FAILURE \<and> sql_faults s \<noteq> [])"
  using assms by (auto simp: sqlite3_step_def same_def Let_def split: list.splits if_splits)

lemma sql_first_cases:
  assumes "sql_first q s = (r, s')"
  shows "same s s' \<and> (r = Ret (case q (config_database s) of [] \<Rightarrow> None | x # xs \<Rightarrow> Some x) \<or>
    r = Fail GGL_ERR_FAILURE \<and> sql_faults s \<noteq> [])"
proof -
  obtain r1 s1 where s1: "sqlite3_step (q (config_database s)) s = (r1, s1)" by fastforce
  with step_cases [OF s1] assms show ?thesis
    by (cases r1) (auto simp: sql_first_def split: list.splits)
qed

lemma sql_change_cases:
  assumes "sql_change c s = (r, s')"
  obtains (ok) db where "r = Ret ()" "c (config_database s) = Some db" "same (s\<lparr>config_database := db\<rparr>) s'"
  | (failed) "r = Fail GGL_ERR_FAILURE" "same s s'" "sql_faults s \<noteq> [] \<or> c (config_database s) = None"
proof -
  obtain r1 s1 where s1: "sqlite3_step ([] :: unit list) s = (r1, s1)" by fastforce
  note st = step_cases [OF s1]
  show thesis
  proof (cases r1)
    case (Ret x)
    with s1 assms st show ?thesis
      by (cases "c (config_database s)") (auto simp: sql_change_def same_def intro: ok failed)
  qed (use s1 assms st failed in \<open>auto simp: sql_change_def\<close>)
qed

lemma column_int_id [simp]: "1 \<le> k \<Longrightarrow> k < 2 ^ 31 \<Longrightarrow> column_int k = k"
  by (simp add: column_int_def sint_sbintrunc' signed_take_bit_int_eq_self)

text \<open>There is room for \<open>n\<close> more keys whose identifiers fit the 32 bits that are read.\<close>

definition room :: "nat \<Rightarrow> config_tables \<Rightarrow> bool" where
  "room n db \<longleftrightarrow> length (keyTable db) + n < 2 ^ 31"

lemma column_int_key: "db_inv db \<Longrightarrow> room n db \<Longrightarrow> k \<in> keys_of db \<Longrightarrow> column_int k = k"
  using db_invD(4,5) [of db k] by (intro column_int_id) (auto simp: room_def)

lemma select_rows:
  "distinct (map fst xs) \<Longrightarrow> [f r. r \<leftarrow> xs, fst r = k] = (case map_of xs k of None \<Rightarrow> [] | Some x \<Rightarrow> [f (k, x)])"
proof (induction xs)
  case (Cons r xs)
  have "map_of xs k = None" if "k = fst r" using that Cons.prems by (auto simp: map_of_eq_None_iff)
  with Cons show ?case by (cases r) auto
qed simp

lemma value_rows:
  assumes "db_inv db"
  shows "sql_value_present k db = (case map_of (valueTable db) k of None \<Rightarrow> [] | Some x \<Rightarrow> [k])"
    "sql_read_value k db = (case map_of (valueTable db) k of None \<Rightarrow> [] | Some (v, t) \<Rightarrow> [v])"
    "sql_get_timestamp k db = (case map_of (valueTable db) k of None \<Rightarrow> [] | Some (v, t) \<Rightarrow> [t])"
  by (simp_all add: sql_value_present_def sql_read_value_def sql_get_timestamp_def select_rows [OF db_invD(3) [OF assms]]
      split: option.splits)

lemma value_is_present_cases:
  assumes "value_is_present_for_key k s = (r, s')" "db_inv (config_database s)" "room n (config_database s)"
    and "k \<in> keys_of (config_database s)"
  shows "same s s' \<and> (r = Ret (map_of (valueTable (config_database s)) k \<noteq> None) \<or> r = Fail GGL_ERR_FAILURE \<and> sql_faults s \<noteq> [])"
proof -
  obtain r1 s1 where s1: "sql_first (sql_value_present k) s = (r1, s1)" by fastforce
  have "column_int k \<noteq> 0" using column_int_key [OF assms(2-4)] db_invD(4) [OF assms(2,4)] by simp
  with sql_first_cases [OF s1] s1 assms(1) show ?thesis
    by (cases r1) (auto simp: value_is_present_for_key_def value_rows(1) [OF assms(2)] split: option.splits)
qed

lemma find_key_cases:
  assumes "find_key_with_parent n p s = (r, s')" "db_inv (config_database s)" "room m (config_database s)"
  shows "same s s' \<and>
    (r = (case child (config_database s) (Some p) n of Some k \<Rightarrow> Ret k | None \<Rightarrow> Fail GGL_ERR_NOENTRY) \<or>
     r = Fail GGL_ERR_FAILURE \<and> sql_faults s \<noteq> [])"
proof -
  obtain r1 s1 where s1: "sql_first (sql_get_key_with_parent n p) s = (r1, s1)" by fastforce
  have "column_int k = k" if "child (config_database s) (Some p) n = Some k" for k
    using column_int_key [OF assms(2,3) child_in_keys [OF assms(2) that]] .
  with sql_first_cases [OF s1] s1 assms(1) show ?thesis
    by (cases r1) (auto simp: find_key_with_parent_def parent_rows [OF assms(2)] split: option.splits)
qed

text \<open>The steps of the search for a path.\<close>

fun path_ids :: "config_tables \<Rightarrow> int option \<Rightarrow> buffer list \<Rightarrow> int list" where
  "path_ids db par [] = []"
| "path_ids db par (n # ns) = (case child db par n of None \<Rightarrow> [] | Some k \<Rightarrow> k # path_ids db (Some k) ns)"

lemma path_cte_Nil: "path_cte db [] ns = []"
  by (induction ns) auto

lemma path_cte_ids: "db_inv db \<Longrightarrow> path_cte db [k] ns = k # path_ids db (Some k) ns"
proof (induction ns arbitrary: k)
  case (Cons n ns)
  from cte_rows [OF Cons.prems, of k n] Cons show ?case by (auto simp: path_cte_Nil split: option.splits)
qed simp

lemma find_element_ids:
  "db_inv db \<Longrightarrow> length p \<le> GGL_MAX_OBJECT_DEPTH \<Longrightarrow> sql_find_element p db = path_ids db None p"
  by (cases p) (auto simp: sql_find_element_def root_rows path_cte_ids path_cte_Nil split: option.splits)

text \<open>\<open>ids\<close> are the keys along the path \<open>p\<close>.\<close>

definition along :: "config_tables \<Rightarrow> buffer list \<Rightarrow> int list \<Rightarrow> bool" where
  "along db p ids \<longleftrightarrow> length ids = length p \<and> (\<forall>m<length p. node db (take (Suc m) p) = Some (Some (ids ! m)))"

lemma along_snoc:
  assumes "along db p ids" "node db (p @ [n]) = Some (Some k)"
  shows "along db (p @ [n]) (ids @ [k])"
  using assms by (auto simp: along_def nth_append less_Suc_eq)

lemma along_last: "along db p ids \<Longrightarrow> p \<noteq> [] \<Longrightarrow> ids \<noteq> [] \<and> node db p = Some (Some (last ids))"
proof -
  assume a: "along db p ids" "p \<noteq> []"
  then have "ids \<noteq> []" by (auto simp: along_def)
  moreover have "node db (take (Suc (length p - 1)) p) = Some (Some (ids ! (length p - 1)))"
    using a unfolding along_def by (metis diff_less length_greater_0_conv zero_less_one)
  ultimately show "ids \<noteq> [] \<and> node db p = Some (Some (last ids))"
    using a by (simp add: last_conv_nth along_def)
qed

lemma path_ids_keys: "db_inv db \<Longrightarrow> k \<in> set (path_ids db par ns) \<Longrightarrow> k \<in> keys_of db"
proof (induction ns arbitrary: par)
  case (Cons n ns)
  then show ?case by (cases "child db par n") (auto dest: child_in_keys)
qed simp

lemma path_ids_along:
  assumes "node db p = Some par" "along db p ids"
  shows "if length (path_ids db par ns) = length ns then along db (p @ ns) (ids @ path_ids db par ns)
    else node db (p @ ns) = None"
  using assms
proof (induction ns arbitrary: p par ids)
  case (Cons n ns)
  show ?case
  proof (cases "child db par n")
    case None
    then have "node db (p @ [n]) = None" using Cons.prems by (simp add: node_snoc)
    with node_prefix [of db "p @ [n]" ns] have "node db (p @ n # ns) = None" by (cases "node db (p @ n # ns)") auto
    with None show ?thesis by simp
  next
    case (Some k)
    then have k: "node db (p @ [n]) = Some (Some k)" using Cons.prems by simp
    from Cons.IH [OF k along_snoc [OF Cons.prems(2) k]] Some show ?thesis by (auto split: if_splits)
  qed
qed simp

lemma step_key_ids_cases:
  assumes "step_key_ids n rows ids s = (r, s')" "vec_capacity ids \<ge> length (vec_items ids) + n"
    and "\<And>k. k \<in> set rows \<Longrightarrow> column_int k = k"
  shows "same s s' \<and>
    (r = Fail GGL_ERR_FAILURE \<and> sql_faults s \<noteq> [] \<or>
     r = (if n \<le> length rows then Ret (ids\<lparr>vec_items := vec_items ids @ take n rows\<rparr>) else Fail GGL_ERR_NOENTRY))"
  using assms
proof (induction n arbitrary: rows ids s)
  case (Suc n)
  obtain r1 s1 where s1: "sqlite3_step rows s = (r1, s1)" by fastforce
  note st = step_cases [OF s1]
  show ?case
  proof (cases rows)
    case Nil
    with st s1 Suc.prems(1) show ?thesis by (cases r1) simp_all
  next
    case (Cons k ks)
    let ?ids = "ids\<lparr>vec_items := vec_items ids @ [k]\<rparr>"
    have push: "snd (vec_push ids (column_int k)) = ?ids" using Suc.prems(2,3) Cons by (simp add: vec_push_def)
    show ?thesis
    proof (cases r1)
      case (Ret x)
      then have st1: "same s s1" "r1 = Ret (Some (k, ks))" using st Cons by simp_all
      then have "step_key_ids n ks ?ids s1 = (r, s')" using Cons s1 Suc.prems(1) push by simp
      from Suc.IH [OF this] Suc.prems(2,3) Cons have ih: "same s1 s' \<and>
          (r = Fail GGL_ERR_FAILURE \<and> sql_faults s1 \<noteq> [] \<or>
           r = (if n \<le> length ks then Ret (?ids\<lparr>vec_items := vec_items ?ids @ take n ks\<rparr>) else Fail GGL_ERR_NOENTRY))"
        by simp
      moreover have "sql_faults s \<noteq> []" if "sql_faults s1 \<noteq> []" using that st1(1) by (auto simp: same_def)
      ultimately show ?thesis using Cons same_trans [OF st1(1), of s'] by (cases "n \<le> length ks") auto
    next
      case (Fail e)
      then show ?thesis using st s1 Suc.prems(1) Cons by simp
    qed (use st in simp)
  qed
qed auto

lemma print_keys_no_Fail: "print_keys m x p acc \<noteq> Fail e"
proof (induction m x p acc rule: print_keys.induct)
  case (2 m x key keys acc)
  then show ?case by (auto simp: Let_def strncat_path_def)
qed simp

lemma get_key_ids_cases:
  assumes "get_key_ids p s = (r, s')" "db_inv (config_database s)" "room n (config_database s)"
    and "length p \<le> GGL_MAX_OBJECT_DEPTH" "print_key_path p \<noteq> Abort"
  obtains (found) ids where "r = Ret ids" "same s s'" "vec_capacity ids = GGL_MAX_OBJECT_DEPTH"
      "along (config_database s) p (vec_items ids)"
  | (absent) "r = Fail GGL_ERR_NOENTRY" "same s s'" "node (config_database s) p = None"
  | (fault) "r = Fail GGL_ERR_FAILURE" "same s s'" "sql_faults s \<noteq> []"
proof -
  let ?db = "config_database s" and ?ids = "path_ids (config_database s) None p"
  have c: "column_int k = k" if "k \<in> set ?ids" for k
    using column_int_key [OF assms(2,3)] path_ids_keys [OF assms(2) that] by simp
  have le: "length (path_ids ?db par ns) \<le> length ns" for par ns
    by (induction ?db par ns rule: path_ids.induct) (auto split: option.splits)
  have step: "step_key_ids (length p) ?ids no_ids s = (r, s')"
    using assms(1,5) find_element_ids [OF assms(2,4)] print_keys_no_Fail [of 0 0 p "[]"]
    by (cases "print_key_path p") (simp_all add: get_key_ids_def print_key_path_def)
  have al: "if length ?ids = length p then along ?db p ?ids else node ?db p = None"
    using path_ids_along [of ?db "[]" None "[]" p] by (simp add: along_def split: if_splits)
  from step_key_ids_cases [OF step] assms(4) c have
    "same s s' \<and> (r = Fail GGL_ERR_FAILURE \<and> sql_faults s \<noteq> [] \<or>
     r = (if length p \<le> length ?ids then Ret (no_ids\<lparr>vec_items := take (length p) ?ids\<rparr>) else Fail GGL_ERR_NOENTRY))"
    by (cases "length p \<le> length ?ids") (auto simp: no_ids_def)
  with al le [of None p] show thesis
    by (cases "length ?ids = length p") (auto simp: no_ids_def intro: found absent fault)
qed

section \<open>Creating a path\<close>

text \<open>Everything but the tables is kept.\<close>

definition kept :: "config_db \<Rightarrow> config_db \<Rightarrow> bool" where
  "kept s s' \<longleftrightarrow> config_initialized s' = config_initialized s \<and> notified s' = notified s \<and>
     (sql_faults s = [] \<longrightarrow> sql_faults s' = [])"

lemma same_kept: "same s s' \<Longrightarrow> kept s s'"
  and same_update_kept: "same (s\<lparr>config_database := db\<rparr>) s' \<Longrightarrow> kept s s'"
  and kept_trans: "kept s t \<Longrightarrow> kept t u \<Longrightarrow> kept s u"
  and same_tables: "same (s\<lparr>config_database := db\<rparr>) s' \<Longrightarrow> config_database s' = db"
  by (auto simp: same_def kept_def)

lemma key_insert_cases:
  assumes "key_insert n s = (r, s')" "db_inv (config_database s)" "room m (config_database s)"
  obtains (ok) "r = Ret (next_keyid (config_database s))"
      "same (s\<lparr>config_database := config_database s\<lparr>keyTable := keyTable (config_database s) @ [(next_keyid (config_database s), n)]\<rparr>\<rparr>) s'"
  | (fault) "r = Fail GGL_ERR_FAILURE" "same s s'" "sql_faults s \<noteq> []"
proof -
  obtain r1 s1 where s1: "sql_change (sql_key_insert n) s = (r1, s1)" by fastforce
  have "next_keyid (config_database s) \<le> 2 ^ 63 - 1"
    using next_keyid_new(3) [OF assms(2)] assms(3) by (simp add: room_def)
  then have ins: "sql_key_insert n (config_database s) =
      Some (config_database s\<lparr>keyTable := keyTable (config_database s) @ [(next_keyid (config_database s), n)]\<rparr>)"
    by (simp add: sql_key_insert_def)
  from s1 show thesis
  proof (cases rule: sql_change_cases)
    case (ok db)
    with s1 ins assms(1) show thesis by (auto simp: key_insert_def Let_def intro: that(1))
  next
    case failed
    with s1 ins assms(1) show thesis by (auto simp: key_insert_def Let_def intro: that(2))
  qed
qed

lemma find_or_create_cases:
  assumes "find_or_create_key n par s = (r, s')" "db_inv (config_database s)" "room m (config_database s)"
    and "par \<in> keys_of (config_database s)"
  obtains (old) k where "r = Ret k" "same s s'" "child (config_database s) (Some par) n = Some k"
      "map_of (valueTable (config_database s)) k = None"
  | (new) "r = Ret (next_keyid (config_database s))" "child (config_database s) (Some par) n = None"
      "same (s\<lparr>config_database := add_key (config_database s) n (Some par)\<rparr>) s'"
  | (valued) k where "r = Fail GGL_ERR_FAILURE" "same s s'" "child (config_database s) (Some par) n = Some k"
      "map_of (valueTable (config_database s)) k \<noteq> None"
  | (fault) "r = Fail GGL_ERR_FAILURE" "kept s s'" "sql_faults s \<noteq> []"
proof -
  let ?db = "config_database s"
  obtain r1 s1 where s1: "find_key_with_parent n par s = (r1, s1)" by fastforce
  note f = find_key_cases [OF s1 assms(2,3)]
  then have same: "same s s1" and db: "config_database s1 = ?db" and fl: "sql_faults s1 \<noteq> [] \<Longrightarrow> sql_faults s \<noteq> []"
    by (auto simp: same_def)
  consider (a) k where "r1 = Ret k" "child ?db (Some par) n = Some k" | (b) "r1 = Fail GGL_ERR_NOENTRY" "child ?db (Some par) n = None"
    | (c) "r1 = Fail GGL_ERR_FAILURE" "sql_faults s \<noteq> []"
    using f by (auto split: option.splits)
  then show thesis
  proof cases
    case (a k)
    obtain r2 s2 where s2: "value_is_present_for_key k s1 = (r2, s2)" by fastforce
    from value_is_present_cases [OF s2, of m] db assms(2,3) child_in_keys [OF assms(2) a(2)]
    have v: "same s1 s2 \<and> (r2 = Ret (map_of (valueTable ?db) k \<noteq> None) \<or> r2 = Fail GGL_ERR_FAILURE \<and> sql_faults s1 \<noteq> [])" by simp
    have "same s s2" using same_trans same v by blast
    with v a s1 s2 assms(1) fl show thesis
      by (cases "map_of (valueTable ?db) k"; cases r2)
        (auto simp: find_or_create_key_def split: if_splits intro: old valued fault same_kept)
  next
    case b
    obtain r2 s2 where s2: "key_insert n s1 = (r2, s2)" by fastforce
    have "db_inv (config_database s1)" "room m (config_database s1)" using db assms by simp_all
    with s2 show thesis
    proof (cases rule: key_insert_cases)
      case ok
      let ?k = "next_keyid ?db" and ?db1 = "?db\<lparr>keyTable := keyTable ?db @ [(next_keyid ?db, n)]\<rparr>"
      have s2': "same (s\<lparr>config_database := ?db1\<rparr>) s2" using ok(2) db same by (simp add: same_def)
      obtain r3 s3 where s3: "relation_insert ?k par s2 = (r3, s3)" by fastforce
      have "?k \<notin> fst ` set (relationTable ?db)"
        using db_invD(6) [OF assms(2)] next_keyid_new(1) [OF assms(2)] by force
      then have ins: "sql_insert_relation ?k par (config_database s2) = Some (add_key ?db n (Some par))"
        using s2' by (simp add: sql_insert_relation_def same_def add_key_def)
      have res: "find_or_create_key n par s = io_bind (relation_insert ?k par) (\<lambda>_. io_res (Ret ?k)) s2"
        using s1 s2 ok(1) b db by (simp add: find_or_create_key_def)
      from s3 [unfolded relation_insert_def] show thesis
      proof (cases rule: sql_change_cases)
        case (ok db')
        with res s3 ins assms(1) s2' b show thesis
          by (intro new) (auto simp: same_def)
      next
        case failed
        with res s3 ins assms(1) s2' show thesis by (intro fault) (auto simp: same_def kept_def)
      qed
    next
      case fault
      with s1 s2 b assms(1) same fl show thesis
        by (intro that(4)) (auto simp: find_or_create_key_def same_def kept_def)
    qed
  next
    case c
    with s1 assms(1) same show thesis by (intro fault) (auto simp: find_or_create_key_def same_kept)
  qed
qed

text \<open>\<open>db'\<close> has in addition to \<open>db\<close> the keys of the path \<open>p\<close>, without values.\<close>

definition extends :: "config_tables \<Rightarrow> buffer list \<Rightarrow> config_tables \<Rightarrow> bool" where
  "extends db p db' \<longleftrightarrow> db_inv db' \<and> valueTable db' = valueTable db \<and> subscriberTable db' = subscriberTable db \<and>
     keys_of db \<subseteq> keys_of db' \<and> (\<forall>q. node db q \<noteq> None \<longrightarrow> node db' q = node db q) \<and>
     (\<forall>q. node db q = None \<longrightarrow> (node db' q \<noteq> None \<longleftrightarrow> prefix q p)) \<and>
     (\<forall>q k. node db q = None \<longrightarrow> node db' q = Some (Some k) \<longrightarrow> k \<notin> keys_of db)"

lemma extends_refl: "db_inv db \<Longrightarrow> node db p \<noteq> None \<Longrightarrow> extends db p db"
proof -
  assume a: "db_inv db" "node db p \<noteq> None"
  have "node db q \<noteq> None" if "prefix q p" for q using that a(2) node_prefix unfolding prefix_def by blast
  with a show "extends db p db" unfolding extends_def by (metis option.distinct(1) subset_refl)
qed

lemma extends_keep:
  assumes "extends db p db'" "node db' (p @ [n]) \<noteq> None"
  shows "extends db (p @ [n]) db'"
proof -
  have "\<not> prefix (p @ [n]) p" by (auto simp: prefix_def)
  with assms have "node db (p @ [n]) \<noteq> None" by (auto simp: extends_def simp del: node_snoc_Some)
  with assms(1) show ?thesis by (auto simp: extends_def prefix_snoc simp del: node_snoc_Some)
qed

lemma extends_add:
  assumes "extends db p db'" "node db' p = Some par" "can_add db' n par"
  shows "extends db (p @ [n]) (add_key db' n par)"
proof -
  note nd = add_key_node [OF assms(3,2)]
  have "node db' (p @ [n]) = None" using assms(2) can_addD(2) [OF assms(3)] by (simp add: node_snoc)
  moreover have "next_keyid db' \<notin> keys_of db"
    using next_keyid_new(1) [OF can_addD(1) [OF assms(3)]] assms(1) by (auto simp: extends_def)
  moreover have "valueTable (add_key db' n par) = valueTable db'" "subscriberTable (add_key db' n par) = subscriberTable db'"
    by (simp_all add: add_key_def)
  ultimately show ?thesis
    using assms(1) add_key_inv [OF assms(3)] unfolding extends_def nd prefix_snoc
    by (auto simp: add_key_keys simp del: node_snoc_Some)
qed

text \<open>A key on the path has a value.\<close>

definition blocked :: "config_tables \<Rightarrow> buffer list \<Rightarrow> buffer list \<Rightarrow> bool" where
  "blocked db pre ns \<longleftrightarrow> (\<exists>m<length ns. \<exists>x. view db (pre @ take (Suc m) ns) = Some (Some x))"

lemma blocked_Cons:
  "blocked db pre (n # ns) \<longleftrightarrow> (\<exists>x. view db (pre @ [n]) = Some (Some x)) \<or> blocked db (pre @ [n]) ns"
  by (auto simp: blocked_def less_Suc_eq_0_disj)

lemma blocked_cong:
  assumes "\<And>q. q \<noteq> pre \<Longrightarrow> view db q = view db' q"
  shows "blocked db pre ns = blocked db' pre ns"
proof -
  have "view db (pre @ take (Suc m) ns) = view db' (pre @ take (Suc m) ns)" if "m < length ns" for m
    using that by (intro assms) auto
  then show ?thesis unfolding blocked_def by (metis (no_types))
qed

lemma add_key_view:
  assumes "can_add db n par" "node db p = Some par"
  shows "view (add_key db n par) q = (if q = p @ [n] then Some None else view db q)"
proof -
  note inv = can_addD(1) [OF assms(1)]
  have "map_of (valueTable db) (next_keyid db) = None"
    using next_keyid_new(1) [OF inv] db_invD(10) [OF inv] by (auto simp: map_of_eq_None_iff)
  moreover have "valueTable (add_key db n par) = valueTable db" by (simp add: add_key_def)
  ultimately show ?thesis by (simp add: view_def add_key_node [OF assms] split: option.split)
qed

lemma view_key: "node db p = Some (Some k) \<Longrightarrow> view db p = Some (map_of (valueTable db) k)"
  by (simp add: view_def)

text \<open>What a step along the path that succeeded has reached.\<close>

definition reached :: "config_tables \<Rightarrow> buffer list \<Rightarrow> int \<Rightarrow> int vec \<Rightarrow> config_tables \<Rightarrow> bool" where
  "reached db0 pre k ids db \<longleftrightarrow> extends db0 pre db \<and> node db pre = Some (Some k) \<and>
     map_of (valueTable db) k = None \<and> along db pre (vec_items ids) \<and> vec_capacity ids = GGL_MAX_OBJECT_DEPTH"

lemma reachedD:
  assumes "reached db0 pre k ids db"
  shows "db_inv db" "extends db0 pre db" "node db pre = Some (Some k)" "map_of (valueTable db) k = None"
    "along db pre (vec_items ids)" "vec_capacity ids = GGL_MAX_OBJECT_DEPTH" "k \<in> keys_of db"
  using assms node_Some_key [of db pre k] by (auto simp: reached_def extends_def)

lemma along_cong: "along db p ids \<Longrightarrow> (\<And>q. node db q \<noteq> None \<Longrightarrow> node db' q = node db q) \<Longrightarrow> along db' p ids"
  by (auto simp: along_def)

lemma push_id: "along db pre (vec_items ids) \<Longrightarrow> vec_capacity ids = GGL_MAX_OBJECT_DEPTH \<Longrightarrow>
    length pre < GGL_MAX_OBJECT_DEPTH \<Longrightarrow> snd (vec_push ids k) = ids\<lparr>vec_items := vec_items ids @ [k]\<rparr>"
  by (simp add: vec_push_def along_def)

lemma reached_old:
  assumes "reached db0 pre p ids db" "child db (Some p) n = Some k" "map_of (valueTable db) k = None"
    and "length pre < GGL_MAX_OBJECT_DEPTH"
  shows "reached db0 (pre @ [n]) k (snd (vec_push ids k)) db"
proof -
  note a = reachedD [OF assms(1)]
  have k: "node db (pre @ [n]) = Some (Some k)" using a(3) assms(2) by simp
  show ?thesis
    using extends_keep [OF a(2), of n] k along_snoc [OF a(5) k] assms(3) push_id [OF a(5,6) assms(4)] a(6)
    by (simp add: reached_def)
qed

lemma reached_new:
  assumes "reached db0 pre p ids db" "child db (Some p) n = None" "length pre < GGL_MAX_OBJECT_DEPTH"
  shows "reached db0 (pre @ [n]) (next_keyid db) (snd (vec_push ids (next_keyid db))) (add_key db n (Some p))"
    and "can_add db n (Some p)"
proof -
  note a = reachedD [OF assms(1)]
  show ca: "can_add db n (Some p)" using a assms(2) by (auto simp: can_add_def map_of_eq_None_iff)
  note nd = add_key_node [OF ca a(3)]
  have k: "node (add_key db n (Some p)) (pre @ [n]) = Some (Some (next_keyid db))" using nd by (simp del: node_snoc_Some)
  have "node db (pre @ [n]) = None" using a(3) assms(2) by (simp add: node_snoc)
  then have al: "along (add_key db n (Some p)) pre (vec_items ids)"
    using a(5) nd by (intro along_cong [OF a(5)]) (auto simp del: node_snoc_Some)
  have "map_of (valueTable (add_key db n (Some p))) (next_keyid db) = None"
    using next_keyid_new(1) [OF a(1)] db_invD(10) [OF a(1)] by (auto simp: add_key_def map_of_eq_None_iff)
  then show "reached db0 (pre @ [n]) (next_keyid db) (snd (vec_push ids (next_keyid db))) (add_key db n (Some p))"
    using extends_add [OF a(2,3) ca] k along_snoc [OF al k] push_id [OF a(5,6) assms(3)] a(6)
    by (simp add: reached_def del: node_snoc_Some)
qed

lemma create_keys_cases:
  assumes "create_keys ns par ids s = (r, s')" "reached db0 pre par ids (config_database s)"
    and "length pre + length ns \<le> GGL_MAX_OBJECT_DEPTH" "room (length ns) (config_database s)"
  shows "kept s s' \<and>
    (r = Fail GGL_ERR_FAILURE \<and> (sql_faults s \<noteq> [] \<or> blocked (config_database s) pre ns) \<or>
     (\<exists>ids' k. r = Ret ids' \<and> \<not> blocked (config_database s) pre ns \<and> reached db0 (pre @ ns) k ids' (config_database s')))"
  using assms
proof (induction ns arbitrary: par ids s pre)
  case Nil
  then show ?case by (auto simp: blocked_def kept_def)
next
  case (Cons n ns)
  let ?db = "config_database s"
  note a = reachedD [OF Cons.prems(2)]
  have len: "length pre < GGL_MAX_OBJECT_DEPTH" "length (pre @ [n]) + length ns \<le> GGL_MAX_OBJECT_DEPTH"
    using Cons.prems(3) by simp_all
  obtain r1 s1 where s1: "find_or_create_key n par s = (r1, s1)" by fastforce
  from s1 a(1) Cons.prems(4) a(7) show ?case
  proof (cases rule: find_or_create_cases)
    case (old k)
    then have rest: "create_keys ns k (snd (vec_push ids k)) s1 = (r, s')" and db: "config_database s1 = ?db"
      using Cons.prems(1) s1 by (auto simp: same_def)
    have "view ?db (pre @ [n]) = Some None" using view_key [of ?db "pre @ [n]" k] a(3) old by simp
    then have "blocked ?db pre (n # ns) = blocked ?db (pre @ [n]) ns" by (simp add: blocked_Cons)
    with Cons.IH [OF rest, of "pre @ [n]"] reached_old [OF Cons.prems(2) old(3,4) len(1)] len(2) Cons.prems(4) db old(2)
    show ?thesis by (auto simp: room_def same_def kept_def)
  next
    case new
    note new' = reached_new [OF Cons.prems(2) new(2) len(1)]
    have rest: "create_keys ns (next_keyid ?db) (snd (vec_push ids (next_keyid ?db))) s1 = (r, s')"
      and db: "config_database s1 = add_key ?db n (Some par)"
      using Cons.prems(1) s1 new by (auto simp: same_def)
    note vw = add_key_view [OF new'(2) a(3)]
    have "view ?db (pre @ [n]) = None" using a(3) new(2) by (simp add: view_def node_snoc)
    then have "blocked ?db pre (n # ns) = blocked (add_key ?db n (Some par)) (pre @ [n]) ns"
      using blocked_cong [of "pre @ [n]" ?db "add_key ?db n (Some par)" ns] vw by (simp add: blocked_Cons)
    moreover have "room (length ns) (add_key ?db n (Some par))" using Cons.prems(4) by (simp add: room_def add_key_def)
    ultimately show ?thesis
      using Cons.IH [OF rest, of "pre @ [n]"] new'(1) len(2) db same_update_kept [OF new(3)]
      by (auto simp: kept_def)
  next
    case (valued k)
    then obtain x where "view ?db (pre @ [n]) = Some (Some x)" using view_key [of ?db "pre @ [n]" k] a(3) by auto
    with valued Cons.prems(1) s1 show ?thesis by (auto simp: blocked_Cons same_kept)
  next
    case fault
    with Cons.prems(1) s1 show ?thesis by auto
  qed
qed

lemma root_reached:
  assumes "db_inv db"
  shows "child db None n = Some k \<Longrightarrow> map_of (valueTable db) k = None \<Longrightarrow> reached db [n] k (snd (vec_push no_ids k)) db"
    and "child db None n = None \<Longrightarrow> can_add db n None"
    and "child db None n = None \<Longrightarrow> reached db [n] (next_keyid db) (snd (vec_push no_ids (next_keyid db))) (add_key db n None)"
proof -
  have push: "snd (vec_push no_ids k) = \<lparr>vec_items = [k], vec_capacity = GGL_MAX_OBJECT_DEPTH\<rparr>" for k
    by (simp add: vec_push_def no_ids_def GGL_MAX_OBJECT_DEPTH_def)
  show "reached db [n] k (snd (vec_push no_ids k)) db" if "child db None n = Some k" "map_of (valueTable db) k = None"
  proof -
    have "node db [n] = Some (Some k)" using that(1) node_snoc_Some [of db "[]" n] by simp
    with extends_refl [OF assms, of "[n]"] that(2) show ?thesis by (simp add: reached_def push along_def)
  qed
  assume n: "child db None n = None"
  with assms show ca: "can_add db n None" by (simp add: can_add_def)
  have k: "node (add_key db n None) [n] = Some (Some (next_keyid db))"
    using add_key_node [OF ca, of "[]" "[n]"] by simp
  have "map_of (valueTable (add_key db n None)) (next_keyid db) = None"
    using next_keyid_new(1) [OF assms] db_invD(10) [OF assms] by (auto simp: add_key_def map_of_eq_None_iff)
  with extends_add [OF extends_refl [OF assms, of "[]"] _ ca] k
  show "reached db [n] (next_keyid db) (snd (vec_push no_ids (next_keyid db))) (add_key db n None)"
    by (simp add: reached_def push along_def)
qed

lemma root_key_cases:
  assumes "get_or_create_key_at_root n s = (r, s')" "db_inv (config_database s)" "room m (config_database s)"
  obtains (old) k where "r = Ret k" "same s s'" "child (config_database s) None n = Some k"
  | (new) "r = Ret (next_keyid (config_database s))" "child (config_database s) None n = None"
      "same (s\<lparr>config_database := add_key (config_database s) n None\<rparr>) s'"
  | (fault) "r = Fail GGL_ERR_FAILURE" "same s s'" "sql_faults s \<noteq> []"
proof -
  let ?db = "config_database s"
  obtain r1 s1 where s1: "sql_first (sql_get_root_key n) s = (r1, s1)" by fastforce
  note f = sql_first_cases [OF s1]
  have db: "config_database s1 = ?db" and same: "same s s1" and fl: "sql_faults s1 \<noteq> [] \<Longrightarrow> sql_faults s \<noteq> []"
    using f by (auto simp: same_def)
  have c: "column_int k = k" if "child ?db None n = Some k" for k
    using column_int_key [OF assms(2,3) child_in_keys [OF assms(2) that]] .
  consider (a) k where "r1 = Ret (Some k)" "child ?db None n = Some k" | (b) "r1 = Ret None" "child ?db None n = None"
    | (c) "r1 = Fail GGL_ERR_FAILURE" "sql_faults s \<noteq> []"
    using f by (auto simp: root_rows [OF assms(2)] split: option.splits)
  then show thesis
  proof cases
    case (a k)
    with s1 assms(1) c same show thesis by (intro old [of k]) (auto simp: get_or_create_key_at_root_def)
  next
    case b
    then have ki: "key_insert n s1 = (r, s')" using s1 assms(1) by (simp add: get_or_create_key_at_root_def)
    have "db_inv (config_database s1)" "room m (config_database s1)" using db assms by simp_all
    with ki show thesis
    proof (cases rule: key_insert_cases)
      case ok
      with b db same show thesis by (intro new) (auto simp: same_def add_key_def)
    next
      case fault
      with same fl show thesis by (intro that(3)) (auto simp: same_def)
    qed
  next
    case c
    with s1 assms(1) same show thesis by (intro fault) (auto simp: get_or_create_key_at_root_def)
  qed
qed

lemma create_key_path_cases:
  assumes "create_key_path p s = (r, s')" "p \<noteq> []" "db_inv (config_database s)"
    and "length p \<le> GGL_MAX_OBJECT_DEPTH" "room (length p) (config_database s)"
  shows "kept s s' \<and>
    (r = Fail GGL_ERR_FAILURE \<and> (sql_faults s \<noteq> [] \<or> blocked (config_database s) [] p) \<or>
     (\<exists>ids k. r = Ret ids \<and> \<not> blocked (config_database s) [] p \<and> reached (config_database s) p k ids (config_database s')))"
proof -
  let ?db = "config_database s"
  obtain n ns where p: "p = n # ns" using assms(2) by (cases p) auto
  obtain r1 s1 where s1: "get_or_create_key_at_root n s = (r1, s1)" by fastforce
  note rr = root_reached [OF assms(3), of n]
  have rest: "kept s s' \<and> (r = Fail GGL_ERR_FAILURE \<and> (sql_faults s \<noteq> [] \<or> blocked db' [] p) \<or>
      (\<exists>ids k. r = Ret ids \<and> \<not> blocked db' [] p \<and> reached ?db p k ids (config_database s')))"
    if k: "r1 = Ret k" "kept s s1" "config_database s1 = db'" "db_inv db'" "room (length p) db' \<or> room (length ns) db' \<and> room 0 db'"
      "node db' [n] = Some (Some k)"
      "map_of (valueTable db') k = None \<Longrightarrow> reached ?db [n] k (snd (vec_push no_ids k)) db'" for k db'
  proof -
    have room: "room (length ns) db'" "room 0 db'" using k(5) p by (auto simp: room_def)
    obtain r2 s2 where s2: "value_is_present_for_key k s1 = (r2, s2)" by fastforce
    have v: "same s1 s2 \<and> (r2 = Ret (map_of (valueTable db') k \<noteq> None) \<or> r2 = Fail GGL_ERR_FAILURE \<and> sql_faults s1 \<noteq> [])"
      using value_is_present_cases [OF s2, of 0] k node_Some_key [OF k(6,4)] room by simp
    have vw: "view db' [n] = Some (map_of (valueTable db') k)" using k(6) by (rule view_key)
    have cp: "create_key_path p s = io_bind (value_is_present_for_key k) (\<lambda>b.
        if b then io_res (Fail GGL_ERR_FAILURE) else create_keys ns k (snd (vec_push no_ids k))) s1"
      using s1 k(1) by (simp add: create_key_path_def p)
    show ?thesis
    proof (cases "r2 = Ret False")
      case True
      then have none: "map_of (valueTable db') k = None" using v by (cases "map_of (valueTable db') k") auto
      have ck: "create_keys ns k (snd (vec_push no_ids k)) s2 = (r, s')" using cp s2 True assms(1) by (simp add: io_bind_def)
      have "blocked db' [] p = blocked db' [n] ns" using vw none p by (simp add: blocked_Cons)
      with create_keys_cases [OF ck, of ?db "[n]"] k(7) [OF none] assms(4) room(1) v k(2,3) p
      show ?thesis by (auto simp: same_def kept_def)
    next
      case False
      with v vw cp s2 assms(1) k(2) p have "r = Fail GGL_ERR_FAILURE" "s' = s2" "sql_faults s \<noteq> [] \<or> blocked db' [] p"
        by (auto simp: blocked_Cons kept_def io_bind_def)
      with v k(2) show ?thesis by (auto simp: same_def kept_def)
    qed
  qed
  from s1 assms(3,5) show ?thesis
  proof (cases rule: root_key_cases)
    case (old k)
    have "node ?db [n] = Some (Some k)" using old(3) node_snoc_Some [of ?db "[]" n] by simp
    with rest [OF old(1) same_kept [OF old(2)], of ?db] old(2) assms(3,5) rr(1) [OF old(3)] show ?thesis
      by (auto simp: same_def)
  next
    case new
    have nd: "node (add_key ?db n None) [n] = Some (Some (next_keyid ?db))"
      using add_key_node [OF rr(2) [OF new(2)], of "[]" "[n]"] by simp
    have "view (add_key ?db n None) q = (if q = [n] then Some None else view ?db q)" for q
      using add_key_view [OF rr(2) [OF new(2)], of "[]" q] by simp
    moreover have "view ?db [n] = None" using new(2) node_snoc [of ?db "[]" n] by (simp add: view_def)
    ultimately have "blocked (add_key ?db n None) [] p = blocked ?db [] p"
      using blocked_cong [of "[n]" ?db "add_key ?db n None" ns] by (simp add: p blocked_Cons)
    moreover have "room (length ns) (add_key ?db n None) \<and> room 0 (add_key ?db n None)"
      using assms(5) p by (auto simp: room_def add_key_def)
    ultimately show ?thesis
      using rest [OF new(1) same_update_kept [OF new(3)] same_tables [OF new(3)] add_key_inv [OF rr(2) [OF new(2)]] _ nd]
        rr(3) [OF new(2)] by simp
  next
    case fault
    with s1 assms(1) p show ?thesis by (auto simp: create_key_path_def same_kept)
  qed
qed

section \<open>Values\<close>

text \<open>A change of the values alone.\<close>

definition set_values :: "config_tables \<Rightarrow> value_row list \<Rightarrow> config_tables" where
  "set_values db rows = db\<lparr>valueTable := rows\<rparr>"

lemma set_values_tables [simp]:
  "keyTable (set_values db rows) = keyTable db" "relationTable (set_values db rows) = relationTable db"
  "valueTable (set_values db rows) = rows" "subscriberTable (set_values db rows) = subscriberTable db"
  by (simp_all add: set_values_def)

lemma set_values_node [simp]: "node (set_values db rows) p = node db p"
proof -
  have "child (set_values db rows) = child db" by (intro ext) (simp add: child_def parent_of_def)
  then show ?thesis unfolding node_def by (simp only:)
qed

lemma set_values_inv:
  assumes "db_inv db" "distinct (map fst rows)" "\<And>k. k \<in> fst ` set rows \<Longrightarrow> k \<in> keys_of db \<and> k \<notin> snd ` set (relationTable db)"
  shows "db_inv (set_values db rows)"
  using assms unfolding db_inv_def by (simp add: keys_of_def parent_of_def)

lemma leaf_no_children:
  assumes "db_inv db" "node db p = Some (Some k)" "\<And>n. node db (p @ [n]) = None"
  shows "k \<notin> snd ` set (relationTable db)"
proof
  assume "k \<in> snd ` set (relationTable db)"
  then obtain c where c: "(c, k) \<in> set (relationTable db)" by auto
  then obtain n where "(c, n) \<in> set (keyTable db)" using db_invD(6) [OF assms(1)] by (force simp: keys_of_def)
  moreover have "parent_of db c = Some k" using c db_invD(2) [OF assms(1)] by (simp add: parent_of_def)
  ultimately have "child db (Some k) n = Some c" by (simp add: child_Some [OF assms(1)])
  with assms(2) assms(3) [of n] show False by (simp add: node_snoc)
qed

lemma extends_view:
  assumes "extends db p db'" "db_inv db"
  shows "view db' q = (if view db q = None \<and> q \<noteq> [] \<and> prefix q p then Some None else view db q)"
proof (cases "node db q")
  case None
  show ?thesis
  proof (cases "node db' q")
    case (Some x)
    with None have "q \<noteq> []" by auto
    then obtain k where k: "x = Some k" using Some by (cases q rule: rev_cases) auto
    with Some None assms(1) have "k \<notin> keys_of db" by (auto simp: extends_def)
    then have "map_of (valueTable db') k = None"
      using assms db_invD(10) [OF assms(2)] by (auto simp: extends_def map_of_eq_None_iff)
    moreover have "prefix q p" using Some None assms(1) unfolding extends_def by (metis option.distinct(1))
    ultimately show ?thesis using Some None k \<open>q \<noteq> []\<close> by (simp add: view_def)
  next
    case n: None
    then have "\<not> prefix q p" using None assms(1) unfolding extends_def by (metis option.distinct(1))
    with n None show ?thesis by (simp add: view_def)
  qed
next
  case (Some x)
  then have "node db' q = Some x" "valueTable db' = valueTable db" using assms(1) by (auto simp: extends_def)
  with Some have "view db' q = view db q" by (simp add: view_def split: option.split)
  moreover have "view db q \<noteq> None" if "q \<noteq> []"
  proof -
    from that Some obtain k where "x = Some k" by (cases q rule: rev_cases) auto
    with Some show ?thesis by (simp add: view_def)
  qed
  ultimately show ?thesis by auto
qed

text \<open>The map from paths to values that a write is to give; \<open>None\<close> if it is refused.\<close>

definition write_spec :: "config_view \<Rightarrow> buffer list \<Rightarrow> buffer \<Rightarrow> int \<Rightarrow> config_view option" where
  "write_spec c p v t =
     (case c p of
        Some (Some (_, existing)) \<Rightarrow> Some (if existing > t then c else c(p := Some (Some (v, t))))
      | Some None \<Rightarrow> None
      | None \<Rightarrow>
          if \<exists>q x. prefix q p \<and> c q = Some (Some x) then None
          else Some (\<lambda>q. if q = p then Some (Some (v, t))
                         else if c q = None \<and> q \<noteq> [] \<and> prefix q p then Some None else c q))"

lemma blocked_spec: "blocked db [] p \<longleftrightarrow> (\<exists>q x. prefix q p \<and> view db q = Some (Some x))"
proof
  assume "blocked db [] p"
  then show "\<exists>q x. prefix q p \<and> view db q = Some (Some x)"
    unfolding blocked_def by (metis append_Nil take_is_prefix)
next
  assume "\<exists>q x. prefix q p \<and> view db q = Some (Some x)"
  then obtain q x where q: "prefix q p" "view db q = Some (Some x)" by blast
  then have "q \<noteq> []" by (auto simp: view_def)
  with q(1) have "q = take (Suc (length q - 1)) p" "length q - 1 < length p"
    by (cases q; auto simp: prefix_def)+
  with q(2) show "blocked db [] p" unfolding blocked_def append_Nil by metis
qed

text \<open>The creation of a key: the keys of the path are there afterwards, and the last has the value, unless the
  database failed to insert it.\<close>

lemma write_new_key_cases:
  assumes "write_new_key p v t s = (r, s')" "p \<noteq> []" "db_inv (config_database s)" "node (config_database s) p = None"
    and "length p \<le> GGL_MAX_OBJECT_DEPTH" "room (length p) (config_database s)"
  shows "kept s s' \<and>
    (r = Fail GGL_ERR_FAILURE \<and> (sql_faults s \<noteq> [] \<or> blocked (config_database s) [] p) \<or>
     (\<exists>ids. r = Ret ids \<and> \<not> blocked (config_database s) [] p \<and> db_inv (config_database s') \<and>
        along (config_database s') p ids \<and> subscriberTable (config_database s') = subscriberTable (config_database s) \<and>
        (\<exists>db1. extends (config_database s) p db1 \<and> node (config_database s') = node db1 \<and>
          (view (config_database s') = (view db1)(p := Some (Some (v, t))) \<or>
           view (config_database s') = view db1 \<and> sql_faults s \<noteq> []))))"
proof -
  let ?db = "config_database s"
  obtain r1 s1 where s1: "create_key_path p s = (r1, s1)" by fastforce
  note c = create_key_path_cases [OF s1 assms(2,3,5,6)]
  show ?thesis
  proof (cases r1)
    case (Ret ids)
    with c obtain k where k: "reached ?db p k ids (config_database s1)" and nb: "\<not> blocked ?db [] p" by auto
    note a = reachedD [OF k]
    let ?db1 = "config_database s1"
    have id: "last_id ids = Ret k" using along_last [OF a(5) assms(2)] a(3) by (simp add: last_id_def)
    obtain r2 s2 where s2: "value_insert k v t s1 = (r2, s2)" by fastforce
    have "r2 \<noteq> Abort" using s2 [unfolded value_insert_def] by (cases rule: sql_change_cases) simp_all
    then have "io_ignore (value_insert k v t) s1 = (Ret (), s2)" using s2 by (cases r2) (simp_all add: io_ignore_def)
    then have res: "r = Ret (vec_items ids)" "s' = s2"
      using assms(1) s1 Ret id by (simp_all add: write_new_key_def)
    have leaf: "k \<notin> snd ` set (relationTable ?db1)"
    proof (rule leaf_no_children [OF a(1,3)])
      fix n
      have "node ?db (p @ [n]) = None" using node_prefix [of ?db p "[n]"] assms(4) by (cases "node ?db (p @ [n])") auto
      moreover have "\<not> prefix (p @ [n]) p" by (auto simp: prefix_def)
      ultimately show "node ?db1 (p @ [n]) = None"
        using a(2) unfolding extends_def by (metis option.exhaust)
    qed
    have ins: "sql_value_insert k v t ?db1 = Some (set_values ?db1 (valueTable ?db1 @ [(k, v, t)]))"
      using a(4) by (auto simp: sql_value_insert_def set_values_def map_of_eq_None_iff)
    have kp: "kept s s1" using c by blast
    from s2 [unfolded value_insert_def] show ?thesis
    proof (cases rule: sql_change_cases)
      case (ok db2)
      with ins have db2: "config_database s2 = set_values ?db1 (valueTable ?db1 @ [(k, v, t)])" by (simp add: same_def)
      have inv: "db_inv (config_database s2)" unfolding db2
      proof (rule set_values_inv [OF a(1)])
        show "distinct (map fst (valueTable ?db1 @ [(k, v, t)]))"
          using a(4) db_invD(3) [OF a(1)] by (simp add: map_of_eq_None_iff)
        fix k' assume "k' \<in> fst ` set (valueTable ?db1 @ [(k, v, t)])"
        then have "k' = k \<or> k' \<in> fst ` set (valueTable ?db1)" by auto
        then show "k' \<in> keys_of ?db1 \<and> k' \<notin> snd ` set (relationTable ?db1)"
          using a(7) leaf db_invD(10,11) [OF a(1), of k'] by blast
      qed
      have vw: "view (config_database s2) = (view ?db1)(p := Some (Some (v, t)))"
      proof
        fix q
        have "node ?db1 q \<noteq> Some (Some k)" if "q \<noteq> p" using node_inj [OF a(1) _ a(3)] that by blast
        with a(3,4) show "view (config_database s2) q = ((view ?db1)(p := Some (Some (v, t)))) q"
          by (auto simp: view_def db2 map_add_def split: option.splits)
      qed
      have al: "along (config_database s2) p (vec_items ids)" using a(5) by (simp add: db2 along_def)
      have sub: "subscriberTable (config_database s2) = subscriberTable ?db" using a(2) by (simp add: db2 extends_def)
      have "kept s s2" using kp ok(3) by (auto simp: kept_def same_def)
      moreover have "node (config_database s2) = node ?db1" by (rule ext) (simp add: db2)
      ultimately show ?thesis using res nb inv vw al sub a(2) by blast
    next
      case failed
      with ins kp have flt: "sql_faults s \<noteq> []" by (auto simp: kept_def)
      have db2: "config_database s2 = ?db1" and "kept s s2" using failed(2) kp by (auto simp: kept_def same_def)
      moreover have "subscriberTable ?db1 = subscriberTable ?db" using a(2) by (simp add: extends_def)
      ultimately show ?thesis using res nb flt a(1,2,5) unfolding res db2 by blast
    qed
  next
    case (Fail e)
    with c s1 assms(1) show ?thesis by (simp add: write_new_key_def)
  qed (use c in simp)
qed

lemma has_child_rows: "sql_has_child k db = [] \<longleftrightarrow> k \<notin> snd ` set (relationTable db)"
  by (auto simp: sql_has_child_def comprehension_filter [where f = "\<lambda>_. ()"] filter_empty_conv take_eq_Nil)

lemma map_of_update:
  "map_of (map (\<lambda>row. if fst row = k then (fst row, y) else row) rows) i =
    (if i = k \<and> map_of rows k \<noteq> None then Some y else map_of rows i)"
  by (induction rows) auto

lemma value_update_view:
  fixes v :: buffer and t :: int
  assumes "db_inv db" "node db p = Some (Some k)" "map_of (valueTable db) k \<noteq> None"
  defines "db' \<equiv> set_values db (map (\<lambda>row. if fst row = k then (fst row, v, t) else row) (valueTable db))"
  shows "db_inv db'" "view db' = (view db)(p := Some (Some (v, t)))"
proof -
  have fst: "map fst (map (\<lambda>row. if fst row = k then (fst row, v, t) else row) (valueTable db)) = map fst (valueTable db)"
    by auto
  have "fst ` set (map (\<lambda>row. if fst row = k then (fst row, v, t) else row) (valueTable db)) = fst ` set (valueTable db)"
    using arg_cong [OF fst, of set] by (simp only: set_map)
  then show "db_inv db'" unfolding db'_def
    using db_invD(3,10,11) [OF assms(1)] by (intro set_values_inv [OF assms(1)]) (simp_all only: fst, blast)
  show "view db' = (view db)(p := Some (Some (v, t)))"
  proof
    fix q
    have "node db q \<noteq> Some (Some k)" if "q \<noteq> p" using node_inj [OF assms(1) _ assms(2)] that by blast
    then show "view db' q = ((view db)(p := Some (Some (v, t)))) q"
      using assms(2,3) by (auto simp: view_def db'_def map_of_update split: option.splits)
  qed
qed

lemma write_old_key_cases:
  assumes "write_old_key ids v t s = (r, s')" "db_inv (config_database s)" "p \<noteq> []"
    and "along (config_database s) p (vec_items ids)"
  obtains (fault) "r = Fail GGL_ERR_FAILURE" "kept s s'" "sql_faults s \<noteq> []"
  | (inner) e where "r = Fail e" "kept s s'" "view (config_database s) p = Some None"
  | (newer) x t' where "r = Ret None" "same s s'" "view (config_database s) p = Some (Some (x, t'))" "t' > t"
  | (update) x t' where "r = Ret (Some (vec_items ids))" "kept s s'" "view (config_database s) p = Some (Some (x, t'))"
      "\<not> t' > t" "db_inv (config_database s')" "view (config_database s') = (view (config_database s))(p := Some (Some (v, t)))"
      "along (config_database s') p (vec_items ids)" "subscriberTable (config_database s') = subscriberTable (config_database s)"
      "node (config_database s') = node (config_database s)"
proof -
  let ?db = "config_database s"
  from along_last [OF assms(4,3)] obtain k where k: "last_id ids = Ret k" "node ?db p = Some (Some k)"
    by (auto simp: last_id_def)
  note vk = view_key [OF k(2)]
  obtain r1 s1 where s1: "sql_first (sql_has_child k) s = (r1, s1)" by fastforce
  note c1 = sql_first_cases [OF s1]
  then have same1: "same s s1" by blast
  show thesis
  proof (cases "r1 = Ret None")
    case False
    with c1 consider (err) "r1 = Fail GGL_ERR_FAILURE" "sql_faults s \<noteq> []" | (ch) x where "r1 = Ret (Some x)" "k \<in> snd ` set (relationTable ?db)"
      using has_child_rows [of k ?db] by (auto split: list.splits)
    then show thesis
    proof cases
      case err
      with s1 assms(1) k(1) same1 show thesis
        by (intro fault) (auto simp: write_old_key_def child_is_present_for_key_def same_kept)
    next
      case (ch x)
      then have "map_of (valueTable ?db) k = None" using db_invD(11) [OF assms(2), of k] by (auto simp: map_of_eq_None_iff)
      with ch s1 assms(1) k(1) same1 vk show thesis
        by (intro inner) (auto simp: write_old_key_def child_is_present_for_key_def same_kept)
    qed
  next
    case True
    have db1: "config_database s1 = ?db" and fl: "sql_faults s1 \<noteq> [] \<Longrightarrow> sql_faults s \<noteq> []"
      using same1 by (auto simp: same_def)
    obtain r2 s2 where s2: "sql_first (sql_get_timestamp k) s1 = (r2, s2)" by fastforce
    note c2 = sql_first_cases [OF s2]
    then have same2: "same s s2" using same_trans [OF same1] by blast
    have "child_is_present_for_key k s = (Ret False, s1)" using s1 True by (simp add: child_is_present_for_key_def)
    then have w: "write_old_key ids v t s = io_bind (value_get_timestamp k) (\<lambda>t'. if t' > t then io_res (Ret None)
        else io_bind (value_update k v t) (\<lambda>_. io_res (Ret (Some (vec_items ids))))) s1"
      using k(1) by (simp add: write_old_key_def io_bind_def)
    consider (err) "r2 = Fail GGL_ERR_FAILURE" "sql_faults s \<noteq> []" | (none) "r2 = Ret None" "map_of (valueTable ?db) k = None"
      | (some) x t' where "r2 = Ret (Some t')" "map_of (valueTable ?db) k = Some (x, t')"
      using c2 fl by (auto simp: db1 value_rows(3) [OF assms(2)] split: option.splits)
    then show thesis
    proof cases
      case err
      with w s2 assms(1) same2 show thesis by (intro fault) (auto simp: value_get_timestamp_def same_kept)
    next
      case none
      with w s2 assms(1) same2 vk show thesis by (intro inner) (auto simp: value_get_timestamp_def same_kept)
    next
      case (some x t')
      show thesis
      proof (cases "t' > t")
        case True
        with some w s2 assms(1) same2 vk show thesis by (intro newer) (auto simp: value_get_timestamp_def)
      next
        case False
        let ?db' = "set_values ?db (map (\<lambda>row. if fst row = k then (fst row, v, t) else row) (valueTable ?db))"
        have up: "sql_value_update v t k (config_database s2) = Some ?db'"
          using same2 by (simp add: sql_value_update_def set_values_def same_def)
        obtain r3 s3 where s3: "sql_change (sql_value_update v t k) s2 = (r3, s3)" by fastforce
        have w3: "write_old_key ids v t s = io_bind (value_update k v t) (\<lambda>_. io_res (Ret (Some (vec_items ids)))) s2"
          using w s2 some(1) False by (simp add: value_get_timestamp_def)
        from s3 show thesis
        proof (cases rule: sql_change_cases)
          case (ok db')
          then have "r = Ret (Some (vec_items ids))" "s' = s3" "config_database s3 = ?db'" "kept s s3"
            using w3 s3 assms(1) up same2 by (auto simp: value_update_def same_def kept_def)
          moreover have "along ?db' p (vec_items ids)" using assms(4) by (simp add: along_def)
          moreover have "node ?db' = node ?db" by (rule ext) simp
          ultimately show thesis
            using update [of x t'] value_update_view [OF assms(2) k(2), of v t] some(2) vk False by simp
        next
          case failed
          with w3 s3 assms(1) up same2 show thesis
            by (intro fault) (auto simp: value_update_def same_def kept_def)
        qed
      qed
    qed
  qed
qed

section \<open>Notifications\<close>

lemma notify_handles_cases:
  assumes "notify_handles hs p s = (r, s')"
  shows "r \<noteq> Abort \<and> config_database s' = config_database s \<and> config_initialized s' = config_initialized s \<and>
    (sql_faults s = [] \<longrightarrow> sql_faults s' = [] \<and> r = Ret () \<and> notified s' = notified s @ map (\<lambda>h. (h, p)) hs)"
  using assms
proof (induction hs arbitrary: s)
  case Nil
  obtain r1 s1 where s1: "sqlite3_step ([] :: u32 list) s = (r1, s1)" by fastforce
  with step_cases [OF s1] Nil show ?case by (cases r1) (auto simp: same_def)
next
  case (Cons h hs)
  obtain r1 s1 where s1: "sqlite3_step (h # hs) s = (r1, s1)" by fastforce
  note st = step_cases [OF s1]
  show ?case
  proof (cases r1)
    case (Ret x)
    then have rest: "notify_handles hs p (s1\<lparr>notified := notified s1 @ [(h, p)]\<rparr>) = (r, s')"
      using s1 Cons.prems by simp
    from Cons.IH [OF rest] st show ?thesis by (auto simp: same_def)
  qed (use st s1 Cons.prems in \<open>auto simp: same_def\<close>)
qed

lemma notify_nested_cases:
  assumes "notify_nested_key p ids s = (r, s')"
  shows "r \<noteq> Abort \<and> config_database s' = config_database s \<and> config_initialized s' = config_initialized s \<and>
    (sql_faults s = [] \<longrightarrow> sql_faults s' = [] \<and>
      notified s' = notified s @ concat (map (\<lambda>i. map (\<lambda>h. (h, p)) (sql_get_subscribers i (config_database s))) ids))"
  using assms
proof (induction ids arbitrary: s r s')
  case (Cons i ids)
  obtain r1 s1 where s1: "notify_single_key i p s = (r1, s1)" by fastforce
  note n1 = notify_handles_cases [OF s1 [unfolded notify_single_key_def]]
  obtain r2 s2 where s2: "notify_nested_key p ids s1 = (r2, s2)" by fastforce
  note n2 = Cons.IH [OF s2]
  show ?case
  proof (cases r1)
    case (Ret x)
    with Cons.prems s1 s2 n1 n2 show ?thesis by simp
  next
    case (Fail e)
    with Cons.prems s1 s2 n1 n2 show ?thesis by (cases r2) auto
  qed (use n1 in simp)
qed simp

text \<open>The subscribers at a path, and what they are sent when the value at \<open>p\<close> changes: the path, to those at
  every key along it.\<close>

definition subscribers :: "config_tables \<Rightarrow> buffer list \<Rightarrow> u32 list" where
  "subscribers db q =
     (case node db q of
        Some (Some k) \<Rightarrow> map snd (filter (\<lambda>row. fst row = k) (subscriberTable db))
      | _ \<Rightarrow> [])"

definition notices :: "config_tables \<Rightarrow> buffer list \<Rightarrow> (u32 \<times> buffer list) list" where
  "notices db p = concat (map (\<lambda>i. map (\<lambda>h. (h, p)) (subscribers db (take (Suc i) p))) [0..<length p])"

lemma subscriber_rows:
  assumes "db_inv db" "k \<in> keys_of db"
  shows "sql_get_subscribers k db = map snd (filter (\<lambda>row. fst row = k) (subscriberTable db))"
proof -
  have mk: "map_of (keyTable db) k \<noteq> None" using assms(2) by (simp add: keys_of_def map_of_eq_None_iff)
  have "[snd s. t \<leftarrow> keyTable db, fst s = fst t \<and> fst t = k] = (if fst s = k then [snd s] else [])" for s :: subscriber_row
  proof -
    have "(\<lambda>t. if fst s = fst t \<and> fst t = k then [snd s] else []) = (\<lambda>t :: key_row. if fst s = fst t \<and> fst s = k then [snd s] else [])"
      by (rule ext) auto
    with join_unique [OF db_invD(1) [OF assms(1)], where x = "snd s" and a = "fst s" and Q = "\<lambda>_. fst s = k"] mk
    show ?thesis by (auto split: option.splits)
  qed
  then show ?thesis by (simp add: sql_get_subscribers_def comprehension_filter)
qed

lemma along_notices:
  assumes "db_inv db" "along db p ids"
  shows "concat (map (\<lambda>i. map (\<lambda>h. (h, p)) (sql_get_subscribers i db)) ids) = notices db p"
proof -
  have rows: "sql_get_subscribers (ids ! m) db = subscribers db (take (Suc m) p)" if "m < length p" for m
  proof -
    have "node db (take (Suc m) p) = Some (Some (ids ! m))" using assms(2) that by (simp add: along_def)
    with subscriber_rows [OF assms(1) node_Some_key [OF this assms(1)]] show ?thesis by (simp add: subscribers_def)
  qed
  have len: "length ids = length p" using assms(2) by (simp add: along_def)
  have "map (\<lambda>i. map (\<lambda>h. (h, p)) (sql_get_subscribers i db)) ids =
      map (\<lambda>i. map (\<lambda>h. (h, p)) (subscribers db (take (Suc i) p))) [0..<length p]"
    by (rule nth_equalityI) (simp_all add: len rows)
  then show ?thesis by (simp add: notices_def)
qed

lemma extends_subscribers:
  assumes "extends db p db1" "db_inv db" "node db' = node db1" "subscriberTable db' = subscriberTable db"
  shows "subscribers db' q = subscribers db q"
proof (cases "node db q")
  case None
  have "filter (\<lambda>row. fst row = k) (subscriberTable db) = []" if "node db1 q = Some (Some k)" for k
    using that None assms(1) db_invD(12) [OF assms(2)] by (fastforce simp: extends_def filter_empty_conv)
  with None assms(3,4) show ?thesis by (auto simp: subscribers_def split: option.splits)
next
  case (Some x)
  then have "node db1 q = Some x" using assms(1) by (auto simp: extends_def)
  with Some assms(3,4) show ?thesis by (simp add: subscribers_def split: option.splits)
qed

section \<open>What a write does\<close>

lemma rolled_back_simps:
  "m s = (Fail e, s1) \<Longrightarrow> rolled_back db m s = (Fail e, s1\<lparr>config_database := db\<rparr>)"
  "m s = (Ret x, s1) \<Longrightarrow> rolled_back db m s = (Ret x, s1)"
  "m s = (Abort, s1) \<Longrightarrow> rolled_back db m s = (Abort, s1)"
  by (simp_all add: rolled_back_def io_on_error_def)

text \<open>The notification that ends a write.\<close>

lemma notify_end:
  assumes "io_ignore (notify_nested_key p ids) s1 = (r, s')" "db_inv (config_database s1)" "along (config_database s1) p ids"
  shows "r = Ret () \<and> config_database s' = config_database s1 \<and>
    (sql_faults s1 = [] \<longrightarrow> notified s' = notified s1 @ notices (config_database s1) p)"
proof -
  obtain r2 s2 where s2: "notify_nested_key p ids s1 = (r2, s2)" by fastforce
  note n = notify_nested_cases [OF s2]
  with s2 assms(1) have "r = Ret ()" "s' = s2" by (cases r2; simp add: io_ignore_def)+
  with n along_notices [OF assms(2,3)] show ?thesis by simp
qed

lemma notices_cong: "(\<And>q. subscribers db q = subscribers db' q) \<Longrightarrow> notices db p = notices db' p"
  by (simp add: notices_def)

lemma write_new_cases:
  assumes "ggconfig_write_value_at_key p v t s = (r, s')" "get_key_ids p s = (Fail GGL_ERR_NOENTRY, s1)" "same s s1"
    and "config_initialized s" "db_inv (config_database s)" "room (length p) (config_database s)"
    and "p \<noteq> []" "length p \<le> GGL_MAX_OBJECT_DEPTH" "node (config_database s) p = None"
  obtains (refused) "r = Fail GGL_ERR_FAILURE" "config_database s' = config_database s" "notified s' = notified s"
      "sql_faults s \<noteq> [] \<or> write_spec (view (config_database s)) p v t = None"
  | (written) c where "r = Ret ()" "db_inv (config_database s')"
      "write_spec (view (config_database s)) p v t = Some c"
      "view (config_database s') = c \<or> sql_faults s \<noteq> [] \<and> view (config_database s') = c(p := Some None)"
      "sql_faults s = [] \<longrightarrow> notified s' = notified s @ notices (config_database s) p"
      "\<And>q. subscribers (config_database s') q = subscribers (config_database s) q"
proof -
  let ?db = "config_database s"
  have db1: "config_database s1 = ?db" and n1: "notified s1 = notified s" and fl: "sql_faults s1 \<noteq> [] \<Longrightarrow> sql_faults s \<noteq> []"
    using assms(3) by (auto simp: same_def)
  have none: "view ?db p = None" using assms(9) by (simp add: view_def)
  obtain r2 s2 where s2: "write_new_key p v t s1 = (r2, s2)" by fastforce
  from write_new_key_cases [OF s2 assms(7)] db1 assms have c:
    "kept s1 s2 \<and> (r2 = Fail GGL_ERR_FAILURE \<and> (sql_faults s1 \<noteq> [] \<or> blocked ?db [] p) \<or>
     (\<exists>ids. r2 = Ret ids \<and> \<not> blocked ?db [] p \<and> db_inv (config_database s2) \<and> along (config_database s2) p ids \<and>
        subscriberTable (config_database s2) = subscriberTable ?db \<and>
        (\<exists>db1. extends ?db p db1 \<and> node (config_database s2) = node db1 \<and>
          (view (config_database s2) = (view db1)(p := Some (Some (v, t))) \<or>
           view (config_database s2) = view db1 \<and> sql_faults s1 \<noteq> []))))" by simp
  have w: "ggconfig_write_value_at_key p v t s =
      io_bind (rolled_back ?db (write_new_key p v t)) (\<lambda>ids. io_ignore (notify_nested_key p ids)) s1"
    using assms(2,4) by (simp add: ggconfig_write_value_at_key_def)
  from c consider (a) "r2 = Fail GGL_ERR_FAILURE" "sql_faults s1 \<noteq> [] \<or> blocked ?db [] p"
    | (b) ids db' where "r2 = Ret ids" "\<not> blocked ?db [] p" "db_inv (config_database s2)" "along (config_database s2) p ids"
      "subscriberTable (config_database s2) = subscriberTable ?db" "extends ?db p db'" "node (config_database s2) = node db'"
      "view (config_database s2) = (view db')(p := Some (Some (v, t))) \<or> view (config_database s2) = view db' \<and> sql_faults s1 \<noteq> []"
    by blast
  then show thesis
  proof cases
    case a
    then have "r = Fail GGL_ERR_FAILURE" "s' = s2\<lparr>config_database := ?db\<rparr>"
      using w s2 rolled_back_simps(1) [where m = "write_new_key p v t" and db = ?db, OF s2 [unfolded a(1)]] assms(1) by simp_all
    with a(2) fl none c n1 show thesis by (intro refused) (auto simp: write_spec_def blocked_spec kept_def)
  next
    case b
    have e: "io_ignore (notify_nested_key p ids) s2 = (r, s')"
      using w rolled_back_simps(2) [where m = "write_new_key p v t" and db = ?db, OF s2 [unfolded b(1)]] assms(1) by simp
    note n = notify_end [OF e b(3,4)]
    note vw = extends_view [OF b(6) assms(5)]
    let ?c = "\<lambda>q. if q = p then Some (Some (v, t)) else if view ?db q = None \<and> q \<noteq> [] \<and> prefix q p then Some None else view ?db q"
    have spec: "write_spec (view ?db) p v t = Some ?c" using none b(2) by (simp add: write_spec_def blocked_spec)
    have "(view db')(p := Some (Some (v, t))) = ?c" by (rule ext) (simp add: vw)
    moreover have "view db' = ?c(p := Some None)" by (rule ext) (use none assms(7) in \<open>simp add: vw\<close>)
    ultimately have "view (config_database s2) = ?c \<or> sql_faults s \<noteq> [] \<and> view (config_database s2) = ?c(p := Some None)"
      using b(8) fl by auto
    moreover have sub: "subscribers (config_database s2) q = subscribers ?db q" for q
      by (rule extends_subscribers [OF b(6) assms(5) b(7,5)])
    moreover have "notices (config_database s2) p = notices ?db p" by (rule notices_cong) (rule sub)
    moreover have "sql_faults s = [] \<longrightarrow> notified s2 = notified s \<and> sql_faults s2 = []"
      using c assms(3) by (auto simp: kept_def same_def)
    ultimately show thesis using n b(3) by (intro written [OF _ _ spec]) auto
  qed
qed

lemma write_old_cases:
  assumes "ggconfig_write_value_at_key p v t s = (r, s')" "get_key_ids p s = (Ret ids, s1)" "same s s1"
    and "config_initialized s" "db_inv (config_database s)" "p \<noteq> []" "along (config_database s) p (vec_items ids)"
  obtains (refused) e where "r = Fail e" "config_database s' = config_database s" "notified s' = notified s"
      "sql_faults s \<noteq> [] \<or> write_spec (view (config_database s)) p v t = None"
  | (newer) x t' where "r = Ret ()" "config_database s' = config_database s" "notified s' = notified s"
      "view (config_database s) p = Some (Some (x, t'))" "t' > t"
  | (written) x t' where "r = Ret ()" "db_inv (config_database s')" "view (config_database s) p = Some (Some (x, t'))" "\<not> t' > t"
      "view (config_database s') = (view (config_database s))(p := Some (Some (v, t)))"
      "sql_faults s = [] \<longrightarrow> notified s' = notified s @ notices (config_database s) p"
      "\<And>q. subscribers (config_database s') q = subscribers (config_database s) q"
proof -
  let ?db = "config_database s"
  have db1: "config_database s1 = ?db" and n1: "notified s1 = notified s" and fl: "sql_faults s1 \<noteq> [] \<Longrightarrow> sql_faults s \<noteq> []"
    using assms(3) by (auto simp: same_def)
  obtain r2 s2 where s2: "write_old_key ids v t s1 = (r2, s2)" by fastforce
  have w: "ggconfig_write_value_at_key p v t s = io_bind (rolled_back ?db (write_old_key ids v t)) (\<lambda>written.
      case written of None \<Rightarrow> io_res (Ret ()) | Some ids \<Rightarrow> io_ignore (notify_nested_key p ids)) s1"
    using assms(2,4) by (simp add: ggconfig_write_value_at_key_def)
  have fail: "r = Fail e \<and> s' = s2\<lparr>config_database := ?db\<rparr>" if "r2 = Fail e" for e
    using w rolled_back_simps(1) [where m = "write_old_key ids v t" and db = ?db, OF s2 [unfolded that]] assms(1) by simp
  have pre: "db_inv (config_database s1)" "along (config_database s1) p (vec_items ids)" using db1 assms by simp_all
  from s2 pre(1) assms(6) pre(2) show thesis
  proof (cases rule: write_old_key_cases)
    case fault
    with fail fl n1 show thesis by (intro refused) (auto simp: kept_def)
  next
    case (inner e)
    with fail n1 db1 show thesis by (intro refused) (auto simp: kept_def write_spec_def)
  next
    case (newer x t')
    have "r = Ret ()" "s' = s2" using w rolled_back_simps(2) [where m = "write_old_key ids v t" and db = ?db, OF s2 [unfolded newer(1)]] assms(1) by simp_all
    with newer n1 db1 show thesis by (intro that(2)) (auto simp: same_def)
  next
    case (update x t')
    have e: "io_ignore (notify_nested_key p (vec_items ids)) s2 = (r, s')"
      using w rolled_back_simps(2) [where m = "write_old_key ids v t" and db = ?db, OF s2 [unfolded update(1)]] assms(1) by simp
    note n = notify_end [OF e update(5,7)]
    have sub: "subscribers (config_database s2) q = subscribers ?db q" for q
      using update(8,9) db1 by (simp add: subscribers_def split: option.split)
    then have "notices (config_database s2) p = notices ?db p" by (rule notices_cong)
    with sub n n1 update db1 assms(3) show thesis by (intro written) (auto simp: kept_def same_def)
  qed
qed

text \<open>A path that a request can have: not empty, within the depth of objects, and short enough to be printed.\<close>

definition path_ok :: "buffer list \<Rightarrow> bool" where
  "path_ok p \<longleftrightarrow> p \<noteq> [] \<and> length p \<le> GGL_MAX_OBJECT_DEPTH \<and> print_key_path p \<noteq> Abort"

text \<open>The length of the printed path.\<close>

definition printed_length :: "nat \<Rightarrow> buffer list \<Rightarrow> nat" where
  "printed_length x p = sum_list (map length p) + (if x = 0 then length p - 1 else length p)"

lemma strncat_path_key: "0 \<notin> set k \<Longrightarrow> strncat_path acc k (length k) = (if length acc + length k \<ge> 1024 then Abort else Ret (acc @ k))"
proof -
  assume "0 \<notin> set k"
  then have "takeWhile (\<lambda>c. c \<noteq> 0) k = k" by auto
  then show ?thesis by (auto simp: strncat_path_def PATH_STRING_MAX_SIZE_def Let_def simp del: takeWhile_eq_all_conv)
qed

lemma strncat_path_slash: "strncat_path acc (GGL_STR ''/ '') 1 = (if length acc + 1 \<ge> 1024 then Abort else Ret (acc @ [47]))"
  by (auto simp: strncat_path_def PATH_STRING_MAX_SIZE_def GGL_STR_def)

lemma print_keys_Abort:
  assumes "length acc < 1024" "\<And>k. k \<in> set p \<Longrightarrow> length k < 1018 \<and> 0 \<notin> set k"
  shows "print_keys 0 x p acc = Abort \<longleftrightarrow> length acc + printed_length x p \<ge> 1024"
  using assms
proof (induction p arbitrary: x acc)
  case Nil
  then show ?case by (simp add: printed_length_def)
next
  case (Cons k p)
  have k: "length k < 1018" "0 \<notin> set k" using Cons.prems(2) [of k] by auto
  have IH: "print_keys 0 (x + 1) p acc' = Abort \<longleftrightarrow> length acc' + printed_length (x + 1) p \<ge> 1024" if "length acc' < 1024" for acc'
    using Cons.IH [OF that] Cons.prems(2) by simp
  show ?case using k Cons.prems(1) IH [of "acc @ k"] IH [of "acc @ 47 # k"]
    by (cases "x = 0") (auto simp: strncat_path_key strncat_path_slash PATH_STRING_MAX_SIZE_def Let_def printed_length_def
        simp del: One_nat_def)
qed

lemma path_ok_short:
  assumes "p \<noteq> []" "length p \<le> GGL_MAX_OBJECT_DEPTH" "printed_length 0 p < 1018" "\<And>k. k \<in> set p \<Longrightarrow> 0 \<notin> set k"
  shows "path_ok p"
proof -
  have "length k < 1018" if "k \<in> set p" for k
    using member_le_sum_list [of "length k" "map length p"] that assms(3) by (force simp: printed_length_def)
  with assms show ?thesis using print_keys_Abort [of "[]" p 0] by (auto simp: path_ok_def print_key_path_def)
qed

lemma write_cases:
  assumes "ggconfig_write_value_at_key p v t s = (r, s')" "config_initialized s" "db_inv (config_database s)"
    and "room (length p) (config_database s)" "path_ok p"
  obtains (refused) e where "r = Fail e" "config_database s' = config_database s" "notified s' = notified s"
      "sql_faults s \<noteq> [] \<or> write_spec (view (config_database s)) p v t = None"
  | (newer) x t' where "r = Ret ()" "config_database s' = config_database s" "notified s' = notified s"
      "view (config_database s) p = Some (Some (x, t'))" "t' > t"
  | (written) c where "r = Ret ()" "db_inv (config_database s')" "write_spec (view (config_database s)) p v t = Some c"
      "\<And>x t'. view (config_database s) p = Some (Some (x, t')) \<Longrightarrow> t' \<le> t"
      "view (config_database s') = c \<or> sql_faults s \<noteq> [] \<and> view (config_database s') = c(p := Some None)"
      "sql_faults s = [] \<longrightarrow> notified s' = notified s @ notices (config_database s) p"
      "\<And>q. subscribers (config_database s') q = subscribers (config_database s) q"
proof -
  from assms(5) have p: "p \<noteq> []" "length p \<le> GGL_MAX_OBJECT_DEPTH" "print_key_path p \<noteq> Abort" by (simp_all add: path_ok_def)
  obtain r1 s1 where s1: "get_key_ids p s = (r1, s1)" by fastforce
  from s1 assms(3,4) p(2,3) show thesis
  proof (cases rule: get_key_ids_cases)
    case (found ids)
    from assms(1) s1 [unfolded found(1)] found(2) assms(2,3) p(1) found(4) show thesis
    proof (cases rule: write_old_cases)
      case (written x t')
      then show thesis by (intro that(3)) (auto simp: write_spec_def)
    qed (use that(1,2) in blast)+
  next
    case absent
    have "view (config_database s) p = None" using absent(3) by (simp add: view_def)
    from assms(1) s1 [unfolded absent(1)] absent(2) assms(2-4) p(1,2) absent(3) show thesis
    proof (cases rule: write_new_cases)
      case (written c)
      with \<open>view (config_database s) p = None\<close> show thesis by (intro that(3)) auto
    qed (use that(1) in blast)
  next
    case fault
    with s1 assms(1,2) have "r = Fail GGL_ERR_FAILURE" "s' = s1"
      by (auto simp: ggconfig_write_value_at_key_def same_def)
    with fault show thesis by (intro that(1)) (auto simp: same_def)
  qed
qed

text \<open>C14: whatever step of the database fails, the tables stay a tree, and a write that does not succeed has
  neither changed them nor notified anyone. On an initialized store it accesses memory out of range exactly for the
  empty path and for one that is too long to be printed. The path is within the depth of objects, the identifiers
  have room for its keys, and the statements that begin, end and roll back a transaction succeed.\<close>

theorem ggconfig_write_safe:
  assumes "db_inv (config_database s)" "room (length p) (config_database s)" "length p \<le> GGL_MAX_OBJECT_DEPTH"
    and "ggconfig_write_value_at_key p v t s = (r, s')"
  shows "db_inv (config_database s') \<and>
    (r = Abort \<longleftrightarrow> config_initialized s \<and> (p = [] \<or> print_key_path p = Abort)) \<and>
    (r \<noteq> Ret () \<longrightarrow> config_database s' = config_database s \<and> notified s' = notified s)"
proof (cases "config_initialized s \<and> path_ok p")
  case True
  then have "config_initialized s" "path_ok p" by simp_all
  from assms(4) this(1) assms(1,2) this(2) show ?thesis
    by (cases rule: write_cases) (use assms(1) True in \<open>auto simp: path_ok_def\<close>)
next
  case False
  have "get_key_ids [] s = (Ret no_ids, s)" by (simp add: get_key_ids_def print_key_path_def io_res_def)
  moreover have "get_key_ids p s = (Abort, s)" if "print_key_path p = Abort" using that by (simp add: get_key_ids_def)
  ultimately have "r = (if config_initialized s then Abort else Fail GGL_ERR_FAILURE) \<and> s' = s"
    using False assms(3,4)
    by (auto simp: path_ok_def ggconfig_write_value_at_key_def write_old_key_def last_id_def no_ids_def
        rolled_back_def io_on_error_def split: if_splits)
  with False assms(1,3) show ?thesis by (auto simp: path_ok_def)
qed

text \<open>C13: if no step of the database fails, a write is the update of the map from paths to values: it
  replaces a value that is not newer, creates the keys of a path that does not exist, and is refused if the
  path ends at a key with children or goes through one with a value.\<close>

theorem ggconfig_write_refines:
  assumes "config_initialized s" "db_inv (config_database s)" "room (length p) (config_database s)" "path_ok p"
    and "sql_faults s = []" "ggconfig_write_value_at_key p v t s = (r, s')"
  shows "case write_spec (view (config_database s)) p v t of
      None \<Rightarrow> (\<exists>e. r = Fail e) \<and> config_database s' = config_database s
    | Some c \<Rightarrow> r = Ret () \<and> view (config_database s') = c"
  using assms(6,1-4) by (cases rule: write_cases) (use assms(5) in \<open>auto simp: write_spec_def\<close>)

section \<open>Subscribers\<close>

lemma get_key_notification_Ret:
  assumes "ggconfig_get_key_notification p h s = (Ret (), s')" "db_inv (config_database s)"
    and "room n (config_database s)" "path_ok p"
  shows "config_initialized s'" "db_inv (config_database s')" "h \<in> set (subscribers (config_database s') p)"
    "view (config_database s') = view (config_database s)" "keyTable (config_database s') = keyTable (config_database s)"
    "set (subscribers (config_database s) q) \<subseteq> set (subscribers (config_database s') q)"
proof -
  let ?db = "config_database s"
  have init: "config_initialized s" using assms(1) by (auto simp: ggconfig_get_key_notification_def split: if_splits)
  obtain r1 s1 where s1: "get_key_ids p s = (r1, s1)" by fastforce
  have len: "length p \<le> GGL_MAX_OBJECT_DEPTH" "p \<noteq> []" "print_key_path p \<noteq> Abort" using assms(4) by (simp_all add: path_ok_def)
  from s1 assms(2,3) len(1,3) obtain ids where ids: "r1 = Ret ids" "same s s1" "along ?db p (vec_items ids)"
    by (cases rule: get_key_ids_cases) (use assms(1) s1 init in \<open>auto simp: ggconfig_get_key_notification_def\<close>)
  from along_last [OF ids(3) len(2)] obtain k where k: "last_id ids = Ret k" "node ?db p = Some (Some k)"
    by (auto simp: last_id_def)
  let ?db' = "?db\<lparr>subscriberTable := subscriberTable ?db @ [(k, h)]\<rparr>"
  have ch: "sql_change (sql_add_subscription k h) s1 = (Ret (), s')"
    using assms(1) s1 ids(1) k(1) init by (simp add: ggconfig_get_key_notification_def)
  have db': "config_database s' = ?db'" and init': "config_initialized s' = config_initialized s1"
    using ch ids(2) by (cases rule: sql_change_cases; auto simp: same_def sql_add_subscription_def)+
  have nd: "node ?db' = node ?db"
  proof -
    have "child ?db' = child ?db" by (intro ext) (simp add: child_def parent_of_def)
    then show ?thesis unfolding node_def by (simp only:)
  qed
  show "config_initialized s'" using init' ids(2) init by (simp add: same_def)
  show "db_inv (config_database s')"
    using assms(2) node_Some_key [OF k(2) assms(2)] unfolding db' db_inv_def by (simp add: keys_of_def parent_of_def)
  show "h \<in> set (subscribers (config_database s') p)" using k(2) by (simp add: db' subscribers_def nd)
  show "view (config_database s') = view ?db" by (rule ext) (simp add: db' view_def nd split: option.split)
  show "keyTable (config_database s') = keyTable ?db" by (simp add: db')
  show "set (subscribers ?db q) \<subseteq> set (subscribers (config_database s') q)"
    by (auto simp: db' subscribers_def nd split: option.splits)
qed

lemma get_key_notification_not_Ret:
  assumes "ggconfig_get_key_notification p h s = (r, s')" "r \<noteq> Ret ()" "config_initialized s" "db_inv (config_database s)"
    and "room n (config_database s)" "path_ok p"
  shows "r \<noteq> Abort" "config_initialized s'" "config_database s' = config_database s"
proof -
  have len: "length p \<le> GGL_MAX_OBJECT_DEPTH" "p \<noteq> []" "print_key_path p \<noteq> Abort" using assms(6) by (simp_all add: path_ok_def)
  obtain r1 s1 where s1: "get_key_ids p s = (r1, s1)" by fastforce
  from s1 assms(4,5) len(1,3) have "r \<noteq> Abort \<and> config_initialized s' \<and> config_database s' = config_database s"
  proof (cases rule: get_key_ids_cases)
    case (found ids)
    from along_last [OF found(4) len(2)] obtain k where "last_id ids = Ret k" by (auto simp: last_id_def)
    with assms(1,3) s1 found(1) have "sql_change (sql_add_subscription k h) s1 = (r, s')"
      by (simp add: ggconfig_get_key_notification_def)
    then show ?thesis
      by (cases rule: sql_change_cases) (use assms(2,3) found(2) in \<open>auto simp: same_def\<close>)
  qed (use assms(1,3) s1 in \<open>auto simp: ggconfig_get_key_notification_def same_def\<close>)
  then show "r \<noteq> Abort" "config_initialized s'" "config_database s' = config_database s" by simp_all
qed

text \<open>A write to a key is noticed by the subscribers of the keys above it.\<close>

lemma notice_above:
  assumes "h \<in> set (subscribers db p)" "p \<noteq> []"
  shows "(h, p @ q) \<in> set (notices db (p @ q))"
proof -
  have "length p - 1 \<in> set [0..<length (p @ q)]" "take (Suc (length p - 1)) (p @ q) = p" using assms(2) by (cases p; simp)+
  with assms(1) show ?thesis
    unfolding notices_def set_concat set_map image_image by (intro UN_I [of "length p - 1"]) auto
qed

section \<open>What a read returns\<close>

text \<open>The object that is stored below a key, to the depth \<open>n\<close>.\<close>

fun subtree :: "nat \<Rightarrow> config_tables \<Rightarrow> int \<Rightarrow> GglObject" where
  "subtree 0 db k = OBJ_NULL"
| "subtree (Suc n) db k =
     (case map_of (valueTable db) k of
        Some (v, t) \<Rightarrow> OBJ_BUF v
      | None \<Rightarrow> OBJ_MAP (map (\<lambda>(c, name). (name, subtree n db c)) (sql_get_children k db)))"

lemma children_rows:
  assumes "db_inv db"
  shows "(c, name) \<in> set (sql_get_children k db) \<longleftrightarrow> child db (Some k) name = Some c"
  using db_invD(2) [OF assms]
  by (force simp: sql_get_children_def child_Some [OF assms] parent_of_def)

lemma children_larger: "db_inv db \<Longrightarrow> (c, name) \<in> set (sql_get_children k db) \<Longrightarrow> k < c"
  using db_invD(8) [of db c k] by (auto simp: children_rows child_Some parent_of_def dest: map_of_SomeD)

text \<open>\<open>reads d m n x\<close>: with the database \<open>d\<close>, the routine \<open>m\<close> returns \<open>x\<close> if \<open>n\<close> bytes of memory are left, and
  takes no more.\<close>

definition reads :: "config_db \<Rightarrow> (config_db \<times> GglBumpAlloc, 'a) io \<Rightarrow> nat \<Rightarrow> 'a \<Rightarrow> bool" where
  "reads d m n x \<longleftrightarrow> (\<forall>a. bump_inv a \<longrightarrow> length (bump_buf a) + 8 \<le> PTRDIFF_MAX \<longrightarrow>
     bump_index a + n \<le> length (bump_buf a) \<longrightarrow>
     (\<exists>a'. m (d, a) = (Ret x, d, a') \<and> bump_inv a' \<and> length (bump_buf a') = length (bump_buf a) \<and>
        bump_index a' \<le> bump_index a + n))"

lemma readsD:
  assumes "reads d m n x" "bump_inv a" "length (bump_buf a) + 8 \<le> PTRDIFF_MAX" "bump_index a + n \<le> length (bump_buf a)"
  obtains a' where "m (d, a) = (Ret x, d, a')" "bump_inv a'" "length (bump_buf a') = length (bump_buf a)"
    "bump_index a' \<le> bump_index a + n"
  using assms unfolding reads_def by blast

lemma readsI:
  assumes "\<And>a. bump_inv a \<Longrightarrow> length (bump_buf a) + 8 \<le> PTRDIFF_MAX \<Longrightarrow> bump_index a + n \<le> length (bump_buf a) \<Longrightarrow>
    \<exists>a'. m (d, a) = (Ret x, d, a') \<and> bump_inv a' \<and> length (bump_buf a') = length (bump_buf a) \<and>
      bump_index a' \<le> bump_index a + n"
  shows "reads d m n x"
  using assms unfolding reads_def by blast

lemma reads_res: "reads d (io_res (Ret x)) 0 x"
  by (auto simp: reads_def)

lemma reads_db: "m d = (Ret x, d) \<Longrightarrow> reads d (on_db m) 0 x"
  by (auto simp: reads_def on_db_def)

lemma reads_bind:
  assumes "reads d m n x" "reads d (f x) k y"
  shows "reads d (io_bind m f) (n + k) y"
proof (rule readsI)
  fix a assume a: "bump_inv a" "length (bump_buf a) + 8 \<le> PTRDIFF_MAX" "bump_index a + (n + k) \<le> length (bump_buf a)"
  obtain b where b: "m (d, a) = (Ret x, d, b)" "bump_inv b" "length (bump_buf b) = length (bump_buf a)"
    "bump_index b \<le> bump_index a + n"
    by (rule readsD [OF assms(1) a(1,2)]) (use a(3) in auto)
  obtain c where "f x (d, b) = (Ret y, d, c)" "bump_inv c" "length (bump_buf c) = length (bump_buf b)"
    "bump_index c \<le> bump_index b + k"
    by (rule readsD [OF assms(2) b(2)]) (use a b in auto)
  with b show "\<exists>a'. io_bind m f (d, a) = (Ret y, d, a') \<and> bump_inv a' \<and> length (bump_buf a') = length (bump_buf a) \<and>
      bump_index a' \<le> bump_index a + (n + k)"
    by (auto simp: io_bind_def)
qed

lemma reads_alloc:
  assumes "al = 1 \<and> k = n \<or> al = 8 \<and> k = n + 7"
  shows "reads d (read_alloc n al) k ()"
proof (rule readsI)
  fix a assume a: "bump_inv a" "length (bump_buf a) + 8 \<le> PTRDIFF_MAX" "bump_index a + k \<le> length (bump_buf a)"
  have pad: "(8 - bump_index a mod 8) mod 8 \<le> 7" by simp
  show "\<exists>a'. read_alloc n al (d, a) = (Ret (), d, a') \<and> bump_inv a' \<and> length (bump_buf a') = length (bump_buf a) \<and>
      bump_index a' \<le> bump_index a + k"
    using a assms pad bump_alloc_cases [OF a(1), of n al]
    by (auto simp: read_alloc_def bump_req_def bump_inv_def fits_def Let_def)
qed

text \<open>Every key of the tree has a value or a child, as a database has on which no write has failed.\<close>

definition complete :: "config_view \<Rightarrow> bool" where
  "complete c \<longleftrightarrow> (\<forall>p. c p = Some None \<longrightarrow> (\<exists>n. c (p @ [n]) \<noteq> None))"

lemma write_spec_complete:
  assumes "complete c" "write_spec c p v t = Some c'" "c [] = None"
  shows "complete c'"
  unfolding complete_def
proof (intro allI impI)
  fix q assume q: "c' q = Some None"
  show "\<exists>n. c' (q @ [n]) \<noteq> None"
  proof (cases "c q")
    case None
    with q assms(2,3) have "prefix q p" "q \<noteq> p" "c p = None" "c' p \<noteq> None"
      "\<And>r. r \<noteq> [] \<Longrightarrow> prefix r p \<Longrightarrow> c' r \<noteq> None"
      by (auto simp: write_spec_def split: option.splits if_splits)
    then obtain zs where zs: "p = q @ zs" "zs \<noteq> []" by (auto simp: prefix_def)
    then obtain n ns where "p = q @ n # ns" by (cases zs) auto
    with \<open>\<And>r. r \<noteq> [] \<Longrightarrow> prefix r p \<Longrightarrow> c' r \<noteq> None\<close> [of "q @ [n]"] show ?thesis by (auto simp: prefix_def)
  next
    case (Some x)
    with q assms(2) have "c q = Some None" by (auto simp: write_spec_def split: option.splits if_splits)
    with assms(1) obtain n where "c (q @ [n]) \<noteq> None" unfolding complete_def by blast
    with assms(2) have "c' (q @ [n]) \<noteq> None" by (auto simp: write_spec_def split: option.splits if_splits)
    then show ?thesis by blast
  qed
qed

lemma count_rows_all: "sql_faults s = [] \<Longrightarrow> count_rows rows s = (Ret (length rows), s)"
  by (induction rows) (simp_all add: sqlite3_step_def io_bind_def)

text \<open>The size of the pairs of a map without its array.\<close>

abbreviation pairs_size :: "(buffer \<times> GglObject) list \<Rightarrow> nat" where
  "pairs_size kvs \<equiv> sum_list (map (\<lambda>kv. length (fst kv) + copy_size (snd kv)) kvs)"

lemma read_children_reads:
  assumes "sql_faults d = []" "\<And>c name. (c, name) \<in> set rows \<Longrightarrow> reads d (read_key_recursive n c) (copy_size (f c)) (f c)"
    and "length (vec_items kvs) + length rows \<le> vec_capacity kvs"
  shows "reads d (read_children n rows kvs) (pairs_size (map (\<lambda>(c, name). (name, f c)) rows))
    (kvs\<lparr>vec_items := vec_items kvs @ map (\<lambda>(c, name). (name, f c)) rows\<rparr>)"
  using assms(2,3)
proof (induction rows arbitrary: kvs)
  case Nil
  show ?case by (rule readsI) (use assms(1) in \<open>auto simp: on_db_def sqlite3_step_def\<close>)
next
  case (Cons row rows)
  obtain c name where row: "row = (c, name)" by fastforce
  let ?kvs = "kvs\<lparr>vec_items := vec_items kvs @ [(name, f c)]\<rparr>"
  have step: "on_db (sqlite3_step ((c, name) # rows)) (d, a) = (Ret (Some ((c, name), rows)), d, a)" for a
    using assms(1) by (simp add: on_db_def sqlite3_step_def)
  have push: "ggl_kv_vec_push kvs (name, f c) = (GGL_ERR_OK, ?kvs)"
    using Cons.prems(2) by (simp add: ggl_kv_vec_push_def vec_push_def)
  have rest: "reads d (read_children n rows ?kvs) (pairs_size (map (\<lambda>(c, name). (name, f c)) rows))
      (?kvs\<lparr>vec_items := vec_items ?kvs @ map (\<lambda>(c, name). (name, f c)) rows\<rparr>)"
    using Cons.prems by (intro Cons.IH) auto
  show ?case unfolding row
  proof (rule readsI)
    let ?n = "pairs_size (map (\<lambda>(c, name). (name, f c)) ((c, name) # rows))"
    fix a assume a: "bump_inv a" "length (bump_buf a) + 8 \<le> PTRDIFF_MAX" "bump_index a + ?n \<le> length (bump_buf a)"
    obtain a1 where a1: "read_alloc (length name) 1 (d, a) = (Ret (), d, a1)" "bump_inv a1"
      "length (bump_buf a1) = length (bump_buf a)" "bump_index a1 \<le> bump_index a + length name"
      by (rule readsD [OF reads_alloc [of 1 "length name" "length name"] a(1,2)]) (use a(3) in auto)
    obtain a2 where a2: "read_key_recursive n c (d, a1) = (Ret (f c), d, a2)" "bump_inv a2"
      "length (bump_buf a2) = length (bump_buf a1)" "bump_index a2 \<le> bump_index a1 + copy_size (f c)"
      by (rule readsD [OF Cons.prems(1) [of c name] a1(2)]) (use a a1 row in auto)
    obtain a3 where a3: "read_children n rows ?kvs (d, a2) =
        (Ret (?kvs\<lparr>vec_items := vec_items ?kvs @ map (\<lambda>(c, name). (name, f c)) rows\<rparr>), d, a3)" "bump_inv a3"
      "length (bump_buf a3) = length (bump_buf a2)"
      "bump_index a3 \<le> bump_index a2 + pairs_size (map (\<lambda>(c, name). (name, f c)) rows)"
      by (rule readsD [OF rest a2(2)]) (use a a1 a2 in auto)
    have "read_children n ((c, name) # rows) kvs (d, a) =
        (Ret (kvs\<lparr>vec_items := vec_items kvs @ map (\<lambda>(c, name). (name, f c)) ((c, name) # rows)\<rparr>), d, a3)"
      using a1(1) a2(1) a3(1) step push by (simp add: io_bind_def)
    with a1 a2 a3 show "\<exists>a'. read_children n ((c, name) # rows) kvs (d, a) =
        (Ret (kvs\<lparr>vec_items := vec_items kvs @ map (\<lambda>(c, name). (name, f c)) ((c, name) # rows)\<rparr>), d, a') \<and>
        bump_inv a' \<and> length (bump_buf a') = length (bump_buf a) \<and> bump_index a' \<le> bump_index a + ?n"
      by auto
  qed
qed

lemma no_fault_simps:
  "sql_faults d = [] \<Longrightarrow> sql_first q d = (Ret (case q (config_database d) of [] \<Rightarrow> None | x # xs \<Rightarrow> Some x), d)"
  by (simp add: sql_first_def sqlite3_step_def io_bind_def split: list.split)

lemma read_key_reads:
  assumes "sql_faults d = []" "db_inv (config_database d)" "room 0 (config_database d)" "complete (view (config_database d))"
    and "node (config_database d) p = Some (Some k)" "int (length (keyTable (config_database d))) < k + int n"
  shows "reads d (read_key_recursive n k) (copy_size (subtree n (config_database d) k)) (subtree n (config_database d) k)"
  using assms(5,6)
proof (induction n arbitrary: k p)
  case 0
  then show ?case using db_invD(5) [OF assms(2) node_Some_key [OF 0(1) assms(2)]] by simp
next
  case (Suc n)
  let ?db = "config_database d"
  have kk: "k \<in> keys_of ?db" using node_Some_key [OF Suc.prems(1) assms(2)] .
  have "column_int k \<noteq> 0" using column_int_key [OF assms(2,3) kk] db_invD(4) [OF assms(2) kk] by simp
  then have vp: "value_is_present_for_key k d = (Ret (map_of (valueTable ?db) k \<noteq> None), d)"
    by (cases "map_of (valueTable ?db) k")
      (simp_all add: value_is_present_for_key_def no_fault_simps [OF assms(1)] value_rows(1) [OF assms(2)] io_bind_def)
  show ?case
  proof (cases "map_of (valueTable ?db) k")
    case (Some x)
    obtain v t where x: "x = (v, t)" by fastforce
    have rv: "sql_first (sql_read_value k) d = (Ret (Some v), d)"
      by (simp add: no_fault_simps [OF assms(1)] value_rows(2) [OF assms(2)] Some x)
    show ?thesis
    proof (rule readsI)
      fix a assume a: "bump_inv a" "length (bump_buf a) + 8 \<le> PTRDIFF_MAX"
        "bump_index a + copy_size (subtree (Suc n) ?db k) \<le> length (bump_buf a)"
      obtain a1 where "read_alloc (length v) 1 (d, a) = (Ret (), d, a1)" "bump_inv a1"
        "length (bump_buf a1) = length (bump_buf a)" "bump_index a1 \<le> bump_index a + length v"
        by (rule readsD [OF reads_alloc [of 1 "length v" "length v"] a(1,2)]) (use a(3) Some x in auto)
      then show "\<exists>a'. read_key_recursive (Suc n) k (d, a) = (Ret (subtree (Suc n) ?db k), d, a') \<and> bump_inv a' \<and>
          length (bump_buf a') = length (bump_buf a) \<and> bump_index a' \<le> bump_index a + copy_size (subtree (Suc n) ?db k)"
        using vp rv Some x by (simp add: on_db_def io_bind_def read_value_at_key_def)
    qed
  next
    case None
    let ?rows = "sql_get_children k ?db"
    let ?kvs = "map (\<lambda>(c, name). (name, subtree n ?db c)) ?rows"
    have "view ?db p = Some None" using view_key [OF Suc.prems(1)] None by simp
    then obtain m where "view ?db (p @ [m]) \<noteq> None" using assms(4) unfolding complete_def by blast
    then obtain c where "child ?db (Some k) m = Some c" using Suc.prems(1) by (auto simp: view_def node_snoc split: option.splits)
    then have ne: "?rows \<noteq> []" using children_rows [OF assms(2), of c m k] by (auto simp del: children_rows)
    have "reads d (read_key_recursive n c) (copy_size (subtree n ?db c)) (subtree n ?db c)" if "(c, name) \<in> set ?rows" for c name
    proof -
      have "node ?db (p @ [name]) = Some (Some c)" using that Suc.prems(1) children_rows [OF assms(2)] by simp
      then show ?thesis by (rule Suc.IH) (use Suc.prems(2) children_larger [OF assms(2) that] in simp)
    qed
    then have ch: "reads d (read_children n ?rows \<lparr>vec_items = [], vec_capacity = length ?rows\<rparr>) (pairs_size ?kvs)
        \<lparr>vec_items = ?kvs, vec_capacity = length ?rows\<rparr>"
      using read_children_reads [OF assms(1), of ?rows n "subtree n ?db" "\<lparr>vec_items = [], vec_capacity = length ?rows\<rparr>"] by simp
    show ?thesis
    proof (rule readsI)
      fix a assume a: "bump_inv a" "length (bump_buf a) + 8 \<le> PTRDIFF_MAX"
        "bump_index a + copy_size (subtree (Suc n) ?db k) \<le> length (bump_buf a)"
      have sz: "copy_size (subtree (Suc n) ?db k) = length ?rows * 40 + 7 + pairs_size ?kvs" using None ne by simp
      obtain a1 where a1: "read_alloc (length ?rows * 40) 8 (d, a) = (Ret (), d, a1)" "bump_inv a1"
        "length (bump_buf a1) = length (bump_buf a)" "bump_index a1 \<le> bump_index a + (length ?rows * 40 + 7)"
        by (rule readsD [OF reads_alloc [of 8 "length ?rows * 40 + 7" "length ?rows * 40"] a(1,2)]) (use a(3) sz in auto)
      obtain a2 where a2: "read_children n ?rows \<lparr>vec_items = [], vec_capacity = length ?rows\<rparr> (d, a1) =
          (Ret \<lparr>vec_items = ?kvs, vec_capacity = length ?rows\<rparr>, d, a2)" "bump_inv a2"
        "length (bump_buf a2) = length (bump_buf a1)" "bump_index a2 \<le> bump_index a1 + pairs_size ?kvs"
        by (rule readsD [OF ch a1(2)]) (use a a1 sz in auto)
      have "read_key_recursive (Suc n) k (d, a) = (Ret (subtree (Suc n) ?db k), d, a2)"
        using vp None ne a1(1) a2(1) count_rows_all [OF assms(1), of ?rows] by (simp add: on_db_def io_bind_def)
      with a1 a2 sz show "\<exists>a'. read_key_recursive (Suc n) k (d, a) = (Ret (subtree (Suc n) ?db k), d, a') \<and> bump_inv a' \<and>
          length (bump_buf a') = length (bump_buf a) \<and> bump_index a' \<le> bump_index a + copy_size (subtree (Suc n) ?db k)"
        by (intro exI [of _ a2]) (auto simp del: subtree.simps copy_size.simps)
    qed
  qed
qed

text \<open>What is at a path of an object.\<close>

fun obj_at :: "GglObject \<Rightarrow> buffer list \<Rightarrow> GglObject option" where
  "obj_at v [] = Some v"
| "obj_at (OBJ_MAP kvs) (n # ns) = (case map_of kvs n of None \<Rightarrow> None | Some v \<Rightarrow> obj_at v ns)"
| "obj_at _ (n # ns) = None"

text \<open>The object has the values and the maps that are stored below the path \<open>p\<close>.\<close>

definition stored_at :: "config_view \<Rightarrow> buffer list \<Rightarrow> GglObject \<Rightarrow> bool" where
  "stored_at c p v \<longleftrightarrow> (\<forall>q. case c (p @ q) of
       None \<Rightarrow> obj_at v q = None
     | Some None \<Rightarrow> (\<exists>kvs. obj_at v q = Some (OBJ_MAP kvs))
     | Some (Some (x, t)) \<Rightarrow> obj_at v q = Some (OBJ_BUF x))"

lemma map_of_children:
  assumes "db_inv db"
  shows "map_of (map (\<lambda>(c, name). (name, f c)) (sql_get_children k db)) m = map_option f (child db (Some k) m)"
proof (cases "child db (Some k) m")
  case None
  with children_rows [OF assms, of _ m k] show ?thesis by (auto simp: map_of_eq_None_iff)
next
  case (Some c)
  then have "(m, f c) \<in> set (map (\<lambda>(c, name). (name, f c)) (sql_get_children k db))"
    using children_rows [OF assms, of c m k] by force
  moreover have "y = f c" if "(m, y) \<in> set (map (\<lambda>(c, name). (name, f c)) (sql_get_children k db))" for y
    using that Some children_rows [OF assms, of _ m k] by auto
  ultimately show ?thesis using Some by (metis map_of_SomeD option.map(2) weak_map_of_SomeI)
qed

lemma subtree_stored:
  assumes "db_inv db" "node db p = Some (Some k)" "int (length (keyTable db)) < k + int n"
  shows "stored_at (view db) p (subtree n db k)"
proof -
  have "case view db (p @ q) of
       None \<Rightarrow> obj_at (subtree n db k) q = None
     | Some None \<Rightarrow> (\<exists>kvs. obj_at (subtree n db k) q = Some (OBJ_MAP kvs))
     | Some (Some (x, t)) \<Rightarrow> obj_at (subtree n db k) q = Some (OBJ_BUF x)" for q
    using assms(2,3)
  proof (induction q arbitrary: p k n)
    case Nil
    then obtain m where n: "n = Suc m"
      using db_invD(5) [OF assms(1) node_Some_key [OF Nil(1) assms(1)]] by (cases n) auto
    with view_key [OF Nil(1)] show ?case by (auto split: option.splits)
  next
    case (Cons name q)
    obtain m where n: "n = Suc m"
      using db_invD(5) [OF assms(1) node_Some_key [OF Cons.prems(1) assms(1)]] Cons.prems(2) by (cases n) auto
    show ?case
    proof (cases "child db (Some k) name")
      case None
      then have "node db (p @ [name]) = None" using Cons.prems(1) by (simp add: node_snoc)
      then have "node db (p @ name # q) = None"
        using node_prefix [of db "p @ [name]" q] by (cases "node db (p @ name # q)") auto
      then have "view db (p @ name # q) = None" by (simp add: view_def)
      with None show ?thesis by (auto simp: n map_of_children [OF assms(1)] split: option.splits)
    next
      case (Some c)
      then have c: "node db (p @ [name]) = Some (Some c)" "k < c"
        using Cons.prems(1) children_rows [OF assms(1)] children_larger [OF assms(1)] by auto
      have "k \<in> snd ` set (relationTable db)"
        using Some by (force simp: child_Some [OF assms(1)] parent_of_def dest: map_of_SomeD)
      then have "map_of (valueTable db) k = None"
        using db_invD(11) [OF assms(1), of k] by (auto simp: map_of_eq_None_iff)
      with Some have eq: "obj_at (subtree n db k) (name # q) = obj_at (subtree m db c) q"
        by (simp add: n map_of_children [OF assms(1)])
      from Cons.IH [OF c(1), of m] c(2) Cons.prems(2) show ?thesis unfolding eq by (simp add: n)
    qed
  qed
  then show ?thesis by (simp add: stored_at_def)
qed

lemma ggconfig_read_node:
  assumes "config_initialized s" "db_inv (config_database s)" "room 0 (config_database s)" "path_ok p" "sql_faults s = []"
    and "complete (view (config_database s))" "length (keyTable (config_database s)) \<le> stack"
    and "node (config_database s) p = Some (Some k)"
    and "copy_size (subtree stack (config_database s) k) \<le> length key_value_memory"
  shows "ggconfig_get_value_from_key stack p s = (Ret (subtree stack (config_database s) k), s)"
    and "stored_at (view (config_database s)) p (subtree stack (config_database s) k)"
proof -
  let ?db = "config_database s"
  have p: "p \<noteq> []" "length p \<le> GGL_MAX_OBJECT_DEPTH" "print_key_path p \<noteq> Abort" using assms(4) by (simp_all add: path_ok_def)
  have fuel: "int (length (keyTable ?db)) < k + int stack"
    using assms(7) db_invD(4) [OF assms(2) node_Some_key [OF assms(8,2)]] by linarith
  show "stored_at (view ?db) p (subtree stack ?db k)" by (rule subtree_stored [OF assms(2,8) fuel])
  note rd = read_key_reads [OF assms(5,2,3,6,8) fuel]
  obtain a' where rd: "read_key_recursive stack k (s, ggl_bump_alloc_init key_value_memory) = (Ret (subtree stack ?db k), s, a')"
    by (rule readsD [OF rd, of "ggl_bump_alloc_init key_value_memory"])
      (use assms(9) in \<open>auto simp: ggl_bump_alloc_init_def bump_inv_def fits_def key_value_memory_def PTRDIFF_MAX_def\<close>)
  obtain r1 s1 where s1: "get_key_ids p s = (r1, s1)" by fastforce
  from s1 assms(2,3) p(2,3) show "ggconfig_get_value_from_key stack p s = (Ret (subtree stack ?db k), s)"
  proof (cases rule: get_key_ids_cases)
    case (found ids)
    have "s1 = s" using found(2) assms(5) by (simp add: same_def)
    moreover have "last_id ids = Ret k" using along_last [OF found(4) p(1)] assms(8) by (auto simp: last_id_def)
    ultimately show ?thesis using s1 found(1) rd assms(1) by (simp add: ggconfig_get_value_from_key_def)
  qed (use assms(5,8) in simp_all)
qed

text \<open>Reading a path returns an object with exactly the values and maps that are stored there and below,
  if it fits the memory of a message and the stack is as deep as the tree; an absent path is an error.\<close>

theorem ggconfig_read_correct:
  assumes "config_initialized s" "db_inv (config_database s)" "room 0 (config_database s)" "path_ok p" "sql_faults s = []"
    and "complete (view (config_database s))" "length (keyTable (config_database s)) \<le> stack"
    and "\<And>k. node (config_database s) p = Some (Some k) \<Longrightarrow> copy_size (subtree stack (config_database s) k) \<le> length key_value_memory"
  shows "case view (config_database s) p of
      None \<Rightarrow> \<exists>s'. ggconfig_get_value_from_key stack p s = (Fail GGL_ERR_NOENTRY, s')
    | Some _ \<Rightarrow> \<exists>v. ggconfig_get_value_from_key stack p s = (Ret v, s) \<and> stored_at (view (config_database s)) p v"
proof (cases "node (config_database s) p")
  case None
  obtain r1 s1 where s1: "get_key_ids p s = (r1, s1)" by fastforce
  have p: "p \<noteq> []" "length p \<le> GGL_MAX_OBJECT_DEPTH" "print_key_path p \<noteq> Abort" using assms(4) by (simp_all add: path_ok_def)
  from s1 assms(2,3) p(2,3) show ?thesis
  proof (cases rule: get_key_ids_cases)
    case (found ids)
    from along_last [OF found(4) p(1)] None show ?thesis by simp
  next
    case absent
    then show ?thesis using s1 assms(1) by (simp add: ggconfig_get_value_from_key_def view_def)
  qed (use assms(5) in simp)
next
  case (Some n)
  moreover have "p \<noteq> []" using assms(4) by (simp add: path_ok_def)
  ultimately obtain k where k: "node (config_database s) p = Some (Some k)"
    by (cases p rule: rev_cases) (auto simp: node_snoc split: option.splits)
  from ggconfig_read_node [OF assms(1-7) k assms(8) [OF k]] view_key [OF k] show ?thesis by auto
qed

section \<open>Witnesses\<close>

definition empty_config :: config_db where
  "empty_config = \<lparr>config_initialized = True, config_database = create_database, sql_faults = [], notified = []\<rparr>"

text \<open>A database with the value \<open>x\<close> at the path of one key.\<close>

definition one_key :: "buffer \<Rightarrow> buffer \<Rightarrow> config_db" where
  "one_key n x = empty_config\<lparr>config_database :=
     \<lparr>keyTable = [(1, n)], relationTable = [], valueTable = [(1, x, 0)], subscriberTable = []\<rparr>\<rparr>"

lemma short_path: "print_key_path [[1]] \<noteq> Abort" "print_key_path [[1], [2]] \<noteq> Abort"
  by (simp_all add: print_key_path_def strncat_path_def PATH_STRING_MAX_SIZE_def GGL_STR_def)

lemma empty_config_ok:
  "config_initialized empty_config" "db_inv (config_database empty_config)" "sql_faults empty_config = []"
  "m < 2 ^ 31 \<Longrightarrow> room m (config_database empty_config)" "view (config_database empty_config) p = None"
proof -
  have "node create_database p = (if p = [] then Some None else None)"
    by (induction p rule: rev_induct) (auto simp: node_snoc child_def create_database_def)
  then show "view (config_database empty_config) p = None" by (simp add: view_def empty_config_def)
qed (simp_all add: empty_config_def create_database_def db_inv_def keys_of_def room_def)

lemma one_key_ok:
  "config_initialized (one_key n x)" "db_inv (config_database (one_key n x))" "sql_faults (one_key n x) = []"
  "m < 2 ^ 31 - 1 \<Longrightarrow> room m (config_database (one_key n x))"
  "node (config_database (one_key n x)) p = (if p = [] then Some None else if p = [n] then Some (Some 1) else None)"
proof -
  have "child (config_database (one_key n x)) par m = (if par = None \<and> m = n then Some 1 else None)" for par m
    by (auto simp: child_def one_key_def parent_of_def)
  then show "node (config_database (one_key n x)) p = (if p = [] then Some None else if p = [n] then Some (Some 1) else None)"
    by (induction p rule: rev_induct) (auto simp: node_snoc)
qed (simp_all add: one_key_def empty_config_def db_inv_def keys_of_def room_def)

theorem ggconfig_write_safe_witness:
  "\<exists>r s'. ggconfig_write_value_at_key [[1], [2]] [7] 5 (empty_config\<lparr>sql_faults := [False, False, True]\<rparr>) = (r, s') \<and>
    db_inv (config_database s') \<and> r \<noteq> Abort"
proof -
  let ?s = "empty_config\<lparr>sql_faults := [False, False, True]\<rparr>"
  obtain r s' where w: "ggconfig_write_value_at_key [[1], [2]] [7] 5 ?s = (r, s')" by fastforce
  from ggconfig_write_safe [OF _ _ _ w] empty_config_ok w show ?thesis
    by (auto simp: GGL_MAX_OBJECT_DEPTH_def short_path)
qed

theorem ggconfig_write_refines_witness:
  "\<exists>s'. ggconfig_write_value_at_key [[1], [2]] [7] 5 empty_config = (Ret (), s') \<and>
    view (config_database s') [[1], [2]] = Some (Some ([7], 5)) \<and> view (config_database s') [[1]] = Some None"
proof -
  obtain r s' where w: "ggconfig_write_value_at_key [[1], [2]] [7] 5 empty_config = (r, s')" by fastforce
  from ggconfig_write_refines [OF _ _ _ _ _ w] empty_config_ok w show ?thesis
    by (auto simp: path_ok_def GGL_MAX_OBJECT_DEPTH_def short_path write_spec_def)
qed

theorem ggconfig_read_correct_witness:
  "\<exists>v. ggconfig_get_value_from_key 5 [[1]] (one_key [1] [7]) = (Ret v, one_key [1] [7]) \<and> obj_at v [] = Some (OBJ_BUF [7])"
proof -
  let ?s = "one_key [1] [7]"
  have vw: "view (config_database ?s) p = (if p = [[1]] then Some (Some ([7], 0)) else None)" for p
    by (simp add: view_def one_key_ok) (simp add: one_key_def)
  have "subtree (Suc 4) (config_database ?s) 1 = OBJ_BUF [7]" by (subst subtree.simps) (simp add: one_key_def)
  then have size: "copy_size (subtree 5 (config_database ?s) 1) \<le> length key_value_memory"
    by (simp add: key_value_memory_def)
  have "length (keyTable (config_database ?s)) \<le> 5" by (simp add: one_key_def)
  with ggconfig_read_correct [of ?s "[[1]]" 5] size vw have
    "\<exists>v. ggconfig_get_value_from_key 5 [[1]] ?s = (Ret v, ?s) \<and> stored_at (view (config_database ?s)) [[1]] v"
    by (simp add: one_key_ok path_ok_def GGL_MAX_OBJECT_DEPTH_def short_path complete_def)
  then obtain v where v: "ggconfig_get_value_from_key 5 [[1]] ?s = (Ret v, ?s)" "stored_at (view (config_database ?s)) [[1]] v"
    by blast
  from v(2) [unfolded stored_at_def, rule_format, of "[]"] have "obj_at v [] = Some (OBJ_BUF [7])" by (simp add: vw)
  with v(1) show ?thesis by blast
qed

section \<open>Long paths\<close>

text \<open>C21: The routine that prints a path for the log never adds up the length of what it has printed. A request to read,
  write or subscribe to a path of keys that are each shorter than 1018 bytes but have 1024 bytes and more together, with
  the separators, writes beyond its array.\<close>

theorem long_path_overflows:
  assumes "config_initialized s" "\<forall>k\<in>set p. length k < 1018 \<and> 0 \<notin> set k" "1024 \<le> printed_length 0 p"
  shows "fst (ggconfig_get_value_from_key stack p s) = Abort \<and> fst (ggconfig_write_value_at_key p v t s) = Abort \<and>
    fst (ggconfig_get_key_notification p h s) = Abort"
proof -
  have "print_key_path p = Abort" using print_keys_Abort [of "[]" p 0] assms(2,3) by (simp add: print_key_path_def)
  then have "get_key_ids p s = (Abort, s)" by (simp add: get_key_ids_def)
  then show ?thesis using assms(1)
    by (simp add: ggconfig_get_value_from_key_def ggconfig_write_value_at_key_def ggconfig_get_key_notification_def)
qed

theorem long_path_overflows_witness:
  "fst (ggconfig_get_value_from_key 5 [replicate 600 1, replicate 600 1] empty_config) = Abort"
  using long_path_overflows [of empty_config "[replicate 600 1, replicate 600 1]"] empty_config_ok(1)
  by (simp add: printed_length_def)

end
