(* ===== verification/ConfigHistory.thy ===== *)
theory ConfigHistory
  imports ConfigStore
begin

text \<open>
  The configuration store over several operations and with a fault at a given step. Shows how many keys an
  operation adds, that a subscription lasts through every sequence of writes and subscriptions, so that its client
  is notified of the writes that come after them, and that a new value is lost without an error if the database
  fails when it is inserted.
\<close>

section \<open>How a write changes the state of the store\<close>

text \<open>\<open>adds k m\<close>: the routine adds at most \<open>k\<close> keys to the database, and keeps it open and without faults.\<close>

definition adds :: "nat \<Rightarrow> (config_db, 'a) io \<Rightarrow> bool" where
  "adds k m \<longleftrightarrow> (\<forall>s r s'. m s = (r, s') \<longrightarrow> config_initialized s' = config_initialized s \<and>
     (sql_faults s = [] \<longrightarrow> sql_faults s' = []) \<and>
     length (keyTable (config_database s')) \<le> length (keyTable (config_database s)) + k)"

lemma addsI:
  assumes "\<And>s r s'. m s = (r, s') \<Longrightarrow> config_initialized s' = config_initialized s \<and>
     (sql_faults s = [] \<longrightarrow> sql_faults s' = []) \<and>
     length (keyTable (config_database s')) \<le> length (keyTable (config_database s)) + k"
  shows "adds k m"
  using assms unfolding adds_def by blast

lemma addsD:
  assumes "adds k m" "m s = (r, s')"
  shows "config_initialized s' = config_initialized s" "sql_faults s = [] \<Longrightarrow> sql_faults s' = []"
    "length (keyTable (config_database s')) \<le> length (keyTable (config_database s)) + k"
  using assms unfolding adds_def by blast+

lemma adds_mono: "adds j m \<Longrightarrow> j \<le> k \<Longrightarrow> adds k m"
  unfolding adds_def by fastforce

lemma adds_res: "adds k (io_res r)"
  by (simp add: adds_def)

lemma adds_bind:
  assumes "adds j m" "\<And>x. adds k (f x)"
  shows "adds (j + k) (io_bind m f)"
proof (rule addsI)
  fix s r s' assume run: "io_bind m f s = (r, s')"
  obtain r1 s1 where s1: "m s = (r1, s1)" by fastforce
  note m = addsD [OF assms(1) s1]
  show "config_initialized s' = config_initialized s \<and> (sql_faults s = [] \<longrightarrow> sql_faults s' = []) \<and>
      length (keyTable (config_database s')) \<le> length (keyTable (config_database s)) + (j + k)"
  proof (cases r1)
    case (Ret x)
    with run s1 have "f x s1 = (r, s')" by (simp add: io_bind_def)
    with addsD [OF assms(2) this] m show ?thesis by auto
  qed (use run s1 m in \<open>auto simp: io_bind_def\<close>)
qed

lemma adds_bind_0: "adds 0 m \<Longrightarrow> (\<And>x. adds k (f x)) \<Longrightarrow> adds k (io_bind m f)"
  using adds_bind [of 0 m k f] by simp

lemma adds_ignore: "adds k m \<Longrightarrow> adds k (io_ignore m)"
  by (rule addsI) (auto simp: io_ignore_def dest: addsD split: prod.splits res.splits)

lemma adds_step: "adds 0 (sqlite3_step rows)"
  by (rule addsI) (auto simp: sqlite3_step_def Let_def split: list.splits)

lemma adds_first: "adds 0 (sql_first query)"
proof (rule addsI)
  fix s r s' assume "sql_first query s = (r, s')"
  then have "io_bind (sqlite3_step (query (config_database s))) (\<lambda>row. io_res (Ret (map_option fst row))) s = (r, s')"
    by (simp add: sql_first_def)
  from addsD [OF adds_bind_0 [OF adds_step adds_res] this] show "config_initialized s' = config_initialized s \<and>
      (sql_faults s = [] \<longrightarrow> sql_faults s' = []) \<and>
      length (keyTable (config_database s')) \<le> length (keyTable (config_database s)) + 0" by blast
qed

lemma adds_change:
  assumes "\<And>db db'. change db = Some db' \<Longrightarrow> length (keyTable db') \<le> length (keyTable db) + k"
  shows "adds k (sql_change change)"
  unfolding sql_change_def
  by (rule adds_bind_0 [OF adds_step], rule addsI) (auto split: option.splits dest: assms)

lemma adds_read:
  "adds 0 (value_is_present_for_key i)" "adds 0 (find_key_with_parent key i)" "adds 0 (child_is_present_for_key i)"
  "adds 0 (value_get_timestamp i)"
  unfolding value_is_present_for_key_def find_key_with_parent_def child_is_present_for_key_def value_get_timestamp_def
  by (intro adds_bind_0 adds_first adds_res)+

lemma adds_insert:
  "adds 1 (key_insert key)" "adds 0 (relation_insert i j)" "adds 0 (value_insert i v t)" "adds 0 (value_update i v t)"
proof -
  have "adds 1 (sql_change (sql_key_insert key))" by (rule adds_change) (auto simp: sql_key_insert_def split: if_splits)
  from adds_bind [OF this, of 0 "\<lambda>_. io_res (Ret i)" for i] adds_res show "adds 1 (key_insert key)"
    unfolding adds_def key_insert_def Let_def by fastforce
  show "adds 0 (relation_insert i j)" "adds 0 (value_insert i v t)" "adds 0 (value_update i v t)"
    unfolding relation_insert_def value_insert_def value_update_def
    by (rule adds_change; auto simp: sql_insert_relation_def sql_value_insert_def sql_value_update_def split: if_splits)+
qed

lemma adds_find_or_create: "adds 1 (find_or_create_key key i)"
proof (rule addsI)
  fix s r s' assume run: "find_or_create_key key i s = (r, s')"
  obtain r1 s1 where s1: "find_key_with_parent key i s = (r1, s1)" by fastforce
  note m = addsD [OF adds_read(2) s1]
  have "adds (1 + (0 + 0)) (io_bind (key_insert key) (\<lambda>j. io_bind (relation_insert j i) (\<lambda>_. io_res (Ret j))))"
    by (intro adds_bind adds_insert adds_res)
  note new = addsD [OF this, of s1]
  have "adds 0 (io_bind (value_is_present_for_key j) (\<lambda>b. io_res (if b then Fail GGL_ERR_FAILURE else Ret j)))" for j
    by (intro adds_bind_0 adds_read adds_res)
  note old = addsD [OF this, of _ s1]
  from run s1 m new old show "config_initialized s' = config_initialized s \<and> (sql_faults s = [] \<longrightarrow> sql_faults s' = []) \<and>
      length (keyTable (config_database s')) \<le> length (keyTable (config_database s)) + 1"
    by (cases r1) (fastforce simp: find_or_create_key_def split: if_splits)+
qed

lemma adds_create_keys: "adds (length keys) (create_keys keys i ids)"
proof (induction keys arbitrary: i ids)
  case Nil
  then show ?case by (simp add: adds_def)
next
  case (Cons key keys)
  from adds_bind [OF adds_find_or_create this] show ?case by simp
qed

lemma adds_create_key_path: "adds (length p) (create_key_path p)"
proof (cases p)
  case Nil
  then show ?thesis by (simp add: create_key_path_def adds_res)
next
  case (Cons n ns)
  have "adds 1 (get_or_create_key_at_root n)" unfolding get_or_create_key_at_root_def
    by (intro adds_bind_0 adds_first) (auto intro: adds_res adds_insert(1) [unfolded One_nat_def] split: option.split)
  moreover have "adds (length ns) (if b then io_res (Fail e) else create_keys ns i ids)" for b e i ids
    using adds_create_keys adds_res by auto
  ultimately have "adds (1 + (0 + length ns)) (create_key_path p)" unfolding create_key_path_def Cons list.case
    by (intro adds_bind adds_read) auto
  then show ?thesis using Cons by simp
qed

text \<open>The same as a relation of two states.\<close>

definition grown :: "nat \<Rightarrow> config_db \<Rightarrow> config_db \<Rightarrow> bool" where
  "grown k s s' \<longleftrightarrow> config_initialized s' = config_initialized s \<and> (sql_faults s = [] \<longrightarrow> sql_faults s' = []) \<and>
     length (keyTable (config_database s')) \<le> length (keyTable (config_database s)) + k"

lemma grown_refl [simp]: "grown k s s"
  by (simp add: grown_def)

lemma grown_trans: "grown j s t \<Longrightarrow> grown k t u \<Longrightarrow> grown (j + k) s u"
  by (auto simp: grown_def)

lemma grown_mono: "grown j s t \<Longrightarrow> j \<le> k \<Longrightarrow> grown k s t"
  by (auto simp: grown_def)

lemma adds_grown: "adds k m \<longleftrightarrow> (\<forall>s r s'. m s = (r, s') \<longrightarrow> grown k s s')"
  by (simp add: adds_def grown_def)

lemma addsE: "adds k m \<Longrightarrow> m s = (r, s') \<Longrightarrow> grown k s s'"
  by (simp add: adds_grown)

lemma adds_notify_handles: "adds 0 (notify_handles hs p)"
proof (induction hs)
  case (Cons h hs)
  have "adds 0 (io_do (\<lambda>s. s\<lparr>notified := f s\<rparr>))" for f by (rule addsI) auto
  then show ?case unfolding notify_handles.simps by (intro adds_bind_0 adds_step Cons)
qed (simp add: adds_bind_0 adds_step adds_res)

lemma adds_notify: "adds 0 (notify_nested_key p ids)"
proof (induction ids)
  case Nil
  then show ?case by (simp add: adds_def)
next
  case (Cons i ids)
  show ?case unfolding adds_grown
  proof (intro allI impI)
    fix s r s' assume run: "notify_nested_key p (i # ids) s = (r, s')"
    obtain r1 s1 where s1: "notify_single_key i p s = (r1, s1)" by fastforce
    then have "grown 0 s s1" by (intro addsE [OF adds_notify_handles]) (simp add: notify_single_key_def)
    moreover have "grown 0 s1 s'"
    proof (cases r1)
      case (Ret x)
      with run s1 show ?thesis by (auto intro: addsE [OF Cons])
    next
      case (Fail e)
      with run s1 show ?thesis by (auto intro: addsE [OF adds_bind_0 [OF Cons adds_res]])
    qed (use run s1 in simp)
    ultimately show "grown 0 s s'" using grown_trans [of 0 s s1 0] by simp
  qed
qed

lemma adds_get_key_ids: "adds 0 (get_key_ids p)"
proof -
  have "adds 0 (step_key_ids n rows ids)" for n rows ids
  proof (induction n arbitrary: rows ids)
    case (Suc n)
    show ?case unfolding step_key_ids.simps
      by (rule adds_bind_0 [OF adds_step]) (use Suc adds_res in \<open>auto split: option.split\<close>)
  qed (simp add: adds_def)
  then have "adds 0 (\<lambda>s. step_key_ids n (rows s) ids s)" for n rows ids unfolding adds_def by blast
  then show ?thesis unfolding get_key_ids_def by (intro adds_bind_0 adds_res)
qed

lemma rolled_back_grown:
  assumes "rolled_back (config_database s) m s1 = (r, s')" "adds k m" "grown 0 s s1"
  shows "grown k s s'"
proof -
  obtain r1 s2 where s2: "m s1 = (r1, s2)" by fastforce
  from grown_trans [OF assms(3) addsE [OF assms(2) s2]] assms(1) s2 show ?thesis
    by (cases r1) (auto simp: rolled_back_def io_on_error_def grown_def)
qed

lemma adds_write_new: "adds (length p) (write_new_key p v t)"
proof -
  have "adds (length p + 0) (write_new_key p v t)" unfolding write_new_key_def
    by (intro adds_bind [OF adds_create_key_path] adds_bind_0 adds_res adds_ignore adds_insert)
  then show ?thesis by simp
qed

lemma adds_write_old: "adds 0 (write_old_key ids v t)"
  unfolding write_old_key_def by (auto intro!: adds_bind_0 adds_res adds_read adds_insert)

lemma adds_write: "adds (length p) (ggconfig_write_value_at_key p v t)"
  unfolding adds_grown
proof (intro allI impI)
  fix s r s' assume run: "ggconfig_write_value_at_key p v t s = (r, s')"
  let ?db = "config_database s"
  obtain r1 s1 where s1: "get_key_ids p s = (r1, s1)" by fastforce
  note m = addsE [OF adds_get_key_ids s1]
  have notify: "grown (length p) s s''" if "io_ignore (notify_nested_key p ids) s2 = (r2, s'')" "grown (length p) s s2" for ids r2 s2 s''
    using grown_trans [OF that(2) addsE [OF adds_ignore [OF adds_notify] that(1)]] by simp
  have old: "adds (length p) (write_old_key ids v t)" for ids using adds_mono [OF adds_write_old] by blast
  show "grown (length p) s s'"
  proof (cases "config_initialized s \<and> r1 \<noteq> Abort")
    case True
    show ?thesis
    proof (cases r1)
      case (Ret ids)
      obtain r2 s2 where s2: "rolled_back ?db (write_old_key ids v t) s1 = (r2, s2)" by fastforce
      from rolled_back_grown [OF s2 old m] run s1 s2 Ret True notify [of _ s2 r s'] show ?thesis
        by (cases r2) (auto simp: ggconfig_write_value_at_key_def split: option.splits)
    next
      case (Fail e)
      obtain r2 s2 where s2: "rolled_back ?db (write_new_key p v t) s1 = (r2, s2)" by fastforce
      from rolled_back_grown [OF s2 adds_write_new m] run s1 s2 Fail True m notify [of _ s2 r s'] show ?thesis
        by (cases r2) (auto simp: ggconfig_write_value_at_key_def grown_def split: if_splits)
    qed (use True in simp)
  next
    case False
    with run s1 grown_mono [OF m] show ?thesis by (cases r1) (auto simp: ggconfig_write_value_at_key_def split: if_splits)
  qed
qed

section \<open>Subscribers\<close>

text \<open>The operations of clients that change the store.\<close>

datatype config_event = Config_write "buffer list" buffer int | Config_subscribe "buffer list" u32

fun config_step :: "config_event \<Rightarrow> config_db \<Rightarrow> config_db" where
  "config_step (Config_write p v t) s = snd (ggconfig_write_value_at_key p v t s)"
| "config_step (Config_subscribe p h) s = snd (ggconfig_get_key_notification p h s)"

fun event_path :: "config_event \<Rightarrow> buffer list" where
  "event_path (Config_write p v t) = p"
| "event_path (Config_subscribe p h) = p"

text \<open>The state of a store in which a client has subscribed to a key.\<close>

definition subscribed :: "nat \<Rightarrow> buffer list \<Rightarrow> u32 \<Rightarrow> config_db \<Rightarrow> bool" where
  "subscribed n p h s \<longleftrightarrow> config_initialized s \<and> db_inv (config_database s) \<and> room n (config_database s) \<and>
     h \<in> set (subscribers (config_database s) p)"

lemma subscribed_step:
  assumes "subscribed (length (event_path e) + n) p h s" "path_ok (event_path e)"
  shows "subscribed n p h (config_step e s)"
proof (cases e)
  case (Config_write q v t)
  obtain r s' where w: "ggconfig_write_value_at_key q v t s = (r, s')" by fastforce
  from assms(1) Config_write have i: "config_initialized s" "db_inv (config_database s)" "room (length q) (config_database s)"
    by (auto simp: subscribed_def room_def)
  have "path_ok q" using assms(2) Config_write by simp
  from w i this have "db_inv (config_database s') \<and> (\<forall>p. subscribers (config_database s') p = subscribers (config_database s) p)"
    by (cases rule: write_cases) (use i in auto)
  with addsE [OF adds_write w] assms(1) w Config_write show ?thesis
    by (auto simp: subscribed_def grown_def room_def)
next
  case (Config_subscribe q g)
  obtain r s' where w: "ggconfig_get_key_notification q g s = (r, s')" by fastforce
  from assms Config_subscribe have i: "config_initialized s" "db_inv (config_database s)" "room (length q + n) (config_database s)"
      "path_ok q" "h \<in> set (subscribers (config_database s) p)"
    by (simp_all add: subscribed_def)
  show ?thesis
  proof (cases "r = Ret ()")
    case True
    note k = get_key_notification_Ret [OF w [unfolded True] i(2-4)]
    with i(3,5) k(6) [of p] w Config_subscribe show ?thesis by (auto simp: subscribed_def room_def)
  next
    case False
    note k = get_key_notification_not_Ret [OF w False i(1-4)]
    with i w Config_subscribe show ?thesis by (auto simp: subscribed_def room_def)
  qed
qed

lemma subscribed_steps:
  assumes "subscribed (sum_list (map (\<lambda>e. length (event_path e)) es) + n) p h s" "list_all (\<lambda>e. path_ok (event_path e)) es"
  shows "subscribed n p h (fold config_step es s)"
  using assms
proof (induction es arbitrary: s)
  case (Cons e es)
  then have "subscribed (sum_list (map (\<lambda>e. length (event_path e)) es) + n) p h (config_step e s)"
    by (intro subscribed_step) (simp_all add: add.assoc)
  with Cons show ?case by simp
qed simp

text \<open>C18: a client that has subscribed to a key is notified of every later write to that key or below it, with the
  path that was written: whatever writes and subscriptions come in between, an accepted write that is not older than
  the value that is there, with a database that does not fail, adds that notice.\<close>

theorem subscriber_is_notified:
  assumes "db_inv (config_database s)" "path_ok p" "path_ok (p @ q)" "list_all (\<lambda>e. path_ok (event_path e)) es"
    and "room (sum_list (map (\<lambda>e. length (event_path e)) es) + length (p @ q)) (config_database s)"
    and "ggconfig_get_key_notification p h s = (Ret (), s1)" "s2 = fold config_step es s1" "sql_faults s2 = []"
    and "ggconfig_write_value_at_key (p @ q) v t s2 = (Ret (), s3)"
    and "\<And>x t'. view (config_database s2) (p @ q) = Some (Some (x, t')) \<Longrightarrow> t' \<le> t"
  shows "\<exists>ns. notified s3 = notified s2 @ ns \<and> (h, p @ q) \<in> set ns"
proof -
  note n = get_key_notification_Ret [OF assms(6,1,5,2)]
  have "subscribed (sum_list (map (\<lambda>e. length (event_path e)) es) + length (p @ q)) p h s1"
    using n assms(5) by (simp add: subscribed_def room_def)
  from subscribed_steps [OF this assms(4)] have sub: "config_initialized s2" "db_inv (config_database s2)"
      "room (length (p @ q)) (config_database s2)" "h \<in> set (subscribers (config_database s2) p)"
    by (simp_all add: subscribed_def assms(7))
  from assms(9) sub(1-3) assms(3) show ?thesis
  proof (cases rule: write_cases)
    case (newer x t')
    with assms(10) show ?thesis by fastforce
  next
    case (written c)
    have "p \<noteq> []" using assms(2) by (simp add: path_ok_def)
    from written(6) notice_above [OF sub(4) this] assms(8) show ?thesis by blast
  qed simp
qed

section \<open>A write that is lost\<close>

text \<open>\<open>countable m\<close>: from every state the routine takes some number \<open>n\<close> of steps of the database, so that it does
  the same with \<open>n\<close> steps that do not fail ahead as with no faults ahead, and leaves what comes after them.\<close>

definition countable :: "(config_db, 'a) io \<Rightarrow> bool" where
  "countable m \<longleftrightarrow> (\<forall>s. sql_faults s = [] \<longrightarrow> (\<exists>n r s'. sql_faults s' = [] \<and> m s = (r, s') \<and>
     (\<forall>fs. m (s\<lparr>sql_faults := replicate n False @ fs\<rparr>) = (r, s'\<lparr>sql_faults := fs\<rparr>))))"

lemma countableI:
  assumes "\<And>s. sql_faults s = [] \<Longrightarrow> \<exists>n r s'. sql_faults s' = [] \<and> m s = (r, s') \<and>
    (\<forall>fs. m (s\<lparr>sql_faults := replicate n False @ fs\<rparr>) = (r, s'\<lparr>sql_faults := fs\<rparr>))"
  shows "countable m"
  using assms unfolding countable_def by blast

lemma countableE:
  assumes "countable m" "sql_faults s = []"
  obtains n r s' where "sql_faults s' = []" "m s = (r, s')"
    "\<forall>fs. m (s\<lparr>sql_faults := replicate n False @ fs\<rparr>) = (r, s'\<lparr>sql_faults := fs\<rparr>)"
  using assms unfolding countable_def by blast

lemma countable_case:
  assumes "countable m" "\<And>x. countable (f x)" "\<And>e. countable (g e)"
  shows "countable (\<lambda>s. case m s of (Ret x, s) \<Rightarrow> f x s | (Fail e, s) \<Rightarrow> g e s | (Abort, s) \<Rightarrow> (Abort, s))"
proof (rule countableI)
  fix s :: config_db assume s: "sql_faults s = []"
  let ?m = "\<lambda>s. case m s of (Ret x, s) \<Rightarrow> f x s | (Fail e, s) \<Rightarrow> g e s | (Abort, s) \<Rightarrow> (Abort, s)"
  obtain n r s1 where 1: "sql_faults s1 = []" "m s = (r, s1)"
    "\<forall>fs. m (s\<lparr>sql_faults := replicate n False @ fs\<rparr>) = (r, s1\<lparr>sql_faults := fs\<rparr>)"
    by (rule countableE [OF assms(1) s])
  have next_part: "\<exists>n r s'. sql_faults s' = [] \<and> ?m s = (r, s') \<and>
      (\<forall>fs. ?m (s\<lparr>sql_faults := replicate n False @ fs\<rparr>) = (r, s'\<lparr>sql_faults := fs\<rparr>))"
    if ch: "countable h" and h: "\<And>t. (case (r, t) of (Ret x, s) \<Rightarrow> f x s | (Fail e, s) \<Rightarrow> g e s | (Abort, s) \<Rightarrow> (Abort, s)) = h t" for h
  proof -
    obtain k r' s2 where 2: "sql_faults s2 = []" "h s1 = (r', s2)"
      "\<forall>fs. h (s1\<lparr>sql_faults := replicate k False @ fs\<rparr>) = (r', s2\<lparr>sql_faults := fs\<rparr>)"
      by (rule countableE [OF ch 1(1)])
    have "?m s = (r', s2)" using 1(2) h [of s1] 2(2) by simp
    moreover have "?m (s\<lparr>sql_faults := replicate (n + k) False @ fs\<rparr>) = (r', s2\<lparr>sql_faults := fs\<rparr>)" for fs
      using 1(3) [rule_format, of "replicate k False @ fs"] h [of "s1\<lparr>sql_faults := replicate k False @ fs\<rparr>"] 2(3) [rule_format, of fs]
      by (simp add: replicate_add)
    ultimately show ?thesis using 2(1) by blast
  qed
  show "\<exists>n r s'. sql_faults s' = [] \<and> ?m s = (r, s') \<and>
      (\<forall>fs. ?m (s\<lparr>sql_faults := replicate n False @ fs\<rparr>) = (r, s'\<lparr>sql_faults := fs\<rparr>))"
  proof (cases r)
    case (Ret x)
    with next_part [OF assms(2) [of x]] show ?thesis by simp
  next
    case (Fail e)
    with next_part [OF assms(3) [of e]] show ?thesis by simp
  next
    case Abort
    with 1 show ?thesis by (intro exI [of _ n] exI [of _ Abort] exI [of _ s1]) simp
  qed
qed

lemma countable_res: "countable (io_res r)"
  by (rule countableI) (auto simp: io_res_def intro!: exI [of _ 0])

lemma countable_Fail: "countable (\<lambda>s. (Fail e, s))"
  by (rule countableI) (auto intro!: exI [of _ 0])

lemma countable_bind: "countable m \<Longrightarrow> (\<And>x. countable (f x)) \<Longrightarrow> countable (io_bind m f)"
  using countable_case [of m f "\<lambda>e s. (Fail e, s)"] countable_Fail unfolding io_bind_def [abs_def] by blast

lemma countable_step: "countable (sqlite3_step rows)"
  by (rule countableI) (auto simp: sqlite3_step_def Let_def intro!: exI [of _ "Suc 0"])

text \<open>A routine that looks at the tables first, and one that changes them.\<close>

lemma countable_tables: "(\<And>x. countable (m x)) \<Longrightarrow> countable (\<lambda>s. m (g (config_database s)) s)"
proof (rule countableI)
  fix s :: config_db assume c: "\<And>x. countable (m x)" and s: "sql_faults s = []"
  obtain n r s' where "sql_faults s' = []" "m (g (config_database s)) s = (r, s')"
    "\<forall>fs. m (g (config_database s)) (s\<lparr>sql_faults := replicate n False @ fs\<rparr>) = (r, s'\<lparr>sql_faults := fs\<rparr>)"
    by (rule countableE [OF c s])
  then show "\<exists>n r s'. sql_faults s' = [] \<and> m (g (config_database s)) s = (r, s') \<and>
    (\<forall>fs. m (g (config_database (s\<lparr>sql_faults := replicate n False @ fs\<rparr>))) (s\<lparr>sql_faults := replicate n False @ fs\<rparr>) = (r, s'\<lparr>sql_faults := fs\<rparr>))"
    by auto
qed

lemma countable_first: "countable (sql_first query)"
  using countable_tables [where m = "\<lambda>rows. io_bind (sqlite3_step rows) (\<lambda>row. io_res (Ret (map_option fst row)))" and g = query]
  unfolding sql_first_def [abs_def] by (simp add: countable_bind countable_step countable_res)

lemma countable_change: "countable (sql_change change)"
  unfolding sql_change_def
proof (rule countable_bind [OF countable_step], rule countableI)
  fix s :: config_db assume "sql_faults s = []"
  then show "\<exists>n r s'. sql_faults s' = [] \<and>
      (case change (config_database s) of None \<Rightarrow> (Fail GGL_ERR_FAILURE, s) | Some db \<Rightarrow> (Ret (), s\<lparr>config_database := db\<rparr>)) = (r, s') \<and>
      (\<forall>fs. (case change (config_database (s\<lparr>sql_faults := replicate n False @ fs\<rparr>)) of
          None \<Rightarrow> (Fail GGL_ERR_FAILURE, s\<lparr>sql_faults := replicate n False @ fs\<rparr>)
        | Some db \<Rightarrow> (Ret (), s\<lparr>sql_faults := replicate n False @ fs, config_database := db\<rparr>)) = (r, s'\<lparr>sql_faults := fs\<rparr>))"
    by (intro exI [of _ 0]) (auto split: option.split)
qed

lemma countable_key_insert: "countable (key_insert key)"
  using countable_tables [where m = "\<lambda>k. io_bind (sql_change (sql_key_insert key)) (\<lambda>_. io_res (Ret k))" and g = next_keyid]
  unfolding key_insert_def [abs_def] Let_def by (simp add: countable_bind countable_change countable_res)

lemma countable_find_or_create: "countable (find_or_create_key key parent)"
proof -
  have "countable (find_key_with_parent key parent)" unfolding find_key_with_parent_def
    by (intro countable_bind countable_first countable_res)
  moreover have "countable (\<lambda>s. io_bind (value_is_present_for_key k) (\<lambda>b. io_res (if b then Fail GGL_ERR_FAILURE else Ret k)) s)" for k
    unfolding value_is_present_for_key_def by (intro countable_bind countable_first countable_res)
  moreover have "countable (\<lambda>s. if e = GGL_ERR_NOENTRY then
      io_bind (key_insert key) (\<lambda>k. io_bind (relation_insert k parent) (\<lambda>_. io_res (Ret k))) s else (Fail e, s))" for e
    by (cases "e = GGL_ERR_NOENTRY")
      (simp_all add: relation_insert_def countable_bind countable_key_insert countable_change countable_res countable_Fail)
  ultimately show ?thesis
    using countable_case [of "find_key_with_parent key parent"
        "\<lambda>k. io_bind (value_is_present_for_key k) (\<lambda>b. io_res (if b then Fail GGL_ERR_FAILURE else Ret k))"
        "\<lambda>e s. if e = GGL_ERR_NOENTRY then
           io_bind (key_insert key) (\<lambda>k. io_bind (relation_insert k parent) (\<lambda>_. io_res (Ret k))) s else (Fail e, s)"]
    unfolding find_or_create_key_def [abs_def] by (simp add: case_prod_unfold countable_def split: res.split)
qed

lemma countable_create_keys: "countable (create_keys keys parent ids)"
  by (induction keys arbitrary: parent ids)
    (simp_all add: countable_res countable_bind countable_find_or_create)

lemma countable_create_key_path: "countable (create_key_path p)"
proof (cases p)
  case Nil
  then show ?thesis by (simp add: create_key_path_def countable_res)
next
  case (Cons key keys)
  have "countable (get_or_create_key_at_root key)" unfolding get_or_create_key_at_root_def
    by (rule countable_bind [OF countable_first]) (simp add: countable_res countable_key_insert split: option.split)
  moreover have "countable (value_is_present_for_key k)" for k
    unfolding value_is_present_for_key_def by (intro countable_bind countable_first countable_res)
  moreover have "countable (if b then io_res (Fail GGL_ERR_FAILURE) else create_keys keys k ids)" for b k ids
    by (simp add: countable_res countable_create_keys)
  ultimately show ?thesis unfolding create_key_path_def Cons by (simp add: countable_bind)
qed

lemma countable_step_key_ids: "countable (step_key_ids n rows ids)"
  by (induction n arbitrary: rows ids) (auto simp: countable_res intro!: countable_bind countable_step split: option.split)

lemma countable_get_key_ids: "countable (get_key_ids p)"
proof -
  have "countable (\<lambda>s. step_key_ids (length p) (sql_find_element p (config_database s)) no_ids s)"
    using countable_tables [where m = "\<lambda>rows. step_key_ids (length p) rows no_ids" and g = "sql_find_element p"] countable_step_key_ids
    by blast
  then show ?thesis unfolding get_key_ids_def by (intro countable_bind countable_res)
qed

text \<open>A key without value and children is neither read nor written.\<close>

lemma read_empty_key:
  assumes "sql_faults s = []" "db_inv (config_database s)" "node (config_database s) p = Some (Some k)"
    and "map_of (valueTable (config_database s)) k = None" "\<And>n. node (config_database s) (p @ [n]) = None" "0 < stack"
  shows "\<exists>a'. read_key_recursive stack k (s, a) = (Fail GGL_ERR_FAILURE, s, a')"
proof -
  have "sql_get_children k (config_database s) = []"
  proof (rule ccontr)
    assume "sql_get_children k (config_database s) \<noteq> []"
    then obtain c n where "(c, n) \<in> set (sql_get_children k (config_database s))" by (metis list.set_intros(1) neq_Nil_conv prod.exhaust)
    then have "child (config_database s) (Some k) n = Some c" by (simp add: children_rows [OF assms(2)])
    with assms(3) assms(5) [of n] show False by (simp add: node_snoc)
  qed
  moreover have "value_is_present_for_key k s = (Ret False, s)"
    using assms(1,4) by (simp add: value_is_present_for_key_def io_bind_def no_fault_simps value_rows(1) [OF assms(2)])
  moreover obtain n where "stack = Suc n" using assms(6) by (cases stack) auto
  ultimately show ?thesis using assms(1) by (simp add: io_bind_def on_db_def sqlite3_step_def)
qed

lemma empty_key_refused:
  assumes "config_initialized s" "sql_faults s = []" "db_inv (config_database s)" "room 0 (config_database s)" "path_ok p"
    and "node (config_database s) p = Some (Some k)" "map_of (valueTable (config_database s)) k = None"
    and "\<And>n. node (config_database s) (p @ [n]) = None"
  shows "0 < stack \<Longrightarrow> fst (ggconfig_get_value_from_key stack p s) = Fail GGL_ERR_FAILURE"
    and "\<exists>e. fst (ggconfig_write_value_at_key p w t s) = Fail e"
proof -
  have p: "p \<noteq> []" "length p \<le> GGL_MAX_OBJECT_DEPTH" "print_key_path p \<noteq> Abort" using assms(5) by (simp_all add: path_ok_def)
  obtain r s1 where g: "get_key_ids p s = (r, s1)" by fastforce
  from g assms(3,4) p(2,3) obtain ids where ids: "r = Ret ids" "same s s1" "along (config_database s) p (vec_items ids)"
    by (cases rule: get_key_ids_cases) (use assms(2,6) in auto)
  have s1: "s1 = s" using ids(2) assms(2) by (auto simp: same_def)
  have id: "last_id ids = Ret k" using along_last [OF ids(3) p(1)] assms(6) by (simp add: last_id_def)
  show "fst (ggconfig_get_value_from_key stack p s) = Fail GGL_ERR_FAILURE" if "0 < stack"
    using read_empty_key [OF assms(2,3,6-8) that, of "ggl_bump_alloc_init key_value_memory"] g ids(1) s1 id assms(1)
    by (auto simp: ggconfig_get_value_from_key_def)
  obtain r' s' where w: "ggconfig_write_value_at_key p w t s = (r', s')" by fastforce
  have "view (config_database s) p = Some None" using view_key [OF assms(6)] assms(7) by simp
  with w g [unfolded ids(1)] ids(2) assms(1,3) p(1) ids(3) have "\<exists>e. r' = Fail e"
    by (cases rule: write_old_cases) auto
  with w show "\<exists>e. fst (ggconfig_write_value_at_key p w t s) = Fail e" by simp
qed

text \<open>The write of a new key up to the insertion of its value, which fails.\<close>

lemma write_new_key_fault:
  assumes "db_inv (config_database s)" "room (length p) (config_database s)" "path_ok p" "sql_faults s = []"
    and "node (config_database s) p = None" "\<not> blocked (config_database s) [] p"
  obtains n k ids s2 where "write_new_key p v t (s\<lparr>sql_faults := replicate n False @ [True]\<rparr>) = (Ret (vec_items ids), s2)"
    "sql_faults s2 = []" "kept s s2" "grown (length p) s s2" "reached (config_database s) p k ids (config_database s2)"
proof -
  have p: "p \<noteq> []" "length p \<le> GGL_MAX_OBJECT_DEPTH" using assms(3) by (simp_all add: path_ok_def)
  obtain n r s2 where c: "sql_faults s2 = []" "create_key_path p s = (r, s2)"
    "\<forall>fs. create_key_path p (s\<lparr>sql_faults := replicate n False @ fs\<rparr>) = (r, s2\<lparr>sql_faults := fs\<rparr>)"
    by (rule countableE [OF countable_create_key_path assms(4)])
  from create_key_path_cases [OF c(2) p(1) assms(1) p(2) assms(2)] assms(4,6) obtain ids k where
    k: "kept s s2" "r = Ret ids" "reached (config_database s) p k ids (config_database s2)" by blast
  note a = reachedD [OF k(3)]
  have id: "last_id ids = Ret k" using along_last [OF a(5) p(1)] a(3) by (simp add: last_id_def)
  have s2: "s2\<lparr>sql_faults := []\<rparr> = s2" using c(1) by simp
  have "io_ignore (value_insert k v t) (s2\<lparr>sql_faults := [True]\<rparr>) = (Ret (), s2)"
    by (simp add: value_insert_def sql_change_def io_bind_def sqlite3_step_def io_ignore_def s2)
  then have "write_new_key p v t (s\<lparr>sql_faults := replicate n False @ [True]\<rparr>) = (Ret (vec_items ids), s2)"
    using c(3) k(2) id by (simp add: write_new_key_def io_bind_def)
  with that c(1) k(1,3) addsE [OF adds_create_key_path c(2)] show thesis by blast
qed

text \<open>C19: the result of inserting the value of a new key is not looked at. For every write of a new key there is a
  step of the database such that, if it fails, the write is acknowledged all the same but the key has no value:
  from then on reading it is an error, and every further write to it is refused.\<close>

theorem acknowledged_write_is_lost:
  assumes "config_initialized s" "db_inv (config_database s)" "room (length p) (config_database s)" "path_ok p" "sql_faults s = []"
    and "view (config_database s) p = None" "write_spec (view (config_database s)) p v t \<noteq> None"
  shows "\<exists>n s'. ggconfig_write_value_at_key p v t (s\<lparr>sql_faults := replicate n False @ [True]\<rparr>) = (Ret (), s') \<and>
    view (config_database s') p = Some None \<and>
    (\<forall>stack>0. fst (ggconfig_get_value_from_key stack p s') = Fail GGL_ERR_FAILURE) \<and>
    (\<forall>w t'. \<exists>e. fst (ggconfig_write_value_at_key p w t' s') = Fail e)"
proof -
  let ?db = "config_database s"
  have p: "p \<noteq> []" "length p \<le> GGL_MAX_OBJECT_DEPTH" "print_key_path p \<noteq> Abort" using assms(4) by (simp_all add: path_ok_def)
  have none: "node ?db p = None" using assms(6) p(1) by (cases p rule: rev_cases) (auto simp: view_def node_snoc split: option.splits)
  have nb: "\<not> blocked ?db [] p" using assms(6,7) by (auto simp: blocked_spec write_spec_def split: if_splits)
  obtain n r s1 where g: "sql_faults s1 = []" "get_key_ids p s = (r, s1)"
    "\<forall>fs. get_key_ids p (s\<lparr>sql_faults := replicate n False @ fs\<rparr>) = (r, s1\<lparr>sql_faults := fs\<rparr>)"
    by (rule countableE [OF countable_get_key_ids assms(5)])
  from g(2) assms(2,3) p(2,3) have "r = Fail GGL_ERR_NOENTRY \<and> same s s1"
    by (cases rule: get_key_ids_cases) (use none along_last p(1) assms(5) in fastforce)+
  then have r: "r = Fail GGL_ERR_NOENTRY" "s1 = s" using g(1) assms(5) by (auto simp: same_def)
  obtain m k ids s2 where w: "write_new_key p v t (s\<lparr>sql_faults := replicate m False @ [True]\<rparr>) = (Ret (vec_items ids), s2)"
    "sql_faults s2 = []" "kept s s2" "grown (length p) s s2" "reached ?db p k ids (config_database s2)"
    by (rule write_new_key_fault [OF assms(2-5) none nb])
  note a = reachedD [OF w(5)]
  obtain r3 s3 where s3: "notify_nested_key p (vec_items ids) s2 = (r3, s3)" by fastforce
  from notify_nested_cases [OF s3] w(2,3) assms(1) have n3: "r3 \<noteq> Abort" "config_database s3 = config_database s2"
    "config_initialized s3" "sql_faults s3 = []" by (auto simp: kept_def)
  then have "io_ignore (notify_nested_key p (vec_items ids)) s2 = (Ret (), s3)" using s3 by (cases r3) (simp_all add: io_ignore_def)
  moreover have "rolled_back ?db (write_new_key p v t) (s\<lparr>sql_faults := replicate m False @ [True]\<rparr>) = (Ret (vec_items ids), s2)"
    using w(1) by (rule rolled_back_simps)
  ultimately have run: "ggconfig_write_value_at_key p v t (s\<lparr>sql_faults := replicate (n + m) False @ [True]\<rparr>) = (Ret (), s3)"
    using g(3) [rule_format, of "replicate m False @ [True]"] r assms(1)
    by (simp add: ggconfig_write_value_at_key_def replicate_add io_bind_def)
  have "room 0 (config_database s3)" using w(4) assms(3) n3(2) by (simp add: grown_def room_def)
  moreover have "node (config_database s3) (p @ [x]) = None" for x
  proof -
    have "node ?db (p @ [x]) = None" using node_prefix [of ?db p "[x]"] none by (cases "node ?db (p @ [x])") auto
    moreover have "\<not> prefix (p @ [x]) p" by (auto simp: prefix_def)
    ultimately show ?thesis using a(2) n3(2) unfolding extends_def by (metis option.exhaust)
  qed
  ultimately have lost: "0 < stack \<Longrightarrow> fst (ggconfig_get_value_from_key stack p s3) = Fail GGL_ERR_FAILURE"
    "\<exists>e. fst (ggconfig_write_value_at_key p x y s3) = Fail e" for stack x y
    using empty_key_refused [of s3 p k] n3 a(1,3,4) assms(4) by simp_all
  have "view (config_database s3) p = Some None" using view_key [OF a(3)] a(4) n3(2) by simp
  with lost run show ?thesis by blast
qed

section \<open>Examples\<close>

theorem acknowledged_write_is_lost_witness:
  "\<exists>n s'. ggconfig_write_value_at_key [[1], [2]] [7] 5 (empty_config\<lparr>sql_faults := replicate n False @ [True]\<rparr>) = (Ret (), s') \<and>
    view (config_database s') [[1], [2]] = Some None"
  using acknowledged_write_is_lost [of empty_config "[[1], [2]]" "[7]" 5] empty_config_ok
  by (auto simp: path_ok_def GGL_MAX_OBJECT_DEPTH_def short_path write_spec_def)

theorem subscriber_is_notified_witness:
  "\<exists>s1 s3. ggconfig_get_key_notification [[1]] 9 (one_key [1] [7]) = (Ret (), s1) \<and>
    ggconfig_write_value_at_key [[1]] [8] 5 (config_step (Config_subscribe [[1]] 4) s1) = (Ret (), s3) \<and>
    (\<exists>ns. notified s3 = notified (config_step (Config_subscribe [[1]] 4) s1) @ ns \<and> (9, [[1]]) \<in> set ns)"
proof -
  let ?t = "\<lambda>v subs. \<lparr>keyTable = [(1, [1])], relationTable = [], valueTable = [(1, v)], subscriberTable = subs\<rparr>"
  let ?s = "\<lambda>v subs ns. \<lparr>config_initialized = True, config_database = ?t v subs, sql_faults = [], notified = ns\<rparr>"
  let ?s1 = "?s ([7], 0) [(1, 9)] []" and ?s2 = "?s ([7], 0) [(1, 9), (1, 4)] []"
    and ?s3 = "?s ([8], 5) [(1, 9), (1, 4)] [(9, [[1]]), (4, [[1]])]"
  have 1: "ggconfig_get_key_notification [[1]] 9 (one_key [1] [7]) = (Ret (), ?s1)" by code_simp
  have 2: "?s2 = fold config_step [Config_subscribe [[1]] 4] ?s1" by code_simp
  have 3: "ggconfig_write_value_at_key [[1]] [8] 5 ?s2 = (Ret (), ?s3)" by code_simp
  have 4: "view (config_database ?s2) [[1]] = Some (Some ([7], 0))" by code_simp
  have "\<exists>ns. notified ?s3 = notified ?s2 @ ns \<and> (9, [[1]] @ []) \<in> set ns"
    by (rule subscriber_is_notified [OF one_key_ok(2) _ _ _ _ 1 2 _ _ ])
      (use 3 4 one_key_ok(4) in \<open>auto simp: path_ok_def GGL_MAX_OBJECT_DEPTH_def short_path\<close>)
  moreover have "config_step (Config_subscribe [[1]] 4) ?s1 = ?s2" using 2 by (simp del: config_step.simps)
  ultimately show ?thesis using 1 3 by (intro exI [of _ ?s1] exI [of _ ?s3]) (simp del: config_step.simps)
qed

end
