(* ===== verification/JsonParse.thy ===== *)
theory JsonParse
  imports ObjectCopy
begin

unbundle bit_operations_syntax

text \<open>
  The parsers of the JSON decoder, the first half of \<^verbatim>\<open>ggl-json/src/json_decode.c\<close>: parsers that advance a
  buffer and fill in the kind, the extent and the number of items of what they match, and the combinators
  that build them. Shows that the parser of JSON values returns on every input, and where it stops on the
  texts that are JSON.
\<close>

section \<open>Parsers\<close>

text \<open>A buffer is an offset and a length in the memory that is parsed.\<close>

datatype JsonType =
    JSON_TYPE_STR
  | JSON_TYPE_NUMBER
  | JSON_TYPE_OBJECT
  | JSON_TYPE_ARRAY
  | JSON_TYPE_TRUE
  | JSON_TYPE_FALSE
  | JSON_TYPE_NULL

record ParseResult =
  json_type :: JsonType
  content :: loc_buf
  item_count :: nat

text \<open>\<open>None\<close> is a parser that does not return, because its calls exhaust the stack. Otherwise the result is whether the
  parser matches, and the buffer and the output as it leaves them. The output may be a null pointer.\<close>

type_synonym parsed = "(bool \<times> loc_buf \<times> ParseResult option) option"

type_synonym Parser = "buffer \<Rightarrow> loc_buf \<Rightarrow> ParseResult option \<Rightarrow> parsed"

definition advance :: "nat \<Rightarrow> loc_buf \<Rightarrow> loc_buf" where
  "advance n buf = (fst buf + min n (snd buf), snd buf - n)"

section \<open>Combinators\<close>

fun comb_one_of :: "Parser list \<Rightarrow> Parser" where
  "comb_one_of [] mem buf out = Some (False, buf, out)"
| "comb_one_of (p # ps) mem buf out =
     (case p mem buf out of
        None \<Rightarrow> None
      | Some (True, buf, out) \<Rightarrow> Some (True, buf, out)
      | Some (False, buf, out) \<Rightarrow> comb_one_of ps mem buf out)"

fun sequence_loop :: "Parser list \<Rightarrow> Parser" where
  "sequence_loop [] mem buf out = Some (True, buf, out)"
| "sequence_loop (p # ps) mem buf out =
     (case p mem buf out of
        None \<Rightarrow> None
      | Some (True, buf, out) \<Rightarrow> sequence_loop ps mem buf out
      | Some (False, buf, out) \<Rightarrow> Some (False, buf, out))"

definition comb_sequence :: "Parser list \<Rightarrow> Parser" where
  "comb_sequence ps mem buf out =
     (case sequence_loop ps mem buf out of
        None \<Rightarrow> None
      | Some (matches, buf_copy, out) \<Rightarrow> Some (matches, if matches then buf_copy else buf, out))"

partial_function (option) comb_zero_or_more :: "Parser \<Rightarrow> Parser" where
  "comb_zero_or_more p mem buf out =
     (case p mem buf out of
        None \<Rightarrow> None
      | Some r \<Rightarrow>
          (if fst r then comb_zero_or_more p mem (fst (snd r)) (snd (snd r))
           else Some (True, fst (snd r), snd (snd r))))"

declare comb_zero_or_more.simps [code]

definition comb_maybe :: "Parser \<Rightarrow> Parser" where
  "comb_maybe p mem buf out =
     (case p mem buf out of None \<Rightarrow> None | Some (_, buf, out) \<Rightarrow> Some (True, buf, out))"

definition comb_nested :: "Parser \<Rightarrow> Parser" where
  "comb_nested p mem buf out =
     (case p mem buf None of None \<Rightarrow> None | Some (matches, buf, _) \<Rightarrow> Some (matches, buf, out))"

definition comb_result_val :: "JsonType \<Rightarrow> Parser \<Rightarrow> Parser" where
  "comb_result_val type p mem buf out =
     (case p mem buf out of
        None \<Rightarrow> None
      | Some (matches, buf', out) \<Rightarrow>
          (let match = (fst buf, fst buf' - fst buf) in
           Some (matches, buf',
             if matches then map_option (\<lambda>r. r\<lparr>json_type := type, content := match\<rparr>) out else out)))"

definition comb_increment_count :: "Parser \<Rightarrow> Parser" where
  "comb_increment_count p mem buf out =
     (case p mem buf out of
        None \<Rightarrow> None
      | Some (matches, buf, out) \<Rightarrow>
          Some (matches, buf,
            if matches then map_option (\<lambda>r. r\<lparr>item_count := item_count r + 1\<rparr>) out else out))"

section \<open>Characters\<close>

text \<open>Reading beyond the memory has no result.\<close>

definition parser_char :: "byte \<Rightarrow> Parser" where
  "parser_char c mem buf out =
     (if snd buf < 1 then Some (False, buf, out)
      else if fst buf \<ge> length mem then None
      else if mem ! fst buf \<noteq> c then Some (False, buf, out)
      else Some (True, advance 1 buf, out))"

definition parser_str :: "buffer \<Rightarrow> Parser" where
  "parser_str str mem buf out =
     (if snd buf < length str then Some (False, buf, out)
      else if fst buf + length str > length mem then None
      else if take (length str) (drop (fst buf) mem) \<noteq> str then Some (False, buf, out)
      else Some (True, advance (length str) buf, out))"

text \<open>The ranges are of ASCII characters, so that it does not matter whether \<^verbatim>\<open>char\<close> is signed.\<close>

definition parser_char_range :: "byte \<Rightarrow> byte \<Rightarrow> Parser" where
  "parser_char_range from to mem buf out =
     (if snd buf < 1 then Some (False, buf, out)
      else if fst buf \<ge> length mem then None
      else let c = mem ! fst buf in
        if c < from \<or> c > to then Some (False, buf, out)
        else Some (True, advance 1 buf, out))"

definition PARSER_DIGIT :: Parser where
  "PARSER_DIGIT = parser_char_range (ch CHR ''0'') (ch CHR ''9'')"

definition PARSER_HEX_DIGIT :: Parser where
  "PARSER_HEX_DIGIT =
     comb_one_of [PARSER_DIGIT, parser_char_range (ch CHR ''A'') (ch CHR ''F''),
       parser_char_range (ch CHR ''a'') (ch CHR ''f'')]"

definition PARSER_JSON_STR_ESCAPE :: Parser where
  "PARSER_JSON_STR_ESCAPE =
     comb_sequence
       [parser_char 0x5C,
        comb_one_of
          [parser_char 0x22,
           parser_char 0x5C,
           parser_char (ch CHR ''/''),
           parser_char (ch CHR ''b''),
           parser_char (ch CHR ''f''),
           parser_char (ch CHR ''n''),
           parser_char (ch CHR ''r''),
           parser_char (ch CHR ''t''),
           comb_sequence
             [parser_char (ch CHR ''u''), PARSER_HEX_DIGIT, PARSER_HEX_DIGIT, PARSER_HEX_DIGIT, PARSER_HEX_DIGIT]]]"

text \<open>The length that the first byte of a character announces.\<close>

definition utf8_len :: "byte \<Rightarrow> nat option" where
  "utf8_len b =
     (if b AND 0x80 = 0 then Some 1
      else if b AND 0xE0 = 0xC0 then Some 2
      else if b AND 0xF0 = 0xE0 then Some 3
      else if b AND 0xF8 = 0xF0 then Some 4
      else None)"

text \<open>The loop over the bytes that follow the first tests the first byte, as the source has it.\<close>

definition parser_json_str_codepoint :: Parser where
  "parser_json_str_codepoint mem buf out =
     (if snd buf < 1 then Some (False, buf, out)
      else if fst buf \<ge> length mem then None
      else let b = mem ! fst buf in
        if b \<le> 0x1F then Some (False, buf, out)
        else if b = 0x22 then Some (False, buf, out)
        else if b = 0x5C then Some (False, buf, out)
        else if b AND 0xC0 = 0x80 then Some (False, buf, out)
        else case utf8_len b of
            None \<Rightarrow> Some (False, buf, out)
          | Some n \<Rightarrow>
              if snd buf < n then Some (False, buf, out)
              else if \<not> list_all (\<lambda>i. mem ! fst buf AND 0xC0 = 0x80) [1..<n] then Some (False, buf, out)
              else Some (True, advance n buf, out))"

section \<open>The grammar\<close>

definition PARSER_JSON_WHITESPACE :: Parser where
  "PARSER_JSON_WHITESPACE =
     comb_zero_or_more (comb_one_of [parser_char 0x20, parser_char 0x0A, parser_char 0x0D, parser_char 0x09])"

definition PARSER_JSON_STR :: Parser where
  "PARSER_JSON_STR =
     comb_sequence
       [parser_char 0x22,
        comb_result_val JSON_TYPE_STR
          (comb_zero_or_more (comb_one_of [parser_json_str_codepoint, PARSER_JSON_STR_ESCAPE])),
        parser_char 0x22]"

definition PARSER_INT_PART :: Parser where
  "PARSER_INT_PART =
     comb_sequence
       [comb_maybe (parser_char (ch CHR ''-'')),
        comb_one_of
          [parser_char (ch CHR ''0''),
           comb_sequence [parser_char_range (ch CHR ''1'') (ch CHR ''9''), comb_zero_or_more PARSER_DIGIT]]]"

definition PARSER_FRAC_PART :: Parser where
  "PARSER_FRAC_PART = comb_sequence [parser_char (ch CHR ''.''), comb_zero_or_more PARSER_DIGIT]"

definition PARSER_EXPONENT :: Parser where
  "PARSER_EXPONENT =
     comb_sequence
       [comb_one_of [parser_char (ch CHR ''e''), parser_char (ch CHR ''E'')],
        comb_maybe (comb_one_of [parser_char (ch CHR ''+''), parser_char (ch CHR ''-'')]),
        PARSER_DIGIT,
        comb_zero_or_more PARSER_DIGIT]"

definition PARSER_JSON_NUMBER :: Parser where
  "PARSER_JSON_NUMBER =
     comb_result_val JSON_TYPE_NUMBER
       (comb_sequence [PARSER_INT_PART, comb_maybe PARSER_FRAC_PART, comb_maybe PARSER_EXPONENT])"

text \<open>The parsers of compound values use the parser of values, which is an argument.\<close>

definition PARSER_JSON_OBJECT_KV :: "Parser \<Rightarrow> Parser" where
  "PARSER_JSON_OBJECT_KV val =
     comb_nested (comb_sequence [PARSER_JSON_STR, PARSER_JSON_WHITESPACE, parser_char (ch CHR '':''), val])"

definition PARSER_JSON_OBJECT :: "Parser \<Rightarrow> Parser" where
  "PARSER_JSON_OBJECT val =
     comb_sequence
       [parser_char (ch CHR ''{''),
        PARSER_JSON_WHITESPACE,
        comb_result_val JSON_TYPE_OBJECT
          (comb_maybe (comb_sequence
             [comb_zero_or_more (comb_increment_count (comb_sequence
                [PARSER_JSON_OBJECT_KV val, parser_char (ch CHR '',''), PARSER_JSON_WHITESPACE])),
              comb_increment_count (PARSER_JSON_OBJECT_KV val)])),
        parser_char (ch CHR ''}'')]"

definition PARSER_JSON_ARRAY_ELEM :: "Parser \<Rightarrow> Parser" where
  "PARSER_JSON_ARRAY_ELEM val = comb_nested val"

definition PARSER_JSON_ARRAY :: "Parser \<Rightarrow> Parser" where
  "PARSER_JSON_ARRAY val =
     comb_sequence
       [parser_char (ch CHR ''[''),
        PARSER_JSON_WHITESPACE,
        comb_result_val JSON_TYPE_ARRAY
          (comb_maybe (comb_sequence
             [comb_zero_or_more (comb_increment_count
                (comb_sequence [PARSER_JSON_ARRAY_ELEM val, parser_char (ch CHR '','')])),
              comb_increment_count (PARSER_JSON_ARRAY_ELEM val)])),
        parser_char (ch CHR '']'')]"

definition PARSER_JSON_TRUE :: Parser where
  "PARSER_JSON_TRUE = comb_result_val JSON_TYPE_TRUE (parser_str (GGL_STR ''true''))"

definition PARSER_JSON_FALSE :: Parser where
  "PARSER_JSON_FALSE = comb_result_val JSON_TYPE_FALSE (parser_str (GGL_STR ''false''))"

definition PARSER_JSON_NULL :: Parser where
  "PARSER_JSON_NULL = comb_result_val JSON_TYPE_NULL (parser_str (GGL_STR ''null''))"

definition value_parsers :: "Parser \<Rightarrow> Parser list" where
  "value_parsers val =
     [PARSER_JSON_STR, PARSER_JSON_NUMBER, PARSER_JSON_OBJECT val, PARSER_JSON_ARRAY val, PARSER_JSON_TRUE,
      PARSER_JSON_FALSE, PARSER_JSON_NULL]"

text \<open>Values nest; \<open>stack\<close> is how deep the stack allows the parser to call itself.\<close>

fun PARSER_JSON_VALUE :: "nat \<Rightarrow> Parser" where
  "PARSER_JSON_VALUE 0 mem buf out = None"
| "PARSER_JSON_VALUE (Suc stack) mem buf out =
     comb_sequence
       [PARSER_JSON_WHITESPACE, comb_one_of (value_parsers (PARSER_JSON_VALUE stack)), PARSER_JSON_WHITESPACE]
       mem buf out"

section \<open>Every parser returns\<close>

definition ahead :: "loc_buf \<Rightarrow> loc_buf \<Rightarrow> bool" where
  "ahead buf buf' \<longleftrightarrow> fst buf \<le> fst buf' \<and> fst buf' + snd buf' = fst buf + snd buf"

lemma ahead_refl [simp]: "ahead buf buf"
  by (simp add: ahead_def)

lemma ahead_trans: "ahead a b \<Longrightarrow> ahead b c \<Longrightarrow> ahead a c"
  by (simp add: ahead_def)

lemma ahead_advance [simp]: "ahead buf (advance n buf)"
  by (simp add: ahead_def advance_def)

lemma ahead_len: "ahead buf buf' \<Longrightarrow> snd buf' \<le> snd buf"
  by (simp add: ahead_def)

text \<open>A buffer of up to \<open>n\<close> bytes inside the memory.\<close>

definition within :: "nat \<Rightarrow> buffer \<Rightarrow> loc_buf \<Rightarrow> bool" where
  "within n mem buf \<longleftrightarrow> snd buf \<le> n \<and> fst buf + snd buf \<le> length mem"

lemma within_ahead: "within n mem buf \<Longrightarrow> ahead buf buf' \<Longrightarrow> within n mem buf'"
  by (auto simp: within_def ahead_def)

lemma within_self: "within n mem buf \<Longrightarrow> within (snd buf) mem buf"
  by (simp add: within_def)

lemma within_len: "within n mem buf \<Longrightarrow> snd buf \<le> n"
  by (simp add: within_def)

lemma within_mono: "within m mem buf \<Longrightarrow> m \<le> n \<Longrightarrow> within n mem buf"
  by (simp add: within_def)

text \<open>
  What the comment at the head of the source promises of a parser, on buffers of up to \<open>n\<close> bytes: it returns
  without reading beyond the memory, it has
  consumed a prefix of the buffer, and nothing if it does not match. \<open>moves\<close>: it does not match the empty prefix.
\<close>

fun sound_result :: "loc_buf \<Rightarrow> ParseResult option \<Rightarrow> parsed \<Rightarrow> bool" where
  "sound_result buf out None \<longleftrightarrow> False"
| "sound_result buf out (Some (ok, buf', out')) \<longleftrightarrow>
     ahead buf buf' \<and> (\<not> ok \<longrightarrow> buf' = buf) \<and> (out' = None \<longleftrightarrow> out = None)"

definition sound :: "nat \<Rightarrow> Parser \<Rightarrow> bool" where
  "sound n p \<longleftrightarrow> (\<forall>mem buf out. within n mem buf \<longrightarrow> sound_result buf out (p mem buf out))"

fun moves_result :: "loc_buf \<Rightarrow> parsed \<Rightarrow> bool" where
  "moves_result buf (Some (True, buf', out')) \<longleftrightarrow> snd buf' < snd buf"
| "moves_result buf _ \<longleftrightarrow> True"

definition moves :: "nat \<Rightarrow> Parser \<Rightarrow> bool" where
  "moves n p \<longleftrightarrow> (\<forall>mem buf out. within n mem buf \<longrightarrow> moves_result buf (p mem buf out))"

lemma sound_resultE:
  assumes "sound_result buf out r"
  obtains (match) buf' out' where "r = Some (True, buf', out')" "ahead buf buf'" "out' = None \<longleftrightarrow> out = None"
    | (miss) out' where "r = Some (False, buf, out')" "out' = None \<longleftrightarrow> out = None"
  using assms by (cases "(buf, out, r)" rule: sound_result.cases) auto

lemma soundD: "sound n p \<Longrightarrow> within n mem buf \<Longrightarrow> sound_result buf out (p mem buf out)"
  unfolding sound_def by blast

lemma soundI: "(\<And>mem buf out. within n mem buf \<Longrightarrow> sound_result buf out (p mem buf out)) \<Longrightarrow> sound n p"
  by (simp add: sound_def)

lemma movesD: "moves n p \<Longrightarrow> within n mem buf \<Longrightarrow> moves_result buf (p mem buf out)"
  unfolding moves_def by blast

lemma movesI: "(\<And>mem buf out. within n mem buf \<Longrightarrow> moves_result buf (p mem buf out)) \<Longrightarrow> moves n p"
  by (simp add: moves_def)

lemma sound_mono: "sound n p \<Longrightarrow> m \<le> n \<Longrightarrow> sound m p"
  using within_mono by (auto simp: sound_def)

lemma sound_one_of: "(\<And>p. p \<in> set ps \<Longrightarrow> sound n p) \<Longrightarrow> sound n (comb_one_of ps)"
proof (induction ps)
  case (Cons p ps)
  show ?case
  proof (rule soundI)
    fix mem out and buf :: loc_buf
    assume b: "within n mem buf"
    have ps: "sound n (comb_one_of ps)" using Cons by simp
    from Cons.prems [of p] b have "sound_result buf out (p mem buf out)" by (intro soundD) auto
    then show "sound_result buf out (comb_one_of (p # ps) mem buf out)"
    proof (cases rule: sound_resultE)
      case (miss out1)
      with soundD [OF ps b, of out1] show ?thesis
        by (cases "comb_one_of ps mem buf out1") auto
    qed simp
  qed
qed (simp add: sound_def)

lemma sound_sequence_loop:
  assumes "\<And>p. p \<in> set ps \<Longrightarrow> sound n p" "within n mem buf"
  obtains ok buf' out' where "sequence_loop ps mem buf out = Some (ok, buf', out')" "ahead buf buf'"
    "out' = None \<longleftrightarrow> out = None"
proof -
  have "\<exists>r. sequence_loop ps mem buf out = Some r \<and> ahead buf (fst (snd r)) \<and> (snd (snd r) = None \<longleftrightarrow> out = None)"
    using assms
  proof (induction ps arbitrary: buf out)
    case (Cons p ps)
    from Cons.prems(1) [of p] Cons.prems(2) have "sound_result buf out (p mem buf out)" by (intro soundD) auto
    then show ?case
    proof (cases rule: sound_resultE)
      case (match buf1 out1)
      with Cons.IH [of buf1 out1] Cons.prems within_ahead [of n mem buf buf1] show ?thesis
        by (auto intro: ahead_trans)
    qed simp
  qed simp
  with that show thesis by (metis prod.collapse)
qed

lemma sound_sequence:
  assumes "\<And>p. p \<in> set ps \<Longrightarrow> sound n p"
  shows "sound n (comb_sequence ps)"
proof (rule soundI)
  fix mem out and buf :: loc_buf
  assume "within n mem buf"
  with assms obtain ok buf' out' where
    "sequence_loop ps mem buf out = Some (ok, buf', out')" "ahead buf buf'" "out' = None \<longleftrightarrow> out = None"
    by (rule sound_sequence_loop)
  then show "sound_result buf out (comb_sequence ps mem buf out)"
    by (simp add: comb_sequence_def)
qed

lemma zero_or_more_sound:
  assumes "sound n p" "moves n p" "within n mem buf"
  shows "\<exists>r. comb_zero_or_more p mem buf out = Some (True, r) \<and> ahead buf (fst r) \<and> (snd r = None \<longleftrightarrow> out = None)"
  using assms(3)
proof (induction "snd buf" arbitrary: buf out rule: less_induct)
  case less
  note mv = movesD [OF assms(2) less.prems, of out]
  from soundD [OF assms(1) less.prems, of out] show ?case
  proof (cases rule: sound_resultE)
    case (match buf1 out1)
    with mv less.hyps [of buf1 out1] within_ahead [OF less.prems] obtain r where
      "comb_zero_or_more p mem buf1 out1 = Some (True, r)" "ahead buf1 (fst r)" "snd r = None \<longleftrightarrow> out1 = None" by auto
    with match ahead_trans [of buf buf1 "fst r"] show ?thesis by (subst comb_zero_or_more.simps) simp
  next
    case (miss out')
    then show ?thesis by (subst comb_zero_or_more.simps) simp
  qed
qed

lemma sound_zero_or_more: "sound n p \<Longrightarrow> moves n p \<Longrightarrow> sound n (comb_zero_or_more p)"
  using zero_or_more_sound [of n p] by (intro soundI) (metis prod.collapse sound_result.simps(2))

lemma sound_wrap:
  assumes "sound n p"
    and "\<And>mem buf out. sound_result buf (f out) (p mem buf (f out)) \<Longrightarrow> sound_result buf out (q mem buf out)"
  shows "sound n q"
  using soundD [OF assms(1)] assms(2) by (intro soundI) blast

lemma sound_maybe: "sound n p \<Longrightarrow> sound n (comb_maybe p)"
  by (erule sound_wrap [where f = "\<lambda>out. out"], erule sound_resultE) (simp_all add: comb_maybe_def)

lemma sound_nested: "sound n p \<Longrightarrow> sound n (comb_nested p)"
  by (erule sound_wrap [where f = "\<lambda>out. None"], erule sound_resultE) (simp_all add: comb_nested_def)

lemma sound_result_val: "sound n p \<Longrightarrow> sound n (comb_result_val type p)"
  by (erule sound_wrap [where f = "\<lambda>out. out"], erule sound_resultE) (simp_all add: comb_result_val_def Let_def)

lemma sound_increment_count: "sound n p \<Longrightarrow> sound n (comb_increment_count p)"
  by (erule sound_wrap [where f = "\<lambda>out. out"], erule sound_resultE) (simp_all add: comb_increment_count_def)

lemma sound_chars: "sound n (parser_char c)" "sound n (parser_char_range a b)" "sound n (parser_str s)"
  "sound n parser_json_str_codepoint"
  by (auto intro!: soundI simp: within_def parser_char_def parser_char_range_def parser_str_def parser_json_str_codepoint_def Let_def
      split: option.split)

lemma moves_chars: "moves n (parser_char c)" "moves n (parser_char_range a b)" "moves n parser_json_str_codepoint"
  by (auto intro!: movesI simp: parser_char_def parser_char_range_def parser_json_str_codepoint_def utf8_len_def
      advance_def Let_def)

lemma moves_str: "s \<noteq> [] \<Longrightarrow> moves n (parser_str s)"
  by (intro movesI, cases s) (auto simp: parser_str_def advance_def)

lemma moves_one_of:
  assumes "\<And>p. p \<in> set ps \<Longrightarrow> sound n p" "\<And>p. p \<in> set ps \<Longrightarrow> moves n p"
  shows "moves n (comb_one_of ps)"
  using assms
proof (induction ps)
  case (Cons p ps)
  show ?case
  proof (rule movesI)
    fix mem out and buf :: loc_buf
    assume b: "within n mem buf"
    have ps: "moves n (comb_one_of ps)" using Cons by simp
    have mv: "moves_result buf (p mem buf out)" using Cons.prems(2) [of p] b by (simp add: movesD)
    from Cons.prems(1) [of p] b have "sound_result buf out (p mem buf out)" by (intro soundD) auto
    then show "moves_result buf (comb_one_of (p # ps) mem buf out)"
      by (cases rule: sound_resultE) (use mv movesD [OF ps b] in simp_all)
  qed
qed (simp add: moves_def)

text \<open>One parser that moves makes a sequence move.\<close>

lemma moves_sequence:
  assumes "\<And>q. q \<in> set ps \<Longrightarrow> sound n q" "p \<in> set ps" "moves n p"
  shows "moves n (comb_sequence ps)"
proof -
  have "snd buf' < snd buf" if "within n mem buf" "sequence_loop ps mem buf out = Some (True, buf', out')" for mem buf out buf' out'
    using assms that
  proof (induction ps arbitrary: buf out)
    case (Cons q ps)
    from Cons.prems(1) [of q] Cons.prems(4) have "sound_result buf out (q mem buf out)" by (intro soundD) auto
    then show ?case
    proof (cases rule: sound_resultE)
      case (match buf1 out1)
      with Cons.prems(4) have b1: "snd buf1 \<le> snd buf" "within n mem buf1" by (auto dest: ahead_len intro: within_ahead)
      show ?thesis
      proof (cases "p = q")
        case True
        then have "snd buf1 < snd buf" using movesD [OF Cons.prems(3,4), of out] match by simp
        moreover have "\<And>r. r \<in> set ps \<Longrightarrow> sound n r" using Cons.prems(1) by simp
        from sound_sequence_loop [where mem = mem and out = out1, OF this b1(2)]
        obtain ok b o' where "sequence_loop ps mem buf1 out1 = Some (ok, b, o')" "ahead buf1 b" by blast
        then have "snd buf' \<le> snd buf1" using Cons.prems(5) match(1) ahead_len [of buf1 b] by simp
        ultimately show ?thesis by simp
      next
        case False
        then have "p \<in> set ps" using Cons.prems(2) by simp
        moreover have "\<And>r. r \<in> set ps \<Longrightarrow> sound n r" using Cons.prems(1) by simp
        moreover have "sequence_loop ps mem buf1 out1 = Some (True, buf', out')" using Cons.prems(5) match(1) by simp
        ultimately have "snd buf' < snd buf1" using Cons.IH [of buf1 out1] Cons.prems(3) b1(2) by simp
        with b1(1) show ?thesis by simp
      qed
    next
      case (miss out')
      with Cons.prems(5) show ?thesis by simp
    qed
  qed simp
  moreover have "moves_result buf (comb_sequence ps mem buf out)"
    if "within n mem buf" "\<And>buf' out'. sequence_loop ps mem buf out = Some (True, buf', out') \<Longrightarrow> snd buf' < snd buf" for mem buf out
  proof -
    from assms(1) that(1) obtain ok buf' out' where "sequence_loop ps mem buf out = Some (ok, buf', out')"
      by (rule sound_sequence_loop)
    with that(2) show ?thesis by (cases ok) (auto simp: comb_sequence_def)
  qed
  ultimately show ?thesis by (intro movesI) blast
qed

text \<open>Behind a parser that moves, the others see a shorter buffer.\<close>

lemma sound_sequence_Cons:
  assumes "sound n p" "moves n p" "\<And>q m. q \<in> set ps \<Longrightarrow> m < n \<Longrightarrow> sound m q"
  shows "sound n (comb_sequence (p # ps))"
proof (rule soundI)
  fix mem out and buf :: loc_buf
  assume b: "within n mem buf"
  from soundD [OF assms(1) b, of out] show "sound_result buf out (comb_sequence (p # ps) mem buf out)"
  proof (cases rule: sound_resultE)
    case (match buf1 out1)
    then have lt: "snd buf1 < n" using movesD [OF assms(2) b, of out] within_len [OF b] by simp
    have w: "within (snd buf1) mem buf1" using within_self [OF within_ahead [OF b match(2)]] .
    have "\<And>q. q \<in> set ps \<Longrightarrow> sound (snd buf1) q" using assms(3) lt by blast
    from sound_sequence_loop [where mem = mem and out = out1, OF this w]
    obtain ok buf' out' where "sequence_loop ps mem buf1 out1 = Some (ok, buf', out')" "ahead buf1 buf'"
      "out' = None \<longleftrightarrow> out1 = None" by blast
    with match ahead_trans [of buf buf1 buf'] show ?thesis by (simp add: comb_sequence_def)
  qed (simp add: comb_sequence_def)
qed

lemma moves_wrap:
  assumes "sound n p" "moves n p"
  shows "moves n (comb_increment_count p)" "moves n (comb_nested p)" "moves n (comb_result_val t p)"
proof -
  have mv: "p mem buf out = Some (ok, buf', out') \<Longrightarrow> within n mem buf \<Longrightarrow> ok \<Longrightarrow> snd buf' < snd buf"
    for mem buf out ok buf' out' using movesD [OF assms(2), of mem buf out] by simp
  show "moves n (comb_increment_count p)"
  proof (rule movesI)
    fix mem out and buf :: loc_buf assume b: "within n mem buf"
    from soundD [OF assms(1) b, of out] show "moves_result buf (comb_increment_count p mem buf out)"
      by (cases rule: sound_resultE) (use mv [OF _ b] in \<open>simp_all add: comb_increment_count_def\<close>)
  qed
  show "moves n (comb_nested p)"
  proof (rule movesI)
    fix mem out and buf :: loc_buf assume b: "within n mem buf"
    from soundD [OF assms(1) b, of None] show "moves_result buf (comb_nested p mem buf out)"
      by (cases rule: sound_resultE) (use mv [OF _ b] in \<open>simp_all add: comb_nested_def\<close>)
  qed
  show "moves n (comb_result_val t p)"
  proof (rule movesI)
    fix mem out and buf :: loc_buf assume b: "within n mem buf"
    from soundD [OF assms(1) b, of out] show "moves_result buf (comb_result_val t p mem buf out)"
      by (cases rule: sound_resultE) (use mv [OF _ b] in \<open>simp_all add: comb_result_val_def Let_def\<close>)
  qed
qed

lemmas sound_intros = sound_one_of sound_sequence sound_zero_or_more sound_maybe sound_nested sound_result_val
  sound_increment_count sound_chars moves_chars moves_one_of moves_wrap

lemma sound_DIGIT: "sound n PARSER_DIGIT" "moves n PARSER_DIGIT"
  by (simp_all add: PARSER_DIGIT_def sound_chars moves_chars)

lemma sound_HEX_DIGIT: "sound n PARSER_HEX_DIGIT"
  by (auto simp: PARSER_HEX_DIGIT_def sound_DIGIT intro!: sound_intros)

lemma sound_ESCAPE: "sound n PARSER_JSON_STR_ESCAPE" "moves n PARSER_JSON_STR_ESCAPE"
proof -
  have u: "sound n (comb_one_of [parser_char a, parser_char b, parser_char c, parser_char d, parser_char e, parser_char f,
    parser_char g, parser_char h, comb_sequence [parser_char i, PARSER_HEX_DIGIT, PARSER_HEX_DIGIT, PARSER_HEX_DIGIT, PARSER_HEX_DIGIT]])"
    for a b c d e f g h i by (auto intro!: sound_intros sound_HEX_DIGIT)
  show "sound n PARSER_JSON_STR_ESCAPE" unfolding PARSER_JSON_STR_ESCAPE_def
    by (rule sound_sequence) (auto simp del: comb_one_of.simps intro: u sound_chars)
  show "moves n PARSER_JSON_STR_ESCAPE" unfolding PARSER_JSON_STR_ESCAPE_def
    by (rule moves_sequence [where p = "parser_char 0x5C"]) (auto simp del: comb_one_of.simps intro: u sound_chars moves_chars)
qed

lemma sound_WHITESPACE: "sound n PARSER_JSON_WHITESPACE"
  by (auto simp: PARSER_JSON_WHITESPACE_def intro!: sound_intros)

lemma sound_STR: "sound n PARSER_JSON_STR" "moves n PARSER_JSON_STR"
proof -
  have u: "sound n (comb_result_val JSON_TYPE_STR
      (comb_zero_or_more (comb_one_of [parser_json_str_codepoint, PARSER_JSON_STR_ESCAPE])))"
    by (auto intro!: sound_intros sound_ESCAPE)
  show "sound n PARSER_JSON_STR" unfolding PARSER_JSON_STR_def by (rule sound_sequence) (auto intro: u sound_chars)
  show "moves n PARSER_JSON_STR" unfolding PARSER_JSON_STR_def
    by (rule moves_sequence [where p = "parser_char 0x22"]) (auto intro: u sound_chars moves_chars)
qed

lemma sound_INT_PART: "sound n PARSER_INT_PART"
  by (auto simp: PARSER_INT_PART_def intro!: sound_intros sound_DIGIT)

lemma sound_FRAC_PART: "sound n PARSER_FRAC_PART"
  by (auto simp: PARSER_FRAC_PART_def intro!: sound_intros sound_DIGIT)

lemma sound_EXPONENT: "sound n PARSER_EXPONENT"
  by (auto simp: PARSER_EXPONENT_def intro!: sound_intros sound_DIGIT)

lemma sound_NUMBER: "sound n PARSER_JSON_NUMBER"
  by (auto simp: PARSER_JSON_NUMBER_def intro!: sound_intros sound_INT_PART sound_FRAC_PART sound_EXPONENT)

lemma sound_literals: "sound n PARSER_JSON_TRUE" "sound n PARSER_JSON_FALSE" "sound n PARSER_JSON_NULL"
  by (simp_all add: PARSER_JSON_TRUE_def PARSER_JSON_FALSE_def PARSER_JSON_NULL_def sound_result_val sound_chars)

lemma sound_KV: "sound n val \<Longrightarrow> sound n (PARSER_JSON_OBJECT_KV val)"
  by (auto simp: PARSER_JSON_OBJECT_KV_def intro!: sound_intros sound_STR sound_WHITESPACE)

lemma sound_items:
  assumes "sound n p" "\<And>q. q \<in> set qs \<Longrightarrow> sound n q"
  shows "sound n (comb_result_val t (comb_maybe (comb_sequence
    [comb_zero_or_more (comb_increment_count (comb_sequence (p # parser_char c # qs))), comb_increment_count p])))"
proof -
  have "sound n (comb_sequence (p # parser_char c # qs))" "moves n (comb_sequence (p # parser_char c # qs))"
    using assms by (auto intro!: sound_sequence sound_chars moves_sequence [where p = "parser_char c"] moves_chars)
  then show ?thesis using assms(1) by (auto intro!: sound_intros)
qed

lemma sound_OBJECT:
  assumes "\<And>m. m < n \<Longrightarrow> sound m val"
  shows "sound n (PARSER_JSON_OBJECT val)"
  unfolding PARSER_JSON_OBJECT_def
proof (rule sound_sequence_Cons)
  fix q m
  assume "m < n"
  then have "sound m (comb_result_val JSON_TYPE_OBJECT (comb_maybe (comb_sequence
    [comb_zero_or_more (comb_increment_count (comb_sequence
       [PARSER_JSON_OBJECT_KV val, parser_char (ch CHR '',''), PARSER_JSON_WHITESPACE])),
     comb_increment_count (PARSER_JSON_OBJECT_KV val)])))"
    using assms by (intro sound_items sound_KV) (auto intro: sound_WHITESPACE)
  moreover assume "q \<in> set [PARSER_JSON_WHITESPACE, comb_result_val JSON_TYPE_OBJECT (comb_maybe (comb_sequence
    [comb_zero_or_more (comb_increment_count (comb_sequence
       [PARSER_JSON_OBJECT_KV val, parser_char (ch CHR '',''), PARSER_JSON_WHITESPACE])),
     comb_increment_count (PARSER_JSON_OBJECT_KV val)])), parser_char (ch CHR ''}'')]"
  ultimately show "sound m q" by (auto intro: sound_WHITESPACE sound_chars)
qed (rule sound_chars moves_chars)+

lemma sound_ARRAY:
  assumes "\<And>m. m < n \<Longrightarrow> sound m val"
  shows "sound n (PARSER_JSON_ARRAY val)"
  unfolding PARSER_JSON_ARRAY_def
proof (rule sound_sequence_Cons)
  fix q m
  assume "m < n"
  then have "sound m (comb_result_val JSON_TYPE_ARRAY (comb_maybe (comb_sequence
    [comb_zero_or_more (comb_increment_count (comb_sequence [PARSER_JSON_ARRAY_ELEM val, parser_char (ch CHR '','')])),
     comb_increment_count (PARSER_JSON_ARRAY_ELEM val)])))"
    using assms unfolding PARSER_JSON_ARRAY_ELEM_def by (intro sound_items sound_nested) auto
  moreover assume "q \<in> set [PARSER_JSON_WHITESPACE, comb_result_val JSON_TYPE_ARRAY (comb_maybe (comb_sequence
    [comb_zero_or_more (comb_increment_count (comb_sequence [PARSER_JSON_ARRAY_ELEM val, parser_char (ch CHR '','')])),
     comb_increment_count (PARSER_JSON_ARRAY_ELEM val)])), parser_char (ch CHR '']'')]"
  ultimately show "sound m q" by (auto intro: sound_WHITESPACE sound_chars)
qed (rule sound_chars moves_chars)+

lemma sound_VALUE: "n < stack \<Longrightarrow> sound n (PARSER_JSON_VALUE stack)"
proof (induction stack arbitrary: n)
  case (Suc stack)
  then have "sound m (PARSER_JSON_VALUE stack)" if "m < n" for m using that by simp
  then have "sound n (comb_one_of (value_parsers (PARSER_JSON_VALUE stack)))"
    by (auto simp: value_parsers_def
        intro!: sound_one_of sound_STR sound_NUMBER sound_OBJECT sound_ARRAY sound_literals)
  then have "sound n (comb_sequence [PARSER_JSON_WHITESPACE, comb_one_of (value_parsers (PARSER_JSON_VALUE stack)),
      PARSER_JSON_WHITESPACE])"
    by (auto intro!: sound_sequence sound_WHITESPACE)
  then show ?case by (simp add: sound_def)
qed simp

section \<open>What is matched\<close>

text \<open>
  \<open>places k p\<close>: when the parser matches, its output says where in the consumed prefix the content is; the content of
  an array or of an object begins at least \<open>k\<close> bytes behind the start.
\<close>

definition compound :: "JsonType \<Rightarrow> bool" where
  "compound t \<longleftrightarrow> t = JSON_TYPE_OBJECT \<or> t = JSON_TYPE_ARRAY"

fun places_result :: "nat \<Rightarrow> loc_buf \<Rightarrow> parsed \<Rightarrow> bool" where
  "places_result k buf (Some (True, buf', Some r)) \<longleftrightarrow>
     fst buf + (if compound (json_type r) then k else 0) \<le> fst (content r) \<and>
     fst (content r) + snd (content r) \<le> fst buf'"
| "places_result k buf _ \<longleftrightarrow> True"

definition places :: "nat \<Rightarrow> nat \<Rightarrow> Parser \<Rightarrow> bool" where
  "places n k p \<longleftrightarrow> (\<forall>mem buf out. within n mem buf \<longrightarrow> places_result k buf (p mem buf out))"

text \<open>A parser with no output of its own.\<close>

fun silent_result :: "ParseResult option \<Rightarrow> parsed \<Rightarrow> bool" where
  "silent_result out (Some (ok, buf', out')) \<longleftrightarrow> out' = out"
| "silent_result out None \<longleftrightarrow> True"

definition silent :: "nat \<Rightarrow> Parser \<Rightarrow> bool" where
  "silent n p \<longleftrightarrow> (\<forall>mem buf out. within n mem buf \<longrightarrow> silent_result out (p mem buf out))"

lemma placesD: "places n k p \<Longrightarrow> within n mem buf \<Longrightarrow> places_result k buf (p mem buf out)"
  unfolding places_def by blast

lemma placesI: "(\<And>mem buf out. within n mem buf \<Longrightarrow> places_result k buf (p mem buf out)) \<Longrightarrow> places n k p"
  unfolding places_def by blast

lemma silentD: "silent n p \<Longrightarrow> within n mem buf \<Longrightarrow> silent_result out (p mem buf out)"
  unfolding silent_def by blast

lemma silentI: "(\<And>mem buf out. within n mem buf \<Longrightarrow> silent_result out (p mem buf out)) \<Longrightarrow> silent n p"
  unfolding silent_def by blast

lemma places_result_val:
  assumes "sound n p"
  shows "places n 0 (comb_result_val t p)"
proof (rule placesI)
  fix mem out and buf :: loc_buf
  assume b: "within n mem buf"
  from soundD [OF assms b, of out] show "places_result 0 buf (comb_result_val t p mem buf out)"
    by (cases rule: sound_resultE; cases out) (auto simp: comb_result_val_def ahead_def)
qed

lemma places_simple:
  assumes "sound n p" "\<not> compound t"
  shows "places n k (comb_result_val t p)"
proof (rule placesI)
  fix mem out and buf :: loc_buf
  assume b: "within n mem buf"
  from soundD [OF assms(1) b, of out] show "places_result k buf (comb_result_val t p mem buf out)"
    by (cases rule: sound_resultE; cases out) (use assms(2) in \<open>auto simp: comb_result_val_def ahead_def\<close>)
qed

lemma places_one_of:
  assumes "\<And>p. p \<in> set ps \<Longrightarrow> sound n p" "\<And>p. p \<in> set ps \<Longrightarrow> places n k p"
  shows "places n k (comb_one_of ps)"
  using assms
proof (induction ps)
  case (Cons p ps)
  show ?case
  proof (rule placesI)
    fix mem out and buf :: loc_buf
    assume b: "within n mem buf"
    have ps: "places n k (comb_one_of ps)" using Cons by simp
    have pl: "places_result k buf (p mem buf out)" using Cons.prems(2) [of p] b by (simp add: placesD)
    from Cons.prems(1) [of p] b have "sound_result buf out (p mem buf out)" by (intro soundD) auto
    then show "places_result k buf (comb_one_of (p # ps) mem buf out)"
      by (cases rule: sound_resultE) (use pl placesD [OF ps b] in simp_all)
  qed
qed (simp add: places_def)

text \<open>A sequence takes its output from the one parser that has any.\<close>

lemma places_skip:
  assumes "sound n p" "places n k (comb_sequence ps)" "moves n p \<or> j = 0"
    and "\<And>q. q \<in> set ps \<Longrightarrow> sound n q"
  shows "places n (k + min 1 j) (comb_sequence (p # ps))"
proof (rule placesI)
  fix mem out and buf :: loc_buf
  assume b: "within n mem buf"
  from soundD [OF assms(1) b, of out] show "places_result (k + min 1 j) buf (comb_sequence (p # ps) mem buf out)"
  proof (cases rule: sound_resultE)
    case (match buf1 out1)
    then have b1: "within n mem buf1" using b by (auto intro: within_ahead)
    have adv: "fst buf + min 1 j \<le> fst buf1"
      using assms(3) movesD [of n p mem buf out] b match by (auto simp: ahead_def)
    from sound_sequence_loop [where mem = mem and out = out1, OF assms(4) b1]
    obtain ok buf' out' where l: "sequence_loop ps mem buf1 out1 = Some (ok, buf', out')" by blast
    with placesD [OF assms(2) b1, of out1] adv match show ?thesis
      by (cases ok; cases out') (auto simp: comb_sequence_def)
  qed (simp add: comb_sequence_def)
qed

lemma places_then:
  assumes "sound n p" "places n k p" "\<And>q. q \<in> set ps \<Longrightarrow> sound n q" "\<And>q. q \<in> set ps \<Longrightarrow> silent n q"
  shows "places n k (comb_sequence (p # ps))"
proof (rule placesI)
  fix mem out and buf :: loc_buf
  assume b: "within n mem buf"
  have silent: "out'' = out'" if "sequence_loop qs mem buf' out' = Some (ok, buf'', out'')" "set qs \<subseteq> set ps" "within n mem buf'"
    for qs buf' out' ok buf'' out''
    using that
  proof (induction qs arbitrary: buf' out')
    case (Cons q qs)
    then have q: "sound n q" "silent n q" using assms(3,4) by auto
    from soundD [OF q(1) Cons.prems(3), of out'] show ?case
      by (cases rule: sound_resultE)
         (use Cons silentD [OF q(2) Cons.prems(3), of out'] in \<open>auto intro: within_ahead\<close>)
  qed simp
  from soundD [OF assms(1) b, of out] show "places_result k buf (comb_sequence (p # ps) mem buf out)"
  proof (cases rule: sound_resultE)
    case (match buf1 out1)
    then have b1: "within n mem buf1" using b by (auto intro: within_ahead)
    from sound_sequence_loop [where mem = mem and out = out1, OF assms(3) b1]
    obtain ok buf' out' where l: "sequence_loop ps mem buf1 out1 = Some (ok, buf', out')" "ahead buf1 buf'" by blast
    moreover have "out' = out1" using silent [OF l(1) subset_refl b1] .
    ultimately show ?thesis using placesD [OF assms(2) b, of out] match
      by (cases ok; cases out1) (auto simp: comb_sequence_def ahead_def)
  qed (simp add: comb_sequence_def)
qed
lemma silent_char: "silent n (parser_char c)"
  by (rule silentI) (simp add: parser_char_def)

lemma silent_zero_or_more:
  assumes "sound n p" "moves n p" "silent n p"
  shows "silent n (comb_zero_or_more p)"
proof (rule silentI)
  fix mem out and buf :: loc_buf
  assume "within n mem buf"
  then show "silent_result out (comb_zero_or_more p mem buf out)"
  proof (induction "snd buf" arbitrary: buf rule: less_induct)
    case less
    note mv = movesD [OF assms(2) less.prems, of out] and si = silentD [OF assms(3) less.prems, of out]
    from soundD [OF assms(1) less.prems, of out] show ?case
      by (cases rule: sound_resultE; subst comb_zero_or_more.simps) (use mv si less within_ahead in auto)
  qed
qed

lemma silent_one_of:
  assumes "\<And>p. p \<in> set ps \<Longrightarrow> sound n p" "\<And>p. p \<in> set ps \<Longrightarrow> silent n p"
  shows "silent n (comb_one_of ps)"
  using assms
proof (induction ps)
  case (Cons p ps)
  show ?case
  proof (rule silentI)
    fix mem out and buf :: loc_buf
    assume b: "within n mem buf"
    have ps: "silent n (comb_one_of ps)" using Cons by simp
    have si: "silent_result out (p mem buf out)" using Cons.prems(2) [of p] b by (simp add: silentD)
    from Cons.prems(1) [of p] b have "sound_result buf out (p mem buf out)" by (intro soundD) auto
    then show "silent_result out (comb_one_of (p # ps) mem buf out)"
      by (cases rule: sound_resultE) (use si silentD [OF ps b] in auto)
  qed
qed (simp add: silent_def)

lemma silent_WHITESPACE: "silent n PARSER_JSON_WHITESPACE"
  unfolding PARSER_JSON_WHITESPACE_def
  by (auto intro!: silent_zero_or_more silent_one_of silent_char sound_one_of sound_chars moves_one_of moves_chars)

lemma places_weaken: "places n k p \<Longrightarrow> j \<le> k \<Longrightarrow> places n j p"
proof (rule placesI)
  fix mem out and buf :: loc_buf
  assume "places n k p" "j \<le> k" "within n mem buf"
  with placesD [of n k p mem buf out] show "places_result j buf (p mem buf out)"
    by (cases "(k, buf, p mem buf out)" rule: places_result.cases) auto
qed

lemma places_bracketed:
  assumes "sound n p"
  shows "places n 1 (comb_sequence [parser_char a, PARSER_JSON_WHITESPACE, comb_result_val t p, parser_char b])"
proof -
  have rv: "sound n (comb_result_val t p)" by (rule sound_result_val [OF assms])
  have 1: "places n 0 (comb_sequence [comb_result_val t p, parser_char b])"
    by (rule places_then [OF rv places_result_val [OF assms]]) (auto intro: sound_chars silent_char)
  have 2: "places n 0 (comb_sequence [PARSER_JSON_WHITESPACE, comb_result_val t p, parser_char b])"
    using places_skip [where j = 0, OF sound_WHITESPACE 1] rv by (auto intro: sound_chars)
  from places_skip [where j = 1, OF sound_chars(1) [of n a] this] rv show ?thesis
    by (auto intro: sound_chars moves_chars sound_WHITESPACE)
qed

lemma places_STR: "places n 1 PARSER_JSON_STR"
proof -
  let ?p = "comb_zero_or_more (comb_one_of [parser_json_str_codepoint, PARSER_JSON_STR_ESCAPE])"
  have s: "sound n ?p" by (auto intro!: sound_intros sound_ESCAPE)
  have rv: "sound n (comb_result_val JSON_TYPE_STR ?p)" by (rule sound_result_val [OF s])
  have "places n 1 (comb_result_val JSON_TYPE_STR ?p)"
    by (rule places_simple [OF s]) (simp add: compound_def)
  then have "places n 1 (comb_sequence [comb_result_val JSON_TYPE_STR ?p, parser_char 0x22])"
    by (rule places_then [OF rv]) (auto intro: sound_chars silent_char)
  from places_skip [where j = 0, OF sound_chars(1) [of n "0x22"] this] rv show ?thesis
    unfolding PARSER_JSON_STR_def by (auto intro: sound_chars)
qed

lemma places_VALUE:
  assumes "n < stack"
  shows "places n 1 (PARSER_JSON_VALUE (Suc stack))"
proof -
  let ?val = "PARSER_JSON_VALUE stack"
  have val: "sound n ?val" "\<And>m. m < n \<Longrightarrow> sound m ?val"
    using assms sound_VALUE [of n stack] sound_mono [of n ?val] by auto
  have ob: "places n 1 (PARSER_JSON_OBJECT ?val)" unfolding PARSER_JSON_OBJECT_def
    using val by (intro places_bracketed sound_intros) (auto intro!: sound_intros sound_KV sound_WHITESPACE moves_sequence [where p = "parser_char (ch CHR '','')"])
  have ar: "places n 1 (PARSER_JSON_ARRAY ?val)" unfolding PARSER_JSON_ARRAY_def PARSER_JSON_ARRAY_ELEM_def
    using val by (intro places_bracketed sound_intros) (auto intro!: sound_intros moves_sequence [where p = "parser_char (ch CHR '','')"])
  have nu: "places n 1 PARSER_JSON_NUMBER" "places n 1 PARSER_JSON_TRUE" "places n 1 PARSER_JSON_FALSE" "places n 1 PARSER_JSON_NULL"
    unfolding PARSER_JSON_NUMBER_def PARSER_JSON_TRUE_def PARSER_JSON_FALSE_def PARSER_JSON_NULL_def
    by (auto intro!: places_simple sound_intros sound_INT_PART sound_FRAC_PART sound_EXPONENT simp: compound_def)
  have so: "sound n p" "places n 1 p" if "p \<in> set (value_parsers ?val)" for p
    using that ob ar nu val places_STR
    by (auto simp: value_parsers_def intro: sound_STR sound_NUMBER sound_OBJECT sound_ARRAY sound_literals)
  have 1: "sound n (comb_one_of (value_parsers ?val))" "places n 1 (comb_one_of (value_parsers ?val))"
    using so by (auto intro: sound_one_of places_one_of)
  then have "places n 1 (comb_sequence [comb_one_of (value_parsers ?val), PARSER_JSON_WHITESPACE])"
    by (rule places_then) (auto intro: sound_WHITESPACE silent_WHITESPACE)
  from places_skip [where j = 0, OF sound_WHITESPACE this] 1 have
    "places n 1 (comb_sequence [PARSER_JSON_WHITESPACE, comb_one_of (value_parsers ?val), PARSER_JSON_WHITESPACE])"
    by (auto intro: sound_WHITESPACE)
  then show ?thesis by (simp add: places_def)
qed

end
