(* ===== verification/JsonEncode.thy ===== *)
theory JsonEncode
  imports GglObject GglState
begin

text \<open>
  The JSON encoder, \<^verbatim>\<open>ggl-json/src/json_encode.c\<close>: it writes an object into a buffer. Shows that it writes
  the text of the object and when it runs out of space, up to the one length at which it is wrong: a
  number that ends exactly at the end of the buffer loses its last digit to the terminator of \<^verbatim>\<open>snprintf\<close>.
\<close>

section \<open>The text of numbers\<close>

abbreviation QUOTE :: byte where
  "QUOTE \<equiv> 0x22"

abbreviation BACKSLASH :: byte where
  "BACKSLASH \<equiv> 0x5C"

abbreviation MINUS :: byte where
  "MINUS \<equiv> 0x2D"

text \<open>What \<^verbatim>\<open>snprintf\<close> prints for \<^verbatim>\<open>PRId64\<close> and \<^verbatim>\<open>02X\<close>.\<close>

fun nat_text :: "nat \<Rightarrow> buffer" where
  "nat_text n = (if n < 10 then [48 + of_nat n] else nat_text (n div 10) @ [48 + of_nat (n mod 10)])"

declare nat_text.simps [simp del]

definition i64_text :: "int \<Rightarrow> buffer" where
  "i64_text v = (if v < 0 then MINUS # nat_text (nat (- v)) else nat_text (nat v))"

definition hex_digit :: "nat \<Rightarrow> byte" where
  "hex_digit n = (if n < 10 then 48 + of_nat n else 55 + of_nat n)"

definition hex2_text :: "byte \<Rightarrow> buffer" where
  "hex2_text b = [hex_digit (unat b div 16), hex_digit (unat b mod 16)]"

section \<open>Writing\<close>

text \<open>The state is the memory of the buffer and the offset that is written next.\<close>

type_synonym 'a writer = "(buffer \<times> nat, 'a) io"

definition buf_write :: "buffer \<Rightarrow> unit writer" where
  "buf_write str s =
     (case s of (mem, pos) \<Rightarrow>
        if length mem - pos < length str then (Fail GGL_ERR_NOMEM, s)
        else (Ret (), write_at mem pos str, pos + length str))"

text \<open>\<^verbatim>\<open>snprintf\<close> writes as much of the text as fits with a terminator, and returns the length of all of it. It has
  no encoding errors on numbers.\<close>

definition snprintf :: "buffer \<Rightarrow> buffer \<times> nat \<Rightarrow> buffer" where
  "snprintf text s =
     (case s of (mem, pos) \<Rightarrow>
        if length mem - pos = 0 then mem
        else write_at mem pos (take (length mem - pos - 1) text @ [0]))"

definition print_write :: "buffer \<Rightarrow> unit writer" where
  "print_write text s =
     (let mem = snprintf text s in
      if length text > length (fst s) - snd s then (Fail GGL_ERR_NOMEM, mem, snd s)
      else (Ret (), mem, snd s + length text))"

definition json_write_null :: "unit writer" where
  "json_write_null = buf_write (GGL_STR ''null'')"

definition json_write_bool :: "bool \<Rightarrow> unit writer" where
  "json_write_bool b = buf_write (if b then GGL_STR ''true'' else GGL_STR ''false'')"

definition json_write_i64 :: "u64 \<Rightarrow> unit writer" where
  "json_write_i64 i64 = print_write (i64_text (sint i64))"

text \<open>\<open>fmt\<close> is what \<^verbatim>\<open>snprintf\<close> prints of a double for \<^verbatim>\<open>%g\<close>.\<close>

definition json_write_f64 :: "(u64 \<Rightarrow> buffer) \<Rightarrow> u64 \<Rightarrow> unit writer" where
  "json_write_f64 fmt f64 = print_write (fmt f64)"

fun json_write_bytes :: "buffer \<Rightarrow> unit writer" where
  "json_write_bytes [] = io_res (Ret ())"
| "json_write_bytes (b # bs) =
     io_bind
       (if b = QUOTE then buf_write [BACKSLASH, QUOTE]
        else if b = BACKSLASH then buf_write [BACKSLASH, BACKSLASH]
        else if b \<le> 0x1F then print_write (BACKSLASH # GGL_STR ''u00'' @ hex2_text b)
        else buf_write [b]) (\<lambda>_.
     json_write_bytes bs)"

definition json_write_buf :: "buffer \<Rightarrow> unit writer" where
  "json_write_buf str =
     io_bind (buf_write [QUOTE]) (\<lambda>_.
     io_bind (json_write_bytes str) (\<lambda>_.
     buf_write [QUOTE]))"

fun json_write :: "(u64 \<Rightarrow> buffer) \<Rightarrow> GglObject \<Rightarrow> unit writer"
  and json_write_items :: "(u64 \<Rightarrow> buffer) \<Rightarrow> bool \<Rightarrow> GglObject list \<Rightarrow> unit writer"
  and json_write_pairs :: "(u64 \<Rightarrow> buffer) \<Rightarrow> bool \<Rightarrow> (buffer \<times> GglObject) list \<Rightarrow> unit writer" where
  "json_write fmt OBJ_NULL = json_write_null"
| "json_write fmt (OBJ_BOOL b) = json_write_bool b"
| "json_write fmt (OBJ_I64 i) = json_write_i64 i"
| "json_write fmt (OBJ_F64 d) = json_write_f64 fmt d"
| "json_write fmt (OBJ_BUF str) = json_write_buf str"
| "json_write fmt (OBJ_LIST xs) =
     io_bind (buf_write (GGL_STR ''['')) (\<lambda>_.
     io_bind (json_write_items fmt True xs) (\<lambda>_.
     buf_write (GGL_STR '']'')))"
| "json_write fmt (OBJ_MAP kvs) =
     io_bind (buf_write (GGL_STR ''{'')) (\<lambda>_.
     io_bind (json_write_pairs fmt True kvs) (\<lambda>_.
     buf_write (GGL_STR ''}'')))"
| "json_write_items fmt is_first [] = io_res (Ret ())"
| "json_write_items fmt is_first (x # xs) =
     io_bind (if is_first then io_res (Ret ()) else buf_write (GGL_STR '','')) (\<lambda>_.
     io_bind (json_write fmt x) (\<lambda>_.
     json_write_items fmt False xs))"
| "json_write_pairs fmt is_first [] = io_res (Ret ())"
| "json_write_pairs fmt is_first ((k, v) # kvs) =
     io_bind (if is_first then io_res (Ret ()) else buf_write (GGL_STR '','')) (\<lambda>_.
     io_bind (json_write_buf k) (\<lambda>_.
     io_bind (buf_write (GGL_STR '':'')) (\<lambda>_.
     io_bind (json_write fmt v) (\<lambda>_.
     json_write_pairs fmt False kvs))))"

text \<open>The encoder returns the buffer cut to what was written; the memory behind it is changed as well.\<close>

definition ggl_json_encode :: "(u64 \<Rightarrow> buffer) \<Rightarrow> GglObject \<Rightarrow> buffer \<Rightarrow> buffer res" where
  "ggl_json_encode fmt obj buf =
     (case json_write fmt obj (buf, 0) of
        (Ret _, mem, pos) \<Rightarrow> Ret (take pos mem)
      | (Fail e, _) \<Rightarrow> Fail e
      | (Abort, _) \<Rightarrow> Abort)"

text \<open>The reader that the senders of packets are given; a null object is refused.\<close>

definition obj_read :: "(u64 \<Rightarrow> buffer) \<Rightarrow> GglObject option \<Rightarrow> buffer \<Rightarrow> buffer res" where
  "obj_read fmt ctx buf =
     (case ctx of None \<Rightarrow> Fail GGL_ERR_INVALID | Some obj \<Rightarrow> ggl_json_encode fmt obj buf)"

section \<open>The text of an object\<close>

definition byte_text :: "byte \<Rightarrow> buffer" where
  "byte_text b =
     (if b = QUOTE then [BACKSLASH, QUOTE]
      else if b = BACKSLASH then [BACKSLASH, BACKSLASH]
      else if b \<le> 0x1F then BACKSLASH # GGL_STR ''u00'' @ hex2_text b
      else [b])"

definition str_text :: "buffer \<Rightarrow> buffer" where
  "str_text s = QUOTE # concat (map byte_text s) @ [QUOTE]"

text \<open>Texts with commas between them.\<close>

fun commas :: "buffer list \<Rightarrow> buffer" where
  "commas [] = []"
| "commas [x] = x"
| "commas (x # y # xs) = x @ GGL_STR '','' @ commas (y # xs)"

fun json :: "(u64 \<Rightarrow> buffer) \<Rightarrow> GglObject \<Rightarrow> buffer" where
  "json fmt OBJ_NULL = GGL_STR ''null''"
| "json fmt (OBJ_BOOL b) = (if b then GGL_STR ''true'' else GGL_STR ''false'')"
| "json fmt (OBJ_I64 i) = i64_text (sint i)"
| "json fmt (OBJ_F64 d) = fmt d"
| "json fmt (OBJ_BUF s) = str_text s"
| "json fmt (OBJ_LIST xs) = GGL_STR ''['' @ commas (map (json fmt) xs) @ GGL_STR '']''"
| "json fmt (OBJ_MAP kvs) =
     GGL_STR ''{'' @ commas (map (\<lambda>kv. str_text (fst kv) @ GGL_STR '':'' @ json fmt (snd kv)) kvs) @ GGL_STR ''}''"

text \<open>
  \<open>writes m t e\<close>: the routine writes the text \<open>t\<close> if the buffer is longer, \<open>e\<close> if it would end with the buffer,
  and fails if the buffer is shorter. \<open>puts m t\<close> leaves open what it does at the end of the buffer, other than
  that it writes nothing behind it.
\<close>

definition put_at :: "unit writer \<Rightarrow> buffer \<Rightarrow> nat \<Rightarrow> buffer \<Rightarrow> bool" where
  "put_at m mem pos t \<longleftrightarrow>
     (\<exists>mem'. m (mem, pos) = (Ret (), mem', pos + length t) \<and> length mem' = length mem \<and>
        take (pos + length t) mem' = take pos mem @ t)"

definition full_at :: "unit writer \<Rightarrow> buffer \<Rightarrow> nat \<Rightarrow> bool" where
  "full_at m mem pos \<longleftrightarrow> (\<exists>s. m (mem, pos) = (Fail GGL_ERR_NOMEM, s))"

definition writes :: "unit writer \<Rightarrow> buffer \<Rightarrow> buffer \<Rightarrow> bool" where
  "writes m t e \<longleftrightarrow> length e = length t \<and> (\<forall>mem pos. pos \<le> length mem \<longrightarrow>
     (pos + length t < length mem \<longrightarrow> put_at m mem pos t) \<and>
     (pos + length t = length mem \<longrightarrow> put_at m mem pos e) \<and>
     (pos + length t > length mem \<longrightarrow> full_at m mem pos))"

definition puts :: "unit writer \<Rightarrow> buffer \<Rightarrow> bool" where
  "puts m t \<longleftrightarrow> (\<forall>mem pos. pos \<le> length mem \<longrightarrow>
     (\<exists>e. length e = length t \<and> pos + length t \<le> length mem \<and> (pos + length t < length mem \<longrightarrow> e = t) \<and>
        put_at m mem pos e) \<or>
     (length mem \<le> pos + length t \<and> full_at m mem pos))"

lemma puts_cases:
  assumes "puts m t" "pos \<le> length mem"
  obtains (put) e mem' where "length e = length t" "pos + length t \<le> length mem"
      "pos + length t < length mem \<Longrightarrow> e = t" "m (mem, pos) = (Ret (), mem', pos + length t)"
      "length mem' = length mem" "take (pos + length t) mem' = take pos mem @ e"
    | (full) s where "length mem \<le> pos + length t" "m (mem, pos) = (Fail GGL_ERR_NOMEM, s)"
  using assms unfolding puts_def put_at_def full_at_def by metis

lemma writes_puts: "writes m t e \<Longrightarrow> puts m t"
  unfolding writes_def puts_def by (metis le_less_linear less_imp_le nat_less_le)

lemma writes_bind:
  assumes m: "puts m t" and m': "writes m' t' e'" and ne: "t' \<noteq> []"
  shows "writes (io_bind m (\<lambda>_. m')) (t @ t') (t @ e')"
proof -
  have len: "length e' = length t'" and pos: "0 < length t'" using m' ne by (simp_all add: writes_def)
  have "(p + length (t @ t') < length mem \<longrightarrow> put_at (io_bind m (\<lambda>_. m')) mem p (t @ t')) \<and>
     (p + length (t @ t') = length mem \<longrightarrow> put_at (io_bind m (\<lambda>_. m')) mem p (t @ e')) \<and>
     (p + length (t @ t') > length mem \<longrightarrow> full_at (io_bind m (\<lambda>_. m')) mem p)" if p: "p \<le> length mem" for mem p
  using m p
  proof (cases rule: puts_cases)
    case (put e mem1)
    have "put_at m' mem1 (p + length t) u \<Longrightarrow> e = t \<Longrightarrow> put_at (io_bind m (\<lambda>_. m')) mem p (t @ u)" for u
      using put by (auto simp: put_at_def add.assoc)
    moreover have "full_at m' mem1 (p + length t) \<Longrightarrow> full_at (io_bind m (\<lambda>_. m')) mem p"
      using put by (auto simp: full_at_def)
    moreover have "e = t" if "p + length (t @ t') \<le> length mem" 
      using that pos unfolding length_append by (intro put(3)) linarith
    ultimately show ?thesis using m' put(2,5) by (simp add: writes_def add.assoc)
  next
    case (full s)
    moreover have "length mem < p + length (t @ t')" using full(1) pos unfolding length_append by linarith
    ultimately show ?thesis by (simp add: full_at_def)
  qed
  with len show ?thesis by (simp add: writes_def)
qed

lemma puts_bind:
  assumes m: "puts m t" and m': "puts m' t'"
  shows "puts (io_bind m (\<lambda>_. m')) (t @ t')"
  unfolding puts_def
proof (intro allI impI)
  fix mem :: buffer and p
  assume "p \<le> length mem"
  with m show "(\<exists>e. length e = length (t @ t') \<and> p + length (t @ t') \<le> length mem \<and>
      (p + length (t @ t') < length mem \<longrightarrow> e = t @ t') \<and> put_at (io_bind m (\<lambda>_. m')) mem p e) \<or>
    (length mem \<le> p + length (t @ t') \<and> full_at (io_bind m (\<lambda>_. m')) mem p)"
  proof (cases rule: puts_cases)
    case (put e mem1)
    then have p': "p + length t \<le> length mem1" by simp
    from m' p' show ?thesis
    proof (cases rule: puts_cases)
      case (put e' mem2)
      with \<open>m (mem, p) = _\<close> \<open>length e = _\<close> \<open>length mem1 = _\<close> \<open>take _ mem1 = _\<close> \<open>_ \<Longrightarrow> e = t\<close>
      have "put_at (io_bind m (\<lambda>_. m')) mem p (e @ e')" "p + length (t @ t') < length mem \<longrightarrow> e @ e' = t @ t'"
        by (auto simp: put_at_def add.assoc)
      moreover have "length (e @ e') = length (t @ t')" "p + length (t @ t') \<le> length mem"
        using put(1,2) \<open>length e = _\<close> \<open>length mem1 = _\<close> by simp_all
      ultimately show ?thesis by blast
    next
      case (full s)
      with put show ?thesis by (auto simp: full_at_def)
    qed
  next
    case (full s)
    then show ?thesis by (auto simp: full_at_def)
  qed
qed

text \<open>A number that ends with the buffer: the terminator takes the place of its last byte.\<close>

definition cut :: "buffer \<Rightarrow> buffer" where
  "cut t = (if t = [] then [] else butlast t @ [0])"

lemma length_cut [simp]: "length (cut t) = length t"
  by (cases t) (simp_all add: cut_def)

lemma buf_write_writes: "writes (buf_write t) t t"
  by (auto simp: writes_def put_at_def full_at_def buf_write_def write_at_def)

lemmas buf_write_puts = buf_write_writes [THEN writes_puts]

lemma print_write_writes: "writes (print_write t) t (cut t)"
proof -
  have "put_at (print_write t) mem p t" if "p + length t < length mem" for mem p
  proof -
    have "take (p + length t) (write_at mem p (t @ [0])) = take p mem @ t"
      using that by (simp add: write_at_def)
    with that show ?thesis by (auto simp: put_at_def print_write_def snprintf_def Let_def)
  qed
  moreover have "put_at (print_write t) mem p (cut t)" if "p + length t = length mem" for mem p
  proof (cases "t = []")
    case False
    then have "take (length mem - p - 1) t @ [0] = cut t"
      using that by (simp add: cut_def butlast_conv_take [of t] flip: that)
    moreover have "length mem - p \<noteq> 0" using that False by (cases t) auto
    ultimately show ?thesis using that
      by (simp add: put_at_def print_write_def snprintf_def Let_def write_at_def)
  qed (use that in \<open>auto simp: put_at_def print_write_def snprintf_def Let_def cut_def\<close>)
  moreover have "full_at (print_write t) mem p" if "p \<le> length mem" "p + length t > length mem" for mem p
    using that by (simp add: full_at_def print_write_def Let_def less_diff_conv2)
  ultimately show ?thesis by (simp add: writes_def)
qed

lemma done_puts: "puts (io_res (Ret ())) []" "puts (Pair (Ret ())) []"
  by (simp_all add: puts_def put_at_def)

lemma byte_text_ne [simp]: "byte_text b \<noteq> []"
  by (simp add: byte_text_def)

lemma json_write_bytes_puts: "puts (json_write_bytes bs) (concat (map byte_text bs))"
proof (induction bs)
  case (Cons b bs)
  have "puts (if b = QUOTE then buf_write [BACKSLASH, QUOTE]
      else if b = BACKSLASH then buf_write [BACKSLASH, BACKSLASH]
      else if b \<le> 0x1F then print_write (BACKSLASH # GGL_STR ''u00'' @ hex2_text b)
      else buf_write [b]) (byte_text b)"
    by (simp add: byte_text_def buf_write_puts print_write_writes [THEN writes_puts])
  from puts_bind [OF this Cons] show ?case by simp
qed (simp add: done_puts)

lemma json_write_buf_writes: "writes (json_write_buf s) (str_text s) (str_text s)"
proof -
  have "writes (json_write_buf s) ([QUOTE] @ concat (map byte_text s) @ [QUOTE]) ([QUOTE] @ concat (map byte_text s) @ [QUOTE])"
    unfolding json_write_buf_def
    by (intro writes_bind buf_write_puts buf_write_writes json_write_bytes_puts) simp_all
  then show ?thesis by (simp add: str_text_def)
qed

fun is_number :: "GglObject \<Rightarrow> bool" where
  "is_number (OBJ_I64 _) = True"
| "is_number (OBJ_F64 _) = True"
| "is_number _ = False"

text \<open>Items after the first have a comma in front.\<close>

lemma commas_Cons: "commas (x # xs) = x @ concat (map (\<lambda>y. GGL_STR '','' @ y) xs)"
  by (induction xs arbitrary: x) simp_all

definition pair_text :: "(u64 \<Rightarrow> buffer) \<Rightarrow> buffer \<times> GglObject \<Rightarrow> buffer" where
  "pair_text fmt kv = str_text (fst kv) @ GGL_STR '':'' @ json fmt (snd kv)"

definition item_texts :: "bool \<Rightarrow> buffer list \<Rightarrow> buffer" where
  "item_texts is_first ts = (if is_first then commas ts else concat (map (\<lambda>y. GGL_STR '','' @ y) ts))"

lemma item_texts_Nil [simp]: "item_texts f [] = []"
  by (simp add: item_texts_def)

lemma item_texts_Cons:
  "item_texts f (t # ts) = (if f then [] else GGL_STR '','') @ t @ item_texts False ts"
  by (simp add: item_texts_def commas_Cons)

lemma separator_puts: "puts (if f then io_res (Ret ()) else buf_write t) (if f then [] else t)"
  by (cases f) (simp_all only: if_True if_False done_puts buf_write_puts)

lemma json_write_writes:
  "writes (json_write fmt x) (json fmt x) (if is_number x then cut (json fmt x) else json fmt x)"
  "puts (json_write_items fmt f xs) (item_texts f (map (json fmt) xs))"
  "puts (json_write_pairs fmt f kvs) (item_texts f (map (pair_text fmt) kvs))"
proof (induction fmt x and fmt f xs and fmt f kvs rule: json_write_json_write_items_json_write_pairs.induct)
  case (6 fmt xs)
  have "writes (json_write fmt (OBJ_LIST xs)) (GGL_STR ''['' @ item_texts True (map (json fmt) xs) @ GGL_STR '']'')
      (GGL_STR ''['' @ item_texts True (map (json fmt) xs) @ GGL_STR '']'')"
    unfolding json_write.simps by (intro writes_bind 6 buf_write_puts buf_write_writes) (simp_all add: GGL_STR_def)
  then show ?case by (simp add: item_texts_def)
next
  case (7 fmt kvs)
  have "writes (json_write fmt (OBJ_MAP kvs)) (GGL_STR ''{'' @ item_texts True (map (pair_text fmt) kvs) @ GGL_STR ''}'')
      (GGL_STR ''{'' @ item_texts True (map (pair_text fmt) kvs) @ GGL_STR ''}'')"
    unfolding json_write.simps by (intro writes_bind 7 buf_write_puts buf_write_writes) (simp_all add: GGL_STR_def)
  then show ?case by (simp add: item_texts_def pair_text_def [abs_def])
next
  case (9 fmt f x xs)
  show ?case unfolding json_write_items.simps list.map item_texts_Cons
    by (intro puts_bind separator_puts 9(2) 9(1) [THEN writes_puts])
next
  case (11 fmt f k v kvs)
  have "puts (json_write_pairs fmt f ((k, v) # kvs)) ((if f then [] else GGL_STR '','') @ str_text k @
    GGL_STR '':'' @ json fmt v @ item_texts False (map (pair_text fmt) kvs))"
    unfolding json_write_pairs.simps
    by (intro puts_bind separator_puts 11(2) json_write_buf_writes [THEN writes_puts] buf_write_puts
        11(1) [THEN writes_puts])
  moreover have "(if f then [] else GGL_STR '','') @ str_text k @ GGL_STR '':'' @ json fmt v @
      item_texts False (map (pair_text fmt) kvs) = item_texts f (map (pair_text fmt) ((k, v) # kvs))"
    unfolding list.map item_texts_Cons by (simp add: pair_text_def)
  ultimately show ?case by simp
qed (simp_all add: json_write_null_def json_write_bool_def json_write_i64_def json_write_f64_def buf_write_writes
    print_write_writes json_write_buf_writes done_puts)

lemma json_encode_text:
  "ggl_json_encode fmt obj buf =
     (if length (json fmt obj) > length buf then Fail GGL_ERR_NOMEM
      else if length (json fmt obj) = length buf \<and> is_number obj then Ret (cut (json fmt obj))
      else Ret (json fmt obj))"
proof -
  define e where "e = (if is_number obj then cut (json fmt obj) else json fmt obj)"
  have w: "writes (json_write fmt obj) (json fmt obj) e" by (simp add: e_def json_write_writes)
  consider "length (json fmt obj) > length buf" | "length (json fmt obj) = length buf"
    | "length (json fmt obj) < length buf" by linarith
  then show ?thesis
  proof cases
    case 1
    then have "full_at (json_write fmt obj) buf 0" using w by (auto simp: writes_def)
    then obtain s where "json_write fmt obj (buf, 0) = (Fail GGL_ERR_NOMEM, s)" unfolding full_at_def ..
    with 1 show ?thesis by (simp add: ggl_json_encode_def)
  next
    case 2
    then have "put_at (json_write fmt obj) buf 0 e" using w by (auto simp: writes_def)
    then obtain mem where "json_write fmt obj (buf, 0) = (Ret (), mem, length e)" "take (length e) mem = e"
      by (auto simp: put_at_def)
    with 2 show ?thesis by (auto simp: ggl_json_encode_def e_def)
  next
    case 3
    then have "put_at (json_write fmt obj) buf 0 (json fmt obj)" using w by (auto simp: writes_def)
    then obtain mem where "json_write fmt obj (buf, 0) = (Ret (), mem, length (json fmt obj))"
      "take (length (json fmt obj)) mem = json fmt obj"
      by (auto simp: put_at_def)
    with 3 show ?thesis by (auto simp: ggl_json_encode_def)
  qed
qed

text \<open>C24: The encoder, for every object and every buffer: a buffer longer than the text of the object receives the
  text; a shorter one is refused as too small; and a buffer of just the length of the text receives it as well,
  unless the object is a number, whose last digit is replaced by a zero byte.\<close>

theorem ggl_json_encode_text:
  "ggl_json_encode fmt obj buf =
     (if length (json fmt obj) > length buf then Fail GGL_ERR_NOMEM
      else if length (json fmt obj) = length buf \<and> is_number obj then Ret (cut (json fmt obj))
      else Ret (json fmt obj))"
  by (rule json_encode_text)

end
