(* ===== verification/JsonDecode.thy ===== *)
theory JsonDecode
  imports JsonParse JsonEncode
begin

unbundle bit_operations_syntax

text \<open>
  The JSON decoder, the second half of \<^verbatim>\<open>ggl-json/src/json_decode.c\<close>. It decodes in place: strings are unescaped
  in the memory of the text, and the decoded object refers to that memory.
\<close>

section \<open>Strings\<close>

definition hex_char_to_byte :: "byte \<Rightarrow> byte option" where
  "hex_char_to_byte c =
     (if c \<ge> ch CHR ''0'' \<and> c \<le> ch CHR ''9'' then Some (c - ch CHR ''0'')
      else if c \<ge> ch CHR ''A'' \<and> c \<le> ch CHR ''F'' then Some (c - ch CHR ''A'' + 10)
      else if c \<ge> ch CHR ''a'' \<and> c \<le> ch CHR ''f'' then Some (c - ch CHR ''a'' + 10)
      else None)"

text \<open>A byte that is read from the memory; outside of it there is none.\<close>

definition load_byte :: "buffer \<Rightarrow> nat \<Rightarrow> (byte \<Rightarrow> 'a res) \<Rightarrow> 'a res" where
  "load_byte mem p f = (if p < length mem then f (mem ! p) else Abort)"

lemma load_byte_inside [simp]: "p < length mem \<Longrightarrow> load_byte mem p f = f (mem ! p)"
  by (simp add: load_byte_def)

text \<open>The four bytes are at an address; \<open>Abort\<close> if they are not all in the memory.\<close>

definition get_uint16_from_hex4 :: "buffer \<Rightarrow> nat \<Rightarrow> u16 option res" where
  "get_uint16_from_hex4 mem p =
     (if p + 4 > length mem then Abort
      else Ret (case map hex_char_to_byte (take 4 (drop p mem)) of
          [Some b0, Some b1, Some b2, Some b3] \<Rightarrow>
            Some (push_bit 12 (ucast b0) OR push_bit 8 (ucast b1) OR push_bit 4 (ucast b2) OR ucast b3)
        | _ \<Rightarrow> None))"

definition codepoint_utf8 :: "u32 \<Rightarrow> buffer option" where
  "codepoint_utf8 code_point =
     (if code_point \<le> 0x7F then Some [ucast code_point]
      else if code_point \<le> 0x7FF then
        Some [0xC0 + ucast (drop_bit 6 code_point), 0x80 + ucast (code_point AND 0x3F)]
      else if code_point \<le> 0xFFFF then
        Some [0xE0 + ucast (drop_bit 12 code_point), 0x80 + ucast (drop_bit 6 code_point AND 0x3F),
              0x80 + ucast (code_point AND 0x3F)]
      else if code_point \<le> 0x1FFFFF then
        Some [0xF0 + ucast (drop_bit 18 code_point), 0x80 + ucast (drop_bit 12 code_point AND 0x3F),
              0x80 + ucast (drop_bit 6 code_point AND 0x3F), 0x80 + ucast (code_point AND 0x3F)]
      else None)"

text \<open>The result is whether the conversion succeeded, the memory, the rest of the string, and where to write next.
  Writing outside the memory is \<open>Abort\<close>.\<close>

type_synonym conversion = "(bool \<times> buffer \<times> loc_buf \<times> nat) res"

definition write_codepoint_utf8 :: "u32 \<Rightarrow> buffer \<Rightarrow> loc_buf \<Rightarrow> nat \<Rightarrow> conversion" where
  "write_codepoint_utf8 code_point mem buf write_ptr =
     (case codepoint_utf8 code_point of
        None \<Rightarrow> Ret (False, mem, buf, write_ptr)
      | Some bs \<Rightarrow>
          if write_ptr + length bs > length mem then Abort
          else Ret (True, write_at mem write_ptr bs, buf, write_ptr + length bs))"

text \<open>As in the source, the digits are read where the output goes, and the rest of the string stays as it is.\<close>

definition str_conv_handle_utf16_escape :: "buffer \<Rightarrow> loc_buf \<Rightarrow> nat \<Rightarrow> conversion" where
  "str_conv_handle_utf16_escape mem buf write_ptr =
     (if snd buf < 6 then Ret (False, mem, buf, write_ptr)
      else load_byte mem (fst buf) (\<lambda>c0. if c0 \<noteq> 0x5C then Ret (False, mem, buf, write_ptr)
      else load_byte mem (fst buf + 1) (\<lambda>c1. if c1 \<noteq> ch CHR ''u'' then Ret (False, mem, buf, write_ptr)
      else res_bind (get_uint16_from_hex4 mem (write_ptr + 2)) (\<lambda>ret.
        case ret of
          None \<Rightarrow> Ret (False, mem, buf, write_ptr)
        | Some code_value \<Rightarrow>
            if code_value \<ge> 0xD800 \<and> code_value \<le> 0xDBFF then
              (if snd buf < 12 then Ret (False, mem, buf, write_ptr)
               else load_byte mem (fst buf + 6) (\<lambda>c6. if c6 \<noteq> 0x5C then Ret (False, mem, buf, write_ptr)
               else load_byte mem (fst buf + 7) (\<lambda>c7. if c7 \<noteq> ch CHR ''u'' then Ret (False, mem, buf, write_ptr)
               else res_bind (get_uint16_from_hex4 mem (write_ptr + 8)) (\<lambda>ret.
                 case ret of
                   None \<Rightarrow> Ret (False, mem, buf, write_ptr)
                 | Some low_surrogate \<Rightarrow>
                     if low_surrogate < 0xDC00 \<or> low_surrogate > 0xDFFF
                     then Ret (False, mem, buf, write_ptr)
                     else write_codepoint_utf8
                       (push_bit 10 (ucast code_value - 0xD800) + (ucast low_surrogate - 0xDC00) + 0x10000)
                       mem buf write_ptr))))
            else if code_value \<ge> 0xDC00 \<and> code_value \<le> 0xDFFF then Ret (False, mem, buf, write_ptr)
            else write_codepoint_utf8 (ucast code_value) mem buf write_ptr))))"

definition escaped_char :: "byte \<Rightarrow> byte option" where
  "escaped_char c =
     (if c = 0x22 \<or> c = 0x5C \<or> c = ch CHR ''/'' then Some c
      else if c = ch CHR ''b'' then Some 0x08
      else if c = ch CHR ''f'' then Some 0x0C
      else if c = ch CHR ''n'' then Some 0x0A
      else if c = ch CHR ''r'' then Some 0x0D
      else if c = ch CHR ''t'' then Some 0x09
      else None)"

definition put_byte :: "byte \<Rightarrow> buffer \<Rightarrow> loc_buf \<Rightarrow> nat \<Rightarrow> conversion" where
  "put_byte c mem buf write_ptr =
     (if write_ptr \<ge> length mem then Abort
      else Ret (True, mem[write_ptr := c], buf, write_ptr + 1))"

definition str_conv_handle_escape :: "buffer \<Rightarrow> loc_buf \<Rightarrow> nat \<Rightarrow> conversion" where
  "str_conv_handle_escape mem buf write_ptr =
     (if snd buf < 2 then Ret (False, mem, buf, write_ptr)
      else load_byte mem (fst buf) (\<lambda>c0. if c0 \<noteq> 0x5C then Ret (False, mem, buf, write_ptr)
      else load_byte mem (fst buf + 1) (\<lambda>c1.
        if c1 = ch CHR ''u'' then str_conv_handle_utf16_escape mem buf write_ptr
        else case escaped_char c1 of
            None \<Rightarrow> Ret (False, mem, buf, write_ptr)
          | Some c \<Rightarrow> put_byte c mem (advance 2 buf) write_ptr)))"

definition unescape_step :: "buffer \<Rightarrow> loc_buf \<Rightarrow> nat \<Rightarrow> conversion" where
  "unescape_step mem buf write_ptr =
     load_byte mem (fst buf) (\<lambda>c.
       if c = 0x5C then str_conv_handle_escape mem buf write_ptr
       else put_byte c mem (advance 1 buf) write_ptr)"

text \<open>Each pass of the loop writes, so that it ends with the string or leaves the memory.\<close>

definition progress :: "buffer \<Rightarrow> nat \<Rightarrow> conversion \<Rightarrow> bool" where
  "progress mem p r \<longleftrightarrow> (\<forall>mem' buf' p'. r = Ret (True, mem', buf', p') \<longrightarrow>
     length mem' = length mem \<and> p < p' \<and> p' \<le> length mem)"

lemma progress_False [intro]: "progress mem p (Ret (False, r))"
  by (simp add: progress_def)

lemma progress_bind: "(\<And>x. progress mem p (f x)) \<Longrightarrow> progress mem p (res_bind m f)"
  by (cases m) (simp_all add: progress_def)

lemma progress_if: "progress mem p a \<Longrightarrow> progress mem p b \<Longrightarrow> progress mem p (if c then a else b)"
  by simp

lemma progress_option:
  "progress mem p a \<Longrightarrow> (\<And>x. progress mem p (f x)) \<Longrightarrow> progress mem p (case m of None \<Rightarrow> a | Some x \<Rightarrow> f x)"
  by (cases m) simp_all

lemma progress_load: "(\<And>c. progress mem p (f c)) \<Longrightarrow> progress mem p (load_byte mem q f)"
  by (simp add: load_byte_def progress_def)

lemmas progress_intros = progress_bind progress_if progress_option progress_False progress_load

lemma progress_put_byte: "progress mem p (put_byte c mem buf p)"
  by (simp add: progress_def put_byte_def)

lemma codepoint_utf8_ne: "codepoint_utf8 cp = Some bs \<Longrightarrow> bs \<noteq> []"
  by (auto simp: codepoint_utf8_def split: if_splits)

lemma progress_write_codepoint: "progress mem p (write_codepoint_utf8 cp mem buf p)"
  using codepoint_utf8_ne [of cp]
  by (cases "codepoint_utf8 cp") (simp_all add: progress_def write_codepoint_utf8_def)

lemma progress_utf16_escape: "progress mem p (str_conv_handle_utf16_escape mem buf p)"
  unfolding str_conv_handle_utf16_escape_def by (intro progress_intros progress_write_codepoint)

lemma progress_unescape_step: "progress mem p (unescape_step mem buf p)"
  unfolding unescape_step_def str_conv_handle_escape_def
  by (intro progress_intros progress_utf16_escape progress_put_byte)

lemma unescape_step_True:
  "unescape_step mem buf p = Ret (True, mem', buf', p') \<Longrightarrow>
   length mem' = length mem \<and> p < p' \<and> p' \<le> length mem"
  using progress_unescape_step [of mem p buf] by (simp add: progress_def)

function unescape_loop :: "buffer \<Rightarrow> loc_buf \<Rightarrow> nat \<Rightarrow> (bool \<times> buffer \<times> nat) res" where
  "unescape_loop mem buf write_ptr =
     (if snd buf > 0 then
        res_bind (unescape_step mem buf write_ptr) (\<lambda>(ret, mem, buf, write_ptr).
          if \<not> ret then Ret (False, mem, write_ptr)
          else unescape_loop mem buf write_ptr)
      else Ret (True, mem, write_ptr))"
  by pat_completeness auto
termination
  by (relation "measure (\<lambda>(mem, buf, write_ptr). length mem - write_ptr)")
     (auto dest!: unescape_step_True)

declare unescape_loop.simps [simp del]

definition unescape_string :: "buffer \<Rightarrow> loc_buf \<Rightarrow> (buffer \<times> loc_buf option) res" where
  "unescape_string mem str =
     res_bind (unescape_loop mem str (fst str)) (\<lambda>(ret, mem, write_ptr).
       Ret (mem, if ret then Some (fst str, write_ptr - fst str) else None))"

section \<open>Values\<close>

text \<open>
  The state of the decoder is the memory of the text and the allocator, which may be null. In a decoded object the
  buffers are in the memory of the text, and the arrays in that of the allocator.
\<close>

type_synonym 'a decoder = "(buffer \<times> GglBumpAlloc option, 'a) io"

definition decode_json_str :: "loc_buf \<Rightarrow> loc_obj decoder" where
  "decode_json_str cont s =
     (case unescape_string (fst s) cont of
        Ret (mem, Some str) \<Rightarrow> (Ret (LOC_BUF str), mem, snd s)
      | Ret (mem, None) \<Rightarrow> (Fail GGL_ERR_PARSE, mem, snd s)
      | Fail e \<Rightarrow> (Fail e, s)
      | Abort \<Rightarrow> (Abort, s))"

text \<open>\<open>matches\<close> calls a parser without an output.\<close>

definition matches :: "Parser \<Rightarrow> buffer \<Rightarrow> loc_buf \<Rightarrow> (bool \<times> loc_buf) res" where
  "matches p mem buf = (case p mem buf None of None \<Rightarrow> Abort | Some (ok, buf, _) \<Rightarrow> Ret (ok, buf))"

text \<open>\<open>strtod\<close> is given an address only: it reads a sign, digits, a point with digits and an exponent, up to the first
  byte that does not belong to the numeral. \<open>None\<close>: it has come to the end of the memory. (The numeral begins with a
  digit or a minus sign and has a point or an exponent, so that white space, hexadecimal numerals and names do not
  occur.)\<close>

definition sign_scan :: "buffer \<Rightarrow> buffer option" where
  "sign_scan cs =
     (case cs of
        [] \<Rightarrow> None
      | c # rest \<Rightarrow> Some (if c = ch CHR ''+'' \<or> c = ch CHR ''-'' then rest else cs))"

fun digit_scan :: "buffer \<Rightarrow> buffer option" where
  "digit_scan [] = None"
| "digit_scan (c # rest) = (if ch CHR ''0'' \<le> c \<and> c \<le> ch CHR ''9'' then digit_scan rest else Some (c # rest))"

definition point_scan :: "buffer \<Rightarrow> buffer option" where
  "point_scan cs =
     (case cs of [] \<Rightarrow> None | c # rest \<Rightarrow> if c = ch CHR ''.'' then digit_scan rest else Some cs)"

definition exponent_scan :: "buffer \<Rightarrow> buffer option" where
  "exponent_scan cs =
     (case cs of
        [] \<Rightarrow> None
      | c # rest \<Rightarrow>
          if c = ch CHR ''e'' \<or> c = ch CHR ''E'' then Option.bind (sign_scan rest) digit_scan else Some cs)"

definition strtod_scan :: "buffer \<Rightarrow> buffer option" where
  "strtod_scan cs =
     Option.bind (sign_scan cs) (\<lambda>cs. Option.bind (digit_scan cs) (\<lambda>cs.
     Option.bind (point_scan cs) exponent_scan))"

text \<open>What \<open>strtod\<close> makes of the bytes that it has read, a number or that it is out of range, is an argument.\<close>

definition decode_json_number :: "(buffer \<Rightarrow> u64 option) \<Rightarrow> buffer \<Rightarrow> loc_buf \<Rightarrow> loc_obj res" where
  "decode_json_number strtod mem cont =
     res_bind (matches PARSER_INT_PART mem cont) (\<lambda>(result, buf).
     res_bind (res_guard result GGL_ERR_PARSE) (\<lambda>_.
     res_bind (matches PARSER_FRAC_PART mem buf) (\<lambda>(has_frac_part, buf).
     res_bind (matches PARSER_EXPONENT mem buf) (\<lambda>(has_exp_part, buf).
       if \<not> has_frac_part \<and> \<not> has_exp_part then
         res_bind (ggl_str_to_int64 (fetch_buf mem cont)) (\<lambda>val. Ret (LOC_SCALAR (OBJ_I64 (word_of_int val))))
       else case strtod_scan (drop (fst cont) mem) of
           None \<Rightarrow> Abort
         | Some rest \<Rightarrow>
             (case strtod (take (length mem - fst cont - length rest) (drop (fst cont) mem)) of
                None \<Rightarrow> Fail GGL_ERR_RANGE
              | Some val \<Rightarrow> Ret (LOC_SCALAR (OBJ_F64 val)))))))"

definition match_char :: "byte \<Rightarrow> loc_buf \<Rightarrow> loc_buf decoder" where
  "match_char c buf s =
     (res_bind (matches (parser_char c) (fst s) buf) (\<lambda>(ok, buf).
      res_bind (res_guard ok GGL_ERR_PARSE) (\<lambda>_. Ret buf)), s)"

definition decode_alloc :: "nat \<Rightarrow> nat \<Rightarrow> nat decoder" where
  "decode_alloc count sz s =
     (if count > 0 then
        (case with_alloc (alloc_array count sz) (snd s) of (r, a) \<Rightarrow> (r, fst s, a))
      else (Ret 0, s))"

definition json_match :: "nat \<Rightarrow> loc_buf \<Rightarrow> (loc_buf \<times> ParseResult) decoder" where
  "json_match stack buf s =
     (case PARSER_JSON_VALUE stack (fst s) buf
         (Some \<lparr>json_type = JSON_TYPE_STR, content = (0, 0), item_count = 0\<rparr>) of
        Some (True, buf, Some output) \<Rightarrow> (Ret (buf, output), s)
      | Some (False, _, _) \<Rightarrow> (Fail GGL_ERR_PARSE, s)
      | _ \<Rightarrow> (Abort, s))"

definition json_key :: "loc_obj \<Rightarrow> loc_buf res" where
  "json_key key_obj = (case key_obj of LOC_BUF k \<Rightarrow> Ret k | _ \<Rightarrow> Fail GGL_ERR_PARSE)"

text \<open>The decoding of a value of which the kind and the content are known; \<open>array\<close> and \<open>object\<close> decode a number of items.\<close>

definition decode_json_val :: "(buffer \<Rightarrow> u64 option) \<Rightarrow> (nat \<Rightarrow> loc_buf \<Rightarrow> loc_obj list decoder) \<Rightarrow>
    (nat \<Rightarrow> loc_buf \<Rightarrow> (loc_buf \<times> loc_obj) list decoder) \<Rightarrow> ParseResult \<Rightarrow> loc_obj decoder" where
  "decode_json_val strtod array object output =
     (case json_type output of
        JSON_TYPE_STR \<Rightarrow> decode_json_str (content output)
      | JSON_TYPE_NUMBER \<Rightarrow> (\<lambda>s. (decode_json_number strtod (fst s) (content output), s))
      | JSON_TYPE_TRUE \<Rightarrow> io_res (Ret (LOC_SCALAR (OBJ_BOOL True)))
      | JSON_TYPE_FALSE \<Rightarrow> io_res (Ret (LOC_SCALAR (OBJ_BOOL False)))
      | JSON_TYPE_NULL \<Rightarrow> io_res (Ret (LOC_SCALAR OBJ_NULL))
      | JSON_TYPE_ARRAY \<Rightarrow>
          io_bind (decode_alloc (item_count output) 24) (\<lambda>items.
          io_bind (array (item_count output) (content output)) (\<lambda>xs.
          io_res (Ret (LOC_LIST items xs))))
      | JSON_TYPE_OBJECT \<Rightarrow>
          io_bind (decode_alloc (item_count output) 40) (\<lambda>pairs.
          io_bind (object (item_count output) (content output)) (\<lambda>kvs.
          io_res (Ret (LOC_MAP pairs kvs)))))"

text \<open>\<open>stack\<close> is how deep the decoder and its parsers can call themselves; the end of the stack is \<open>Abort\<close>. A value is taken
  from the front of a buffer, so that the result has the rest of it.\<close>

fun take_json_val :: "(buffer \<Rightarrow> u64 option) \<Rightarrow> nat \<Rightarrow> loc_buf \<Rightarrow> (loc_buf \<times> loc_obj) decoder"
  and decode_json_array :: "(buffer \<Rightarrow> u64 option) \<Rightarrow> nat \<Rightarrow> nat \<Rightarrow> loc_buf \<Rightarrow> loc_obj list decoder"
  and decode_json_object :: "(buffer \<Rightarrow> u64 option) \<Rightarrow> nat \<Rightarrow> nat \<Rightarrow> loc_buf \<Rightarrow> (loc_buf \<times> loc_obj) list decoder" where
  "take_json_val strtod 0 buf = io_res Abort"
| "take_json_val strtod (Suc stack) buf =
     io_bind (json_match stack buf) (\<lambda>(buf, output).
     io_bind (decode_json_val strtod (\<lambda>count c. decode_json_array strtod stack count c)
       (\<lambda>count c. decode_json_object strtod stack count c) output) (\<lambda>obj.
     io_res (Ret (buf, obj))))"
| "decode_json_array strtod stack 0 buf = io_res (Ret [])"
| "decode_json_array strtod stack (Suc n) buf =
     io_bind (take_json_val strtod stack buf) (\<lambda>(buf, x).
     io_bind (if n \<noteq> 0 then match_char (ch CHR '','') buf else io_res (Ret buf)) (\<lambda>buf.
     io_bind (decode_json_array strtod stack n buf) (\<lambda>xs.
     io_res (Ret (x # xs)))))"
| "decode_json_object strtod stack 0 buf = io_res (Ret [])"
| "decode_json_object strtod stack (Suc n) buf =
     io_bind (take_json_val strtod stack buf) (\<lambda>(buf, key_obj).
     io_bind (io_res (json_key key_obj)) (\<lambda>key.
     io_bind (match_char (ch CHR '':'') buf) (\<lambda>buf.
     io_bind (take_json_val strtod stack buf) (\<lambda>(buf, val).
     io_bind (if n \<noteq> 0 then match_char (ch CHR '','') buf else io_res (Ret buf)) (\<lambda>buf.
     io_bind (decode_json_object strtod stack n buf) (\<lambda>kvs.
     io_res (Ret ((key, val) # kvs))))))))"

text \<open>The object is read from the memory as the decoder leaves it.\<close>

definition ggl_json_decode_destructive :: "(buffer \<Rightarrow> u64 option) \<Rightarrow> nat \<Rightarrow> loc_buf \<Rightarrow> GglObject decoder" where
  "ggl_json_decode_destructive strtod stack buf =
     io_bind (take_json_val strtod stack buf) (\<lambda>(buf_copy, obj).
     io_bind (io_res (res_guard (\<not> snd buf_copy > 0) GGL_ERR_PARSE)) (\<lambda>_ s.
     (Ret (fetch (fst s) obj), s)))"

section \<open>Safety\<close>

text \<open>No escape of a code unit in a range of the memory.\<close>

definition no_unicode :: "buffer \<Rightarrow> nat \<Rightarrow> nat \<Rightarrow> bool" where
  "no_unicode mem lo hi \<longleftrightarrow> (\<forall>i. lo \<le> i \<longrightarrow> i + 1 < hi \<longrightarrow> \<not> (mem ! i = 0x5C \<and> mem ! (i + 1) = ch CHR ''u''))"

lemma no_unicode_sub: "no_unicode mem lo hi \<Longrightarrow> lo \<le> lo' \<Longrightarrow> hi' \<le> hi \<Longrightarrow> no_unicode mem lo' hi'"
  by (auto simp: no_unicode_def)

text \<open>Memory that is the same outside a range.\<close>

definition same_outside :: "nat \<Rightarrow> nat \<Rightarrow> buffer \<Rightarrow> buffer \<Rightarrow> bool" where
  "same_outside lo hi mem mem' \<longleftrightarrow> length mem' = length mem \<and> (\<forall>i. i < lo \<or> hi \<le> i \<longrightarrow> mem' ! i = mem ! i)"

lemma same_outside_refl [simp]: "same_outside lo hi mem mem"
  by (simp add: same_outside_def)

lemma same_outside_len: "same_outside lo hi mem mem' \<Longrightarrow> length mem' = length mem"
  by (simp add: same_outside_def)

lemma same_outside_trans:
  "same_outside lo hi mem mem' \<Longrightarrow> same_outside lo' hi' mem' mem'' \<Longrightarrow> l \<le> lo \<Longrightarrow> l \<le> lo' \<Longrightarrow> hi \<le> h \<Longrightarrow> hi' \<le> h \<Longrightarrow>
   same_outside l h mem mem''"
  by (simp add: same_outside_def)

lemma same_outside_mono: "same_outside lo hi mem mem' \<Longrightarrow> l \<le> lo \<Longrightarrow> hi \<le> h \<Longrightarrow> same_outside l h mem mem'"
  by (simp add: same_outside_def)

lemma no_unicode_outside:
  "no_unicode mem lo' hi' \<Longrightarrow> same_outside lo hi mem mem' \<Longrightarrow> hi \<le> lo' \<Longrightarrow> no_unicode mem' lo' hi'"
  by (auto simp: no_unicode_def same_outside_def)

text \<open>A pass of the unescaping loop reads at least as much as it writes.\<close>

lemma unescape_step_cases:
  assumes "no_unicode mem (fst buf) (fst buf + snd buf)" "0 < snd buf" "p \<le> fst buf" "fst buf + snd buf \<le> length mem"
  obtains (bad) "unescape_step mem buf p = Ret (False, mem, buf, p)"
    | (good) c k where "unescape_step mem buf p = Ret (True, mem[p := c], advance k buf, p + 1)" "1 \<le> k" "k \<le> snd buf"
proof (cases "mem ! fst buf = 0x5C")
  case False
  with assms good [of "mem ! fst buf" 1] show thesis by (simp add: unescape_step_def put_byte_def)
next
  case True
  show thesis
  proof (cases "snd buf < 2")
    case True
    with \<open>mem ! fst buf = 0x5C\<close> assms(2,4) show thesis
      by (intro bad) (simp add: unescape_step_def str_conv_handle_escape_def)
  next
    case False
    with assms(1) True have u: "mem ! (fst buf + 1) \<noteq> ch CHR ''u''" by (auto simp: no_unicode_def)
    have l: "fst buf < length mem" "Suc (fst buf) < length mem" using False assms(4) by simp_all
    show thesis
    proof (cases "escaped_char (mem ! (fst buf + 1))")
      case None
      with True False u l show thesis by (intro bad) (simp add: unescape_step_def str_conv_handle_escape_def)
    next
      case (Some c)
      with True False u l assms good [of c 2] show thesis
        by (simp add: unescape_step_def str_conv_handle_escape_def put_byte_def)
    qed
  qed
qed

lemma unescape_loop_safe:
  assumes "no_unicode mem (fst buf) (fst buf + snd buf)" "lo \<le> p" "p \<le> fst buf" "fst buf + snd buf = hi" "hi \<le> length mem"
  obtains ret mem' p' where "unescape_loop mem buf p = Ret (ret, mem', p')" "same_outside lo hi mem mem'" "p' \<le> hi" "lo \<le> p'"
proof -
  have "\<exists>r. unescape_loop mem buf p = Ret r \<and> same_outside lo hi mem (fst (snd r)) \<and> snd (snd r) \<le> hi \<and> lo \<le> snd (snd r)"
    using assms
  proof (induction "snd buf" arbitrary: mem buf p rule: less_induct)
    case less
    show ?case
    proof (cases "snd buf = 0")
      case True
      with less.prems show ?thesis by (subst unescape_loop.simps) simp
    next
      case False
      then have ne: "0 < snd buf" and len: "fst buf + snd buf \<le> length mem" using less.prems(4,5) by simp_all
      from less.prems(1) ne less.prems(3) len show ?thesis
      proof (cases rule: unescape_step_cases)
        case bad
        with less.prems False show ?thesis by (subst unescape_loop.simps) simp
      next
        case (good c k)
        let ?mem = "mem[p := c]" and ?buf = "advance k buf"
        have b: "fst ?buf = fst buf + k" "snd ?buf = snd buf - k" using good by (simp_all add: advance_def)
        have so: "same_outside lo hi mem ?mem"
          using less.prems False good by (auto simp: same_outside_def nth_list_update)
        have so1: "same_outside lo (p + 1) mem ?mem"
          using less.prems(2) by (auto simp: same_outside_def nth_list_update)
        have nu: "no_unicode ?mem (fst ?buf) (fst ?buf + snd ?buf)"
          using less.prems(3) good b
          by (intro no_unicode_outside [OF _ so1] no_unicode_sub [OF less.prems(1)]) auto
        have "\<exists>r. unescape_loop ?mem ?buf (p + 1) = Ret r \<and> same_outside lo hi ?mem (fst (snd r)) \<and> snd (snd r) \<le> hi \<and> lo \<le> snd (snd r)"
          using nu b good less.prems False by (intro less.hyps) auto
        with good False so show ?thesis
          by (subst unescape_loop.simps) (auto intro: same_outside_trans)
      qed
    qed
  qed
  with that show thesis by (metis prod.collapse)
qed

lemma decode_json_str_safe:
  assumes "no_unicode (fst s) (fst c) (fst c + snd c)" "fst c + snd c \<le> length (fst s)"
  obtains r mem' where "decode_json_str c s = (r, mem', snd s)" "same_outside (fst c) (fst c + snd c) (fst s) mem'" "r \<noteq> Abort"
proof -
  from unescape_loop_safe [OF assms(1) order_refl order_refl refl assms(2)]
  obtain ret mem' p where r: "unescape_loop (fst s) c (fst c) = Ret (ret, mem', p)"
    and so: "same_outside (fst c) (fst c + snd c) (fst s) mem'" by blast
  from r so that show thesis by (cases ret) (auto simp: decode_json_str_def unescape_string_def)
qed

lemma str_to_int64_not_Abort: "ggl_str_to_int64 s \<noteq> Abort"
proof -
  have "str_to_int64_loop sign ret cs \<noteq> Abort" for sign ret cs
    by (induction cs arbitrary: ret) (simp_all add: Let_def)
  then show ?thesis by (simp add: ggl_str_to_int64_def Let_def)
qed

lemma matches_safe:
  assumes "\<And>n. sound n p" "fst buf + snd buf \<le> length mem"
  obtains ok buf' where "matches p mem buf = Ret (ok, buf')" "ahead buf buf'"
proof -
  have "sound_result buf None (p mem buf None)"
    using assms(2) by (intro soundD [OF assms(1), of "snd buf"]) (simp add: within_def)
  then show thesis using that by (cases rule: sound_resultE) (auto simp: matches_def)
qed

text \<open>The characters of numerals. \<open>strtod\<close> stops at any other.\<close>

definition numeral_char :: "byte \<Rightarrow> bool" where
  "numeral_char c \<longleftrightarrow> ch CHR ''0'' \<le> c \<and> c \<le> ch CHR ''9'' \<or> c = ch CHR ''+'' \<or> c = ch CHR ''-'' \<or> c = ch CHR ''.'' \<or>
     c = ch CHR ''e'' \<or> c = ch CHR ''E''"

definition stopping :: "buffer \<Rightarrow> bool" where
  "stopping cs \<longleftrightarrow> (\<exists>c\<in>set cs. \<not> numeral_char c)"

lemma stopping_Cons: "stopping (c # cs) \<longleftrightarrow> \<not> numeral_char c \<or> stopping cs"
  by (auto simp: stopping_def)

lemma sign_scan_stops: "stopping cs \<Longrightarrow> \<exists>rest. sign_scan cs = Some rest \<and> stopping rest"
  by (cases cs) (auto simp: sign_scan_def stopping_def numeral_char_def)

lemma digit_scan_stops: "stopping cs \<Longrightarrow> \<exists>rest. digit_scan cs = Some rest \<and> stopping rest"
  by (induction cs) (auto simp: stopping_def numeral_char_def)

lemma point_scan_stops: "stopping cs \<Longrightarrow> \<exists>rest. point_scan cs = Some rest \<and> stopping rest"
  using digit_scan_stops [of "tl cs"] by (cases cs) (auto simp: point_scan_def stopping_Cons numeral_char_def)

lemma exponent_scan_stops: "stopping cs \<Longrightarrow> \<exists>rest. exponent_scan cs = Some rest"
proof (cases cs)
  case (Cons c rest)
  assume st: "stopping cs"
  show ?thesis
  proof (cases "c = ch CHR ''e'' \<or> c = ch CHR ''E''")
    case True
    with st Cons have "stopping rest" by (auto simp: stopping_Cons numeral_char_def)
    then obtain r where "sign_scan rest = Some r" "stopping r" using sign_scan_stops by blast
    with digit_scan_stops [of r] True Cons show ?thesis by (auto simp: exponent_scan_def)
  qed (use Cons in \<open>simp add: exponent_scan_def\<close>)
qed (simp add: stopping_def)

lemma strtod_scan_stops: "stopping cs \<Longrightarrow> strtod_scan cs \<noteq> None"
proof -
  assume "stopping cs"
  then obtain a where a: "sign_scan cs = Some a" "stopping a" using sign_scan_stops by blast
  then obtain b where b: "digit_scan a = Some b" "stopping b" using digit_scan_stops by blast
  then obtain c where c: "point_scan b = Some c" "stopping c" using point_scan_stops by blast
  from a b c exponent_scan_stops [OF c(2)] show ?thesis by (auto simp: strtod_scan_def)
qed

text \<open>A buffer that can be decoded without harm: it is inside the memory, has no escape of a code unit, and a byte that
  stops \<open>strtod\<close> is its last one or comes after it.\<close>

definition stopped :: "buffer \<Rightarrow> loc_buf \<Rightarrow> bool" where
  "stopped mem buf \<longleftrightarrow> snd buf = 0 \<or> (\<exists>i. fst buf + snd buf \<le> i + 1 \<and> i < length mem \<and> \<not> numeral_char (mem ! i))"

definition harmless :: "buffer \<Rightarrow> loc_buf \<Rightarrow> bool" where
  "harmless mem buf \<longleftrightarrow> fst buf + snd buf \<le> length mem \<and> no_unicode mem (fst buf) (fst buf + snd buf) \<and> stopped mem buf"

lemma harmless_inside: "harmless mem buf \<Longrightarrow> fst buf + snd buf \<le> length mem"
  by (simp add: harmless_def)

lemma stopped_ahead:
  assumes "stopped mem buf" "ahead buf buf'" "same_outside lo (fst buf') mem mem'"
  shows "stopped mem' buf'"
proof (cases "snd buf' = 0")
  case False
  with assms(1,2) obtain i where i: "fst buf + snd buf \<le> i + 1" "i < length mem" "\<not> numeral_char (mem ! i)"
    by (auto simp: stopped_def ahead_def)
  then have "fst buf' \<le> i" using assms(2) False by (simp add: ahead_def)
  with i assms(2,3) show ?thesis by (auto simp: stopped_def ahead_def same_outside_def)
qed (simp add: stopped_def)

lemma harmless_ahead:
  "harmless mem buf \<Longrightarrow> ahead buf buf' \<Longrightarrow> same_outside lo (fst buf') mem mem' \<Longrightarrow> harmless mem' buf'"
  unfolding harmless_def
  by (intro conjI stopped_ahead [of mem buf buf' lo mem'])
    (auto simp: ahead_def same_outside_len intro: no_unicode_outside [OF no_unicode_sub])

lemma harmless_content:
  "harmless mem buf \<Longrightarrow> fst buf \<le> fst c \<Longrightarrow> fst c + snd c \<le> fst buf + snd buf \<Longrightarrow> harmless mem c"
  by (auto simp: harmless_def stopped_def intro: no_unicode_sub)

lemma moves_INT_PART: "moves n PARSER_INT_PART"
proof -
  let ?p = "comb_one_of [parser_char (ch CHR ''0''),
      comb_sequence [parser_char_range (ch CHR ''1'') (ch CHR ''9''), comb_zero_or_more PARSER_DIGIT]]"
  have s: "sound n (comb_sequence [parser_char_range (ch CHR ''1'') (ch CHR ''9''), comb_zero_or_more PARSER_DIGIT])"
    "moves n (comb_sequence [parser_char_range (ch CHR ''1'') (ch CHR ''9''), comb_zero_or_more PARSER_DIGIT])"
    by (auto intro!: sound_intros sound_DIGIT moves_sequence [where p = "parser_char_range (ch CHR ''1'') (ch CHR ''9'')"])
  then have "sound n ?p" "moves n ?p" by (auto simp del: comb_one_of.simps intro!: sound_one_of moves_one_of sound_chars moves_chars)
  then show ?thesis unfolding PARSER_INT_PART_def
    by (intro moves_sequence [where p = ?p]) (auto simp del: comb_one_of.simps intro!: sound_intros)
qed

lemma decode_json_number_safe:
  assumes "harmless mem c"
  shows "decode_json_number strtod mem c \<noteq> Abort"
proof -
  have c: "fst c + snd c \<le> length mem" using assms by (rule harmless_inside)
  obtain ok1 b1 where 1: "matches PARSER_INT_PART mem c = Ret (ok1, b1)" "ahead c b1" by (rule matches_safe [OF sound_INT_PART c])
  have c1: "fst b1 + snd b1 \<le> length mem" using 1(2) c by (simp add: ahead_def)
  obtain ok2 b2 where 2: "matches PARSER_FRAC_PART mem b1 = Ret (ok2, b2)" "ahead b1 b2" by (rule matches_safe [OF sound_FRAC_PART c1])
  have c2: "fst b2 + snd b2 \<le> length mem" using 2(2) c1 by (simp add: ahead_def)
  obtain ok3 b3 where 3: "matches PARSER_EXPONENT mem b2 = Ret (ok3, b3)" by (rule matches_safe [OF sound_EXPONENT c2])
  have "strtod_scan (drop (fst c) mem) \<noteq> None" if ok1
  proof -
    have "moves_result c (PARSER_INT_PART mem c None)" using c by (intro movesD [OF moves_INT_PART, of "snd c"]) (simp add: within_def)
    with 1(1) that have "snd c \<noteq> 0" by (auto simp: matches_def split: option.splits prod.splits)
    with assms obtain i where i: "fst c + snd c \<le> i + 1" "i < length mem" "\<not> numeral_char (mem ! i)"
      by (auto simp: harmless_def stopped_def)
    then have "drop (fst c) mem ! (i - fst c) = mem ! i" "i - fst c < length (drop (fst c) mem)" using \<open>snd c \<noteq> 0\<close> by simp_all
    with i(3) have "stopping (drop (fst c) mem)" unfolding stopping_def by (metis nth_mem)
    then show ?thesis by (rule strtod_scan_stops)
  qed
  with 1 2 3 str_to_int64_not_Abort show ?thesis
    by (cases ok1) (auto simp: decode_json_number_def res_simps split: option.split)
qed

lemma json_match_safe:
  assumes "snd buf + 2 \<le> stack" "fst buf + snd buf \<le> length (fst s)"
  obtains (ok) buf' out where "json_match stack buf s = (Ret (buf', out), s)" "ahead buf buf'"
      "fst buf \<le> fst (content out)" "fst (content out) + snd (content out) \<le> fst buf'"
      "compound (json_type out) \<Longrightarrow> fst buf < fst (content out)"
    | (bad) "json_match stack buf s = (Fail GGL_ERR_PARSE, s)"
proof -
  from assms obtain n where n: "stack = Suc n" "snd buf < n" by (cases stack) auto
  let ?o = "Some \<lparr>json_type = JSON_TYPE_STR, content = (0, 0), item_count = 0\<rparr>"
  have w: "within (snd buf) (fst s) buf" using assms(2) by (simp add: within_def)
  have pl: "places_result 1 buf (PARSER_JSON_VALUE stack (fst s) buf ?o)"
    unfolding n by (rule placesD [OF places_VALUE [OF n(2)] w])
  have "sound_result buf ?o (PARSER_JSON_VALUE stack (fst s) buf ?o)"
    by (rule soundD [OF sound_VALUE w]) (use assms in simp)
  then show thesis
  proof (cases rule: sound_resultE)
    case (match buf' out')
    then obtain out where "out' = Some out" by auto
    with match pl show thesis by (intro ok [of buf' out]) (auto simp: json_match_def split: if_splits)
  next
    case (miss out')
    then show thesis by (intro bad) (simp add: json_match_def)
  qed
qed

lemma match_char_safe:
  assumes "fst buf + snd buf \<le> length (fst s)"
  obtains (ok) buf' where "match_char c buf s = (Ret buf', s)" "ahead buf buf'"
    | (bad) "match_char c buf s = (Fail GGL_ERR_PARSE, s)"
proof -
  obtain ok buf' where "matches (parser_char c) (fst s) buf = Ret (ok, buf')" "ahead buf buf'"
    by (rule matches_safe [OF sound_chars(1) assms])
  with that show thesis by (cases ok) (auto simp: match_char_def)
qed

lemma decode_alloc_safe:
  obtains (ok) p a where "decode_alloc n sz s = (Ret p, fst s, a)"
    | (bad) a where "decode_alloc n sz s = (Fail GGL_ERR_NOMEM, fst s, a)"
proof (cases "n > 0")
  case True
  show thesis
  proof (cases "snd s")
    case None
    with True that show thesis by (simp add: decode_alloc_def with_alloc_def)
  next
    case (Some a)
    with True that show thesis
      by (cases "bump_alloc_alloc a (n * sz) 8") (auto simp: decode_alloc_def with_alloc_def alloc_array_def)
  qed
qed (use that in \<open>cases s; simp add: decode_alloc_def\<close>)

text \<open>\<open>guarded lo hi m s Q\<close>: the routine does not abort, it writes only to a range of the memory, whether it succeeds or
  not, and if it succeeds \<open>Q\<close> holds of its result and the state it leaves.\<close>

definition guarded :: "nat \<Rightarrow> nat \<Rightarrow> 'a decoder \<Rightarrow> buffer \<times> GglBumpAlloc option \<Rightarrow>
    ('a \<Rightarrow> buffer \<times> GglBumpAlloc option \<Rightarrow> bool) \<Rightarrow> bool" where
  "guarded lo hi m s Q \<longleftrightarrow> safely m s Q \<and> same_outside lo hi (fst s) (fst (snd (m s)))"

lemma guardedI: "m s = (r, s') \<Longrightarrow> r \<noteq> Abort \<Longrightarrow> (\<And>x. r = Ret x \<Longrightarrow> Q x s') \<Longrightarrow> same_outside lo hi (fst s) (fst s') \<Longrightarrow>
    guarded lo hi m s Q"
  by (cases r) (simp_all add: guarded_def safely_def)

lemma guardedE:
  assumes "guarded lo hi m s Q"
  obtains r s' where "m s = (r, s')" "r \<noteq> Abort" "\<And>x. r = Ret x \<Longrightarrow> Q x s'" "same_outside lo hi (fst s) (fst s')"
  using assms by (cases "m s"; cases "fst (m s)") (auto simp: guarded_def safely_def)

lemma guarded_bind:
  assumes "guarded lo hi m s R" "\<And>x s'. R x s' \<Longrightarrow> guarded lo hi (f x) s' Q"
  shows "guarded lo hi (io_bind m f) s Q"
  using assms(1)
proof (rule guardedE)
  fix r s1 assume m: "m s = (r, s1)" "r \<noteq> Abort" "\<And>x. r = Ret x \<Longrightarrow> R x s1" "same_outside lo hi (fst s) (fst s1)"
  show ?thesis
  proof (cases r)
    case (Ret x)
    from assms(2) [OF m(3) [OF Ret]] show ?thesis
    proof (rule guardedE)
      fix r' s2 assume f: "f x s1 = (r', s2)" "r' \<noteq> Abort" "\<And>y. r' = Ret y \<Longrightarrow> Q y s2" "same_outside lo hi (fst s1) (fst s2)"
      show ?thesis
        by (rule guardedI [of _ _ r' s2]) (use m f Ret in \<open>auto simp: io_bind_def intro: same_outside_trans\<close>)
    qed
  next
    case (Fail e)
    with m show ?thesis by (intro guardedI [of _ _ "Fail e" s1]) (auto simp: io_bind_def)
  qed (use m in simp)
qed

lemma guarded_bind_pair:
  "guarded lo hi m s R \<Longrightarrow> (\<And>x y s'. R (x, y) s' \<Longrightarrow> guarded lo hi (f x y) s' Q) \<Longrightarrow> guarded lo hi (io_bind m (\<lambda>(x, y). f x y)) s Q"
  by (erule guarded_bind) auto

lemma guarded_res: "r \<noteq> Abort \<Longrightarrow> (\<And>x. r = Ret x \<Longrightarrow> Q x s) \<Longrightarrow> guarded lo hi (io_res r) s Q"
  by (rule guardedI [of _ _ r s]) (simp_all add: io_res_def)

lemma guarded_mono:
  "guarded lo hi m s Q \<Longrightarrow> l \<le> lo \<Longrightarrow> hi \<le> h \<Longrightarrow> (\<And>x s'. Q x s' \<Longrightarrow> same_outside lo hi (fst s) (fst s') \<Longrightarrow> R x s') \<Longrightarrow>
   guarded l h m s R"
  by (erule guardedE, rule guardedI) (auto intro: same_outside_mono)

text \<open>A value has been taken from the front of the buffer, and memory written only there.\<close>

definition taken :: "loc_buf \<Rightarrow> buffer \<Rightarrow> loc_buf \<Rightarrow> buffer \<times> GglBumpAlloc option \<Rightarrow> bool" where
  "taken buf mem buf' s \<longleftrightarrow> ahead buf buf' \<and> same_outside (fst buf) (fst buf') mem (fst s)"

lemma taken_refl: "taken buf (fst s) buf s"
  by (simp add: taken_def)

lemma taken_trans: "taken a (fst s) b s1 \<Longrightarrow> taken b (fst s1) c s2 \<Longrightarrow> taken a (fst s) c s2"
  by (auto simp: taken_def ahead_def intro: same_outside_trans)

lemma taken_harmless: "taken buf mem buf' s \<Longrightarrow> harmless mem buf \<Longrightarrow> harmless (fst s) buf'"
  by (auto simp: taken_def intro: harmless_ahead)

lemma taken_len: "taken buf mem buf' s \<Longrightarrow> snd buf' \<le> snd buf"
  by (auto simp: taken_def dest: ahead_len)

lemma taken_range: "taken buf mem buf' s \<Longrightarrow> fst buf \<le> fst buf' \<and> fst buf' + snd buf' = fst buf + snd buf"
  by (simp add: taken_def ahead_def)

definition takes_safely :: "(buffer \<Rightarrow> u64 option) \<Rightarrow> nat \<Rightarrow> bool" where
  "takes_safely strtod stack \<longleftrightarrow> (\<forall>buf s. harmless (fst s) buf \<longrightarrow> snd buf + 3 \<le> stack \<longrightarrow>
     guarded (fst buf) (fst buf + snd buf) (take_json_val strtod stack buf) s (\<lambda>r. taken buf (fst s) (fst r)))"

lemma takes_safelyD:
  "takes_safely strtod stack \<Longrightarrow> harmless (fst s) buf \<Longrightarrow> snd buf + 3 \<le> stack \<Longrightarrow> lo \<le> fst buf \<Longrightarrow> fst buf + snd buf \<le> hi \<Longrightarrow>
   guarded lo hi (take_json_val strtod stack buf) s (\<lambda>r. taken buf (fst s) (fst r))"
  unfolding takes_safely_def by (blast intro: guarded_mono)

lemma match_char_safely:
  assumes "harmless (fst s) buf"
  shows "guarded lo hi (match_char c buf) s (\<lambda>buf'. taken buf (fst s) buf')"
  by (rule match_char_safe [OF harmless_inside [OF assms], of c])
    (auto intro!: guardedI [of "match_char c buf" s] simp: taken_def)

lemma separator_safely:
  "harmless (fst s) buf \<Longrightarrow>
   guarded lo hi (if n \<noteq> (0::nat) then match_char c buf else io_res (Ret buf)) s (\<lambda>buf'. taken buf (fst s) buf')"
  using match_char_safely by (auto intro: guarded_res simp: taken_refl)

lemma decode_json_array_safe:
  assumes "takes_safely strtod stack" "harmless (fst s) buf" "snd buf + 3 \<le> stack" "lo \<le> fst buf" "fst buf + snd buf \<le> hi"
  shows "guarded lo hi (decode_json_array strtod stack n buf) s (\<lambda>xs s'. True)"
  using assms(2-)
proof (induction n arbitrary: buf s)
  case (Suc n)
  show ?case unfolding decode_json_array.simps
  proof (rule guarded_bind_pair [OF takes_safelyD [OF assms(1) Suc.prems]])
    fix buf1 s1 and x :: loc_obj
    assume "taken buf (fst s) (fst (buf1, x)) s1"
    then have 1: "taken buf (fst s) buf1 s1" by simp
    show "guarded lo hi (io_bind (if n \<noteq> 0 then match_char (ch CHR '','') buf1 else io_res (Ret buf1)) (\<lambda>buf.
      io_bind (decode_json_array strtod stack n buf) (\<lambda>xs. io_res (Ret (x # xs))))) s1 (\<lambda>xs s'. True)"
    proof (rule guarded_bind [OF separator_safely [OF taken_harmless [OF 1 Suc.prems(1)]]])
      fix buf2 s2
      assume "taken buf1 (fst s1) buf2 s2"
      with 1 have 2: "taken buf (fst s) buf2 s2" by (rule taken_trans)
      have "guarded lo hi (decode_json_array strtod stack n buf2) s2 (\<lambda>xs s'. True)"
        using taken_harmless [OF 2 Suc.prems(1)] taken_len [OF 2] taken_range [OF 2] Suc.prems by (intro Suc.IH) auto
      then show "guarded lo hi (io_bind (decode_json_array strtod stack n buf2) (\<lambda>xs. io_res (Ret (x # xs)))) s2 (\<lambda>xs s'. True)"
        by (rule guarded_bind) (rule guarded_res; simp)
    qed
  qed
qed (simp add: guarded_res)

lemma decode_json_object_safe:
  assumes "takes_safely strtod stack" "harmless (fst s) buf" "snd buf + 3 \<le> stack" "lo \<le> fst buf" "fst buf + snd buf \<le> hi"
  shows "guarded lo hi (decode_json_object strtod stack n buf) s (\<lambda>xs s'. True)"
  using assms(2-)
proof (induction n arbitrary: buf s)
  case (Suc n)
  show ?case unfolding decode_json_object.simps
  proof (rule guarded_bind_pair [OF takes_safelyD [OF assms(1) Suc.prems]])
    fix buf1 s1 and key :: loc_obj
    assume "taken buf (fst s) (fst (buf1, key)) s1"
    then have 1: "taken buf (fst s) buf1 s1" by simp
    have key: "guarded lo hi (io_res (json_key key)) s1 (\<lambda>k s'. s' = s1)"
      by (cases key) (simp_all add: json_key_def guarded_res)
    show "guarded lo hi (io_bind (io_res (json_key key)) (\<lambda>key.
      io_bind (match_char (ch CHR '':'') buf1) (\<lambda>buf.
      io_bind (take_json_val strtod stack buf) (\<lambda>(buf, val).
      io_bind (if n \<noteq> 0 then match_char (ch CHR '','') buf else io_res (Ret buf)) (\<lambda>buf.
      io_bind (decode_json_object strtod stack n buf) (\<lambda>kvs. io_res (Ret ((key, val) # kvs)))))))) s1 (\<lambda>xs s'. True)"
    proof (rule guarded_bind [OF key], hypsubst, rule guarded_bind [OF match_char_safely [OF taken_harmless [OF 1 Suc.prems(1)]]])
      fix k buf2 s2
      assume "taken buf1 (fst s1) buf2 s2"
      with 1 have 2: "taken buf (fst s) buf2 s2" by (rule taken_trans)
      have tk: "guarded lo hi (take_json_val strtod stack buf2) s2 (\<lambda>r. taken buf2 (fst s2) (fst r))"
        using taken_harmless [OF 2 Suc.prems(1)] taken_len [OF 2] taken_range [OF 2] Suc.prems by (intro takes_safelyD [OF assms(1)]) auto
      show "guarded lo hi (io_bind (take_json_val strtod stack buf2) (\<lambda>(buf, val).
        io_bind (if n \<noteq> 0 then match_char (ch CHR '','') buf else io_res (Ret buf)) (\<lambda>buf.
        io_bind (decode_json_object strtod stack n buf) (\<lambda>kvs. io_res (Ret ((k, val) # kvs)))))) s2 (\<lambda>xs s'. True)"
      proof (rule guarded_bind_pair [OF tk])
        fix buf3 s3 and val :: loc_obj
        assume "taken buf2 (fst s2) (fst (buf3, val)) s3"
        with 2 have 3: "taken buf (fst s) buf3 s3" by (auto intro: taken_trans)
        show "guarded lo hi (io_bind (if n \<noteq> 0 then match_char (ch CHR '','') buf3 else io_res (Ret buf3)) (\<lambda>buf.
          io_bind (decode_json_object strtod stack n buf) (\<lambda>kvs. io_res (Ret ((k, val) # kvs))))) s3 (\<lambda>xs s'. True)"
        proof (rule guarded_bind [OF separator_safely [OF taken_harmless [OF 3 Suc.prems(1)]]])
          fix buf4 s4
          assume "taken buf3 (fst s3) buf4 s4"
          with 3 have 4: "taken buf (fst s) buf4 s4" by (rule taken_trans)
          have "guarded lo hi (decode_json_object strtod stack n buf4) s4 (\<lambda>xs s'. True)"
            using taken_harmless [OF 4 Suc.prems(1)] taken_len [OF 4] taken_range [OF 4] Suc.prems by (intro Suc.IH) auto
          then show "guarded lo hi (io_bind (decode_json_object strtod stack n buf4) (\<lambda>kvs. io_res (Ret ((k, val) # kvs)))) s4 (\<lambda>xs s'. True)"
            by (rule guarded_bind) (rule guarded_res; simp)
        qed
      qed
    qed
  qed
qed (simp add: guarded_res)

lemma decode_alloc_safely: "guarded lo hi (decode_alloc n sz) s (\<lambda>p s'. fst s' = fst s)"
  by (rule decode_alloc_safe [of n sz s]) (auto intro!: guardedI [of "decode_alloc n sz" s])

lemma json_match_safely:
  assumes "snd buf + 2 \<le> stack" "harmless (fst s) buf"
  shows "guarded lo hi (json_match stack buf) s (\<lambda>r s'. s' = s \<and> ahead buf (fst r) \<and>
    fst buf + (if compound (json_type (snd r)) then 1 else 0) \<le> fst (content (snd r)) \<and>
    fst (content (snd r)) + snd (content (snd r)) \<le> fst (fst r))"
  by (rule json_match_safe [OF assms(1) harmless_inside [OF assms(2)]])
    (auto intro!: guardedI [of "json_match stack buf" s])

lemma decode_json_str_safely:
  assumes "harmless (fst s) c"
  shows "guarded (fst c) (fst c + snd c) (decode_json_str c) s (\<lambda>x s'. True)"
  by (rule decode_json_str_safe [of s c]) (use assms in \<open>auto intro!: guardedI [of "decode_json_str c" s] simp: harmless_def\<close>)

lemma decode_json_val_safe:
  assumes "harmless (fst s) (content out)"
    and "compound (json_type out) \<Longrightarrow> takes_safely strtod stack \<and> snd (content out) + 3 \<le> stack"
  shows "guarded (fst (content out)) (fst (content out) + snd (content out))
    (decode_json_val strtod (\<lambda>count c. decode_json_array strtod stack count c)
      (\<lambda>count c. decode_json_object strtod stack count c) out) s (\<lambda>x s'. True)"
proof (cases "json_type out")
  case JSON_TYPE_STR
  then show ?thesis using decode_json_str_safely [OF assms(1)] by (simp add: decode_json_val_def)
next
  case JSON_TYPE_NUMBER
  then show ?thesis using decode_json_number_safe [OF assms(1), of strtod]
    by (intro guardedI [of _ _ "decode_json_number strtod (fst s) (content out)" s]) (simp_all add: decode_json_val_def)
next
  case JSON_TYPE_OBJECT
  then have c: "takes_safely strtod stack" "snd (content out) + 3 \<le> stack" using assms(2) by (simp_all add: compound_def)
  have "guarded (fst (content out)) (fst (content out) + snd (content out))
      (decode_json_object strtod stack (item_count out) (content out)) s1 (\<lambda>xs s'. True)"
    if "fst s1 = fst s" for s1
    using decode_json_object_safe [OF c(1) _ c(2), of s1 _ _ "item_count out"] that assms(1) by simp
  then show ?thesis unfolding decode_json_val_def using JSON_TYPE_OBJECT
    by (simp, intro guarded_bind [OF decode_alloc_safely] guarded_bind [where R = "\<lambda>x s'. True"]) (auto intro: guarded_res)
next
  case JSON_TYPE_ARRAY
  then have c: "takes_safely strtod stack" "snd (content out) + 3 \<le> stack" using assms(2) by (simp_all add: compound_def)
  have "guarded (fst (content out)) (fst (content out) + snd (content out))
      (decode_json_array strtod stack (item_count out) (content out)) s1 (\<lambda>xs s'. True)"
    if "fst s1 = fst s" for s1
    using decode_json_array_safe [OF c(1) _ c(2), of s1 _ _ "item_count out"] that assms(1) by simp
  then show ?thesis unfolding decode_json_val_def using JSON_TYPE_ARRAY
    by (simp, intro guarded_bind [OF decode_alloc_safely] guarded_bind [where R = "\<lambda>x s'. True"]) (auto intro: guarded_res)
qed (simp_all add: decode_json_val_def guarded_res)

lemma take_json_val_safe: "takes_safely strtod stack"
proof (induction stack)
  case (Suc stack)
  have "guarded (fst buf) (fst buf + snd buf) (take_json_val strtod (Suc stack) buf) s (\<lambda>r. taken buf (fst s) (fst r))"
    if h: "harmless (fst s) buf" and len: "snd buf + 3 \<le> Suc stack" for buf s
    unfolding take_json_val.simps
  proof (rule guarded_bind_pair [OF json_match_safely [OF _ h]])
    fix buf1 s1 and out :: ParseResult
    assume "s1 = s \<and> ahead buf (fst (buf1, out)) \<and>
      fst buf + (if compound (json_type (snd (buf1, out))) then 1 else 0) \<le> fst (content (snd (buf1, out))) \<and>
      fst (content (snd (buf1, out))) + snd (content (snd (buf1, out))) \<le> fst (fst (buf1, out))"
    then have m: "s1 = s" "ahead buf buf1" "fst buf + (if compound (json_type out) then 1 else 0) \<le> fst (content out)"
      "fst (content out) + snd (content out) \<le> fst buf1" by simp_all
    have m3: "fst buf \<le> fst (content out)" "fst buf1 \<le> fst buf + snd buf" using m(2,3) by (auto simp: ahead_def split: if_splits)
    have hc: "harmless (fst s) (content out)" using m m3 by (intro harmless_content [OF h]) auto
    have cc: "takes_safely strtod stack \<and> snd (content out) + 3 \<le> stack" if "compound (json_type out)"
      using Suc.IH m len that by (auto simp: ahead_def)
    let ?val = "decode_json_val strtod (\<lambda>count c. decode_json_array strtod stack count c)
        (\<lambda>count c. decode_json_object strtod stack count c) out"
    have "guarded (fst buf) (fst buf + snd buf) ?val s (\<lambda>x s'. same_outside (fst buf) (fst buf1) (fst s) (fst s'))"
      by (rule guarded_mono [OF decode_json_val_safe [OF hc cc]]) (use m m3 in \<open>auto intro: same_outside_mono\<close>)
    then show "guarded (fst buf) (fst buf + snd buf) (io_bind ?val (\<lambda>obj. io_res (Ret (buf1, obj)))) s1 (\<lambda>r. taken buf (fst s) (fst r))"
      unfolding m(1) by (rule guarded_bind) (use m(2) in \<open>auto intro: guarded_res simp: taken_def\<close>)
  qed (use len in simp)
  then show ?case by (simp add: takes_safely_def)
qed (simp add: takes_safely_def)

text \<open>C26: The decoder is safe on every input inside the memory that has no escape of the form backslash u and that ends
  with, or is followed by, a byte that cannot belong to a numeral: whatever the bytes are, it ends with an object or an
  error without reading or writing outside the memory it was given, if the stack is deep enough for the length of the
  text. It writes only to the text, also if it returns an error.\<close>

theorem ggl_json_decode_safe:
  assumes "fst buf + snd buf \<le> length mem" "no_unicode mem (fst buf) (fst buf + snd buf)" "stopped mem buf" "snd buf + 3 \<le> stack"
  shows "\<exists>r mem' alloc'. ggl_json_decode_destructive strtod stack buf (mem, alloc) = (r, mem', alloc') \<and> r \<noteq> Abort \<and>
    same_outside (fst buf) (fst buf + snd buf) mem mem'"
proof -
  have "guarded (fst buf) (fst buf + snd buf) (take_json_val strtod stack buf) (mem, alloc) (\<lambda>r. taken buf mem (fst r))"
    using takes_safelyD [OF take_json_val_safe, of "(mem, alloc)" buf stack] assms by (simp add: harmless_def)
  then have "guarded (fst buf) (fst buf + snd buf) (ggl_json_decode_destructive strtod stack buf) (mem, alloc) (\<lambda>obj s'. True)"
    unfolding ggl_json_decode_destructive_def
  proof (rule guarded_bind_pair)
    fix buf_copy s' and obj :: loc_obj
    show "guarded (fst buf) (fst buf + snd buf) (io_bind (io_res (res_guard (\<not> snd buf_copy > 0) GGL_ERR_PARSE)) (\<lambda>_ s.
        (Ret (fetch (fst s) obj), s))) s' (\<lambda>obj s'. True)"
      by (rule guardedI [of _ _ "if snd buf_copy > 0 then Fail GGL_ERR_PARSE else Ret (fetch (fst s') obj)" s'])
        (simp_all add: res_guard_def)
  qed
  then show ?thesis by (rule guardedE) (auto intro: prod.exhaust)
qed

text \<open>The condition on the end is needed: a numeral with a point or an exponent at the end of the memory is read beyond it.\<close>

theorem double_at_end_read_beyond:
  "fst (ggl_json_decode_destructive strtod 6 (0, 3) (GGL_STR ''1.5'', None)) = Abort"
  by code_simp

section \<open>Characters beyond ASCII\<close>

text \<open>What a parser consumes is ASCII.\<close>

fun ascii_result :: "buffer \<Rightarrow> loc_buf \<Rightarrow> parsed \<Rightarrow> bool" where
  "ascii_result mem buf (Some (True, buf', out')) \<longleftrightarrow> (\<forall>i. fst buf \<le> i \<longrightarrow> i < fst buf' \<longrightarrow> mem ! i < 0x80)"
| "ascii_result mem buf _ \<longleftrightarrow> True"

definition ascii :: "nat \<Rightarrow> Parser \<Rightarrow> bool" where
  "ascii n p \<longleftrightarrow> (\<forall>mem buf out. within n mem buf \<longrightarrow> ascii_result mem buf (p mem buf out))"

lemma asciiD: "ascii n p \<Longrightarrow> within n mem buf \<Longrightarrow> ascii_result mem buf (p mem buf out)"
  unfolding ascii_def by blast

lemma asciiI: "(\<And>mem buf out. within n mem buf \<Longrightarrow> ascii_result mem buf (p mem buf out)) \<Longrightarrow> ascii n p"
  unfolding ascii_def by blast

definition good :: "nat \<Rightarrow> Parser \<Rightarrow> bool" where
  "good n p \<longleftrightarrow> sound n p \<and> ascii n p"

lemma goodI: "sound n p \<Longrightarrow> ascii n p \<Longrightarrow> good n p"
  by (simp add: good_def)

lemma good_sound: "good n p \<Longrightarrow> sound n p"
  by (simp add: good_def)

lemma good_one_of:
  assumes "\<And>p. p \<in> set ps \<Longrightarrow> good n p"
  shows "good n (comb_one_of ps)"
proof (rule goodI)
  show "ascii n (comb_one_of ps)"
    using assms
  proof (induction ps)
    case (Cons p ps)
    show ?case
    proof (rule asciiI)
      fix mem out and buf :: loc_buf
      assume b: "within n mem buf"
      have ps: "ascii n (comb_one_of ps)" using Cons by simp
      have p: "sound n p" "ascii n p" using Cons.prems [of p] by (simp_all add: good_def)
      from soundD [OF p(1) b, of out] show "ascii_result mem buf (comb_one_of (p # ps) mem buf out)"
        by (cases rule: sound_resultE) (use asciiD [OF p(2) b, of out] asciiD [OF ps b] in auto)
    qed
  qed (simp add: ascii_def)
qed (use assms in \<open>auto intro: sound_one_of simp: good_def\<close>)

lemma ascii_loop:
  assumes "\<And>p. p \<in> set ps \<Longrightarrow> good n p" "within n mem buf" "sequence_loop ps mem buf out = Some (True, buf', out')"
    "fst buf \<le> i" "i < fst buf'"
  shows "mem ! i < 0x80"
  using assms
proof (induction ps arbitrary: buf out)
  case (Cons p ps)
  have p: "sound n p" "ascii n p" using Cons.prems(1) [of p] by (simp_all add: good_def)
  from soundD [OF p(1) Cons.prems(2), of out] show ?case
  proof (cases rule: sound_resultE)
    case (match buf1 out1)
    show ?thesis
    proof (cases "i < fst buf1")
      case True
      then show ?thesis using asciiD [OF p(2) Cons.prems(2), of out] match Cons.prems(4) by simp
    next
      case False
      then show ?thesis using Cons.IH [of buf1 out1] Cons.prems match within_ahead [of n mem buf buf1] by auto
    qed
  qed (use Cons.prems in simp)
qed simp

lemma good_sequence:
  assumes "\<And>p. p \<in> set ps \<Longrightarrow> good n p"
  shows "good n (comb_sequence ps)"
proof (rule goodI)
  show "ascii n (comb_sequence ps)"
  proof (rule asciiI)
    fix mem out and buf :: loc_buf
    assume b: "within n mem buf"
    have "\<And>p. p \<in> set ps \<Longrightarrow> sound n p" using assms by (simp add: good_def)
    from sound_sequence_loop [where mem = mem and out = out, OF this b]
    obtain ok buf' out' where l: "sequence_loop ps mem buf out = Some (ok, buf', out')" by blast
    with ascii_loop [where mem = mem and out = out and buf' = buf' and out' = out', OF assms b] show "ascii_result mem buf (comb_sequence ps mem buf out)"
      by (cases ok) (auto simp: comb_sequence_def)
  qed
qed (use assms in \<open>auto intro: sound_sequence simp: good_def\<close>)

lemma good_zero_or_more:
  assumes "good n p" "moves n p"
  shows "good n (comb_zero_or_more p)"
proof (rule goodI)
  have p: "sound n p" "ascii n p" using assms(1) by (simp_all add: good_def)
  show "sound n (comb_zero_or_more p)" using p(1) assms(2) by (rule sound_zero_or_more)
  show "ascii n (comb_zero_or_more p)"
  proof (rule asciiI)
    fix mem out and buf :: loc_buf
    assume "within n mem buf"
    then show "ascii_result mem buf (comb_zero_or_more p mem buf out)"
    proof (induction "snd buf" arbitrary: buf out rule: less_induct)
      case less
      note mv = movesD [OF assms(2) less.prems, of out] and as = asciiD [OF p(2) less.prems, of out]
      from soundD [OF p(1) less.prems, of out] show ?case
      proof (cases rule: sound_resultE)
        case (match buf1 out1)
        with mv less.hyps [of buf1 out1] within_ahead [OF less.prems] have "ascii_result mem buf1 (comb_zero_or_more p mem buf1 out1)" by simp
        moreover obtain r where "comb_zero_or_more p mem buf1 out1 = Some (True, r)"
          using zero_or_more_sound [OF p(1) assms(2) within_ahead [OF less.prems match(2)]] by blast
        ultimately have "\<forall>i. fst buf1 \<le> i \<longrightarrow> i < fst (fst r) \<longrightarrow> mem ! i < 0x80" by (cases r) auto
        moreover have "\<forall>i. fst buf \<le> i \<longrightarrow> i < fst buf1 \<longrightarrow> mem ! i < 0x80" using as match(1) by simp
        ultimately have "\<forall>i. fst buf \<le> i \<longrightarrow> i < fst (fst r) \<longrightarrow> mem ! i < 0x80" using not_le by blast
        with match(1) \<open>comb_zero_or_more p mem buf1 out1 = _\<close> show ?thesis
          by (subst comb_zero_or_more.simps, cases r) simp
      next
        case (miss out')
        then show ?thesis by (subst comb_zero_or_more.simps) simp
      qed
    qed
  qed
qed

lemma good_maybe: "good n p \<Longrightarrow> good n (comb_maybe p)"
proof (rule goodI)
  assume "good n p"
  then have p: "sound n p" "ascii n p" by (simp_all add: good_def)
  show "sound n (comb_maybe p)" using p(1) by (rule sound_maybe)
  show "ascii n (comb_maybe p)"
  proof (rule asciiI)
    fix mem out and buf :: loc_buf
    assume b: "within n mem buf"
    from soundD [OF p(1) b, of out] show "ascii_result mem buf (comb_maybe p mem buf out)"
      by (cases rule: sound_resultE) (use asciiD [OF p(2) b, of out] in \<open>simp_all add: comb_maybe_def\<close>)
  qed
qed

lemma good_wrap:
  assumes "good n p"
  shows "good n (comb_nested p)" "good n (comb_result_val t p)" "good n (comb_increment_count p)"
proof -
  have p: "sound n p" "ascii n p" using assms by (simp_all add: good_def)
  have 1: "ascii_result mem buf (comb_nested p mem buf out)" if b: "within n mem buf" for mem buf out
    using soundD [OF p(1) b, of None]
    by (cases rule: sound_resultE) (use asciiD [OF p(2) b, of None] in \<open>simp_all add: comb_nested_def\<close>)
  have 2: "ascii_result mem buf (comb_result_val t p mem buf out)" "ascii_result mem buf (comb_increment_count p mem buf out)"
    if b: "within n mem buf" for mem buf out
    using soundD [OF p(1) b, of out]
    by (cases rule: sound_resultE; use asciiD [OF p(2) b, of out] in \<open>simp add: comb_result_val_def comb_increment_count_def\<close>)+
  from 1 2 p(1) show "good n (comb_nested p)" "good n (comb_result_val t p)" "good n (comb_increment_count p)"
    by (auto intro!: goodI asciiI sound_nested sound_result_val sound_increment_count)
qed

lemma good_char: "c < 0x80 \<Longrightarrow> good n (parser_char c)"
  by (auto intro!: goodI asciiI sound_chars simp: parser_char_def advance_def less_Suc_eq)

lemma good_char_range: "b < 0x80 \<Longrightarrow> good n (parser_char_range a b)"
  by (auto intro!: goodI asciiI sound_chars simp: parser_char_range_def advance_def less_Suc_eq Let_def)

lemma good_str:
  assumes "list_all (\<lambda>c. c < 0x80) s"
  shows "good n (parser_str s)"
proof (intro goodI asciiI sound_chars)
  fix mem out and buf :: loc_buf
  have "mem ! i < 0x80" if "take (length s) (drop (fst buf) mem) = s" "fst buf \<le> i" "i < fst buf + length s" for i
  proof -
    have "min (length s) (length mem - fst buf) = length s" using arg_cong [OF that(1), of length] by simp
    then have "take (length s) (drop (fst buf) mem) ! (i - fst buf) = mem ! i" using that(2,3) by (simp add: nth_drop)
    moreover have "i - fst buf < length s" using that by linarith
    ultimately show ?thesis using assms that(1) by (auto simp: list_all_length)
  qed
  then show "ascii_result mem buf (parser_str s mem buf out)"
    by (auto simp: parser_str_def advance_def)
qed

lemma and_0x80_less:
  assumes "(b :: byte) AND 0x80 = 0"
  shows "b < 0x80"
proof -
  have "\<not> bit b 7"
  proof
    assume "bit b 7"
    then have "bit (b AND 0x80) 7" by (simp add: bit_and_iff)
    with assms show False by simp
  qed
  then have "take_bit 7 b = b"
    by (intro bit_word_eqI) (auto simp: bit_take_bit_iff less_Suc_eq numeral_eq_Suc)
  then have "take_bit 7 (unat b) = unat b" by (metis unsigned_take_bit_eq)
  then have "unat b < 2 ^ 7" by (metis take_bit_nat_less_exp)
  then show ?thesis by (simp add: word_less_nat_alt)
qed

lemma good_codepoint: "good n parser_json_str_codepoint"
proof (intro goodI asciiI sound_chars)
  fix mem :: buffer and out and buf :: loc_buf
  let ?b = "mem ! fst buf"
  have "utf8_len ?b = Some k \<Longrightarrow> k = 1 \<and> ?b < 0x80 \<or> 1 < k" for k
    by (auto simp: utf8_len_def and_0x80_less split: if_splits)
  then show "ascii_result mem buf (parser_json_str_codepoint mem buf out)"
    by (auto simp: parser_json_str_codepoint_def Let_def advance_def list_all_iff less_Suc_eq split: option.split)
qed

lemmas good_intros = good_one_of good_sequence good_zero_or_more good_maybe good_wrap good_char good_char_range
  good_codepoint

lemma good_DIGIT: "good n PARSER_DIGIT"
  unfolding PARSER_DIGIT_def by (rule good_char_range) simp

lemma good_HEX_DIGIT: "good n PARSER_HEX_DIGIT"
  unfolding PARSER_HEX_DIGIT_def by (rule good_one_of) (auto intro!: good_char_range good_DIGIT)

lemma good_ESCAPE: "good n PARSER_JSON_STR_ESCAPE"
proof -
  have u: "good n (comb_sequence [parser_char (ch CHR ''u''), PARSER_HEX_DIGIT, PARSER_HEX_DIGIT, PARSER_HEX_DIGIT, PARSER_HEX_DIGIT])"
    by (rule good_sequence) (auto intro!: good_HEX_DIGIT good_char)
  have "good n (comb_one_of [parser_char 0x22, parser_char 0x5C, parser_char (ch CHR ''/''), parser_char (ch CHR ''b''),
    parser_char (ch CHR ''f''), parser_char (ch CHR ''n''), parser_char (ch CHR ''r''), parser_char (ch CHR ''t''),
    comb_sequence [parser_char (ch CHR ''u''), PARSER_HEX_DIGIT, PARSER_HEX_DIGIT, PARSER_HEX_DIGIT, PARSER_HEX_DIGIT]])"
    by (rule good_one_of) (auto simp del: comb_one_of.simps intro: u [simplified] good_char)
  then show ?thesis unfolding PARSER_JSON_STR_ESCAPE_def
    by (intro good_sequence) (auto simp del: comb_one_of.simps intro: good_char)
qed

lemma good_WHITESPACE: "good n PARSER_JSON_WHITESPACE"
  unfolding PARSER_JSON_WHITESPACE_def
  by (auto intro!: good_zero_or_more good_one_of good_char moves_one_of moves_chars sound_chars)

lemma good_STR: "good n PARSER_JSON_STR"
proof -
  have "good n (comb_zero_or_more (comb_one_of [parser_json_str_codepoint, PARSER_JSON_STR_ESCAPE]))"
    by (auto intro!: good_zero_or_more good_one_of good_codepoint good_ESCAPE moves_one_of moves_chars sound_chars sound_ESCAPE)
  then show ?thesis unfolding PARSER_JSON_STR_def by (intro good_sequence) (auto intro: good_wrap good_char)
qed

lemma good_digits: "good n (comb_zero_or_more PARSER_DIGIT)"
  by (intro good_zero_or_more good_DIGIT sound_DIGIT)

lemma good_parts: "good n PARSER_INT_PART" "good n PARSER_FRAC_PART" "good n PARSER_EXPONENT"
proof -
  have "good n (comb_sequence [parser_char_range (ch CHR ''1'') (ch CHR ''9''), comb_zero_or_more PARSER_DIGIT])"
    by (rule good_sequence) (auto intro: good_char_range good_digits)
  then have "good n (comb_one_of [parser_char (ch CHR ''0''),
      comb_sequence [parser_char_range (ch CHR ''1'') (ch CHR ''9''), comb_zero_or_more PARSER_DIGIT]])"
    by (intro good_one_of) (auto intro: good_char)
  then show "good n PARSER_INT_PART" unfolding PARSER_INT_PART_def
    by (intro good_sequence) (auto simp del: comb_one_of.simps intro!: good_maybe good_char)
  show "good n PARSER_FRAC_PART" unfolding PARSER_FRAC_PART_def
    by (rule good_sequence) (auto intro: good_char good_digits)
  show "good n PARSER_EXPONENT" unfolding PARSER_EXPONENT_def
    by (rule good_sequence) (auto simp del: comb_one_of.simps intro!: good_char good_digits good_DIGIT good_one_of good_maybe)
qed

lemma good_scalars: "good n PARSER_JSON_NUMBER" "good n PARSER_JSON_TRUE" "good n PARSER_JSON_FALSE" "good n PARSER_JSON_NULL"
  unfolding PARSER_JSON_NUMBER_def PARSER_JSON_TRUE_def PARSER_JSON_FALSE_def PARSER_JSON_NULL_def
  by (auto intro!: good_wrap good_sequence good_maybe good_parts good_str simp: GGL_STR_def)

lemma good_sequence_Cons:
  assumes "good n p" "moves n p" "\<And>q m. q \<in> set ps \<Longrightarrow> m < n \<Longrightarrow> good m q"
  shows "good n (comb_sequence (p # ps))"
proof (rule goodI)
  have p: "sound n p" "ascii n p" using assms(1) by (simp_all add: good_def)
  show so: "sound n (comb_sequence (p # ps))"
    by (rule sound_sequence_Cons [OF p(1) assms(2)]) (use assms(3) good_sound in blast)
  show "ascii n (comb_sequence (p # ps))"
  proof (rule asciiI)
    fix mem out and buf :: loc_buf
    assume b: "within n mem buf"
    from soundD [OF p(1) b, of out] show "ascii_result mem buf (comb_sequence (p # ps) mem buf out)"
    proof (cases rule: sound_resultE)
      case (match buf1 out1)
      then have lt: "snd buf1 < n" using movesD [OF assms(2) b, of out] within_len [OF b] by simp
      have w: "within (snd buf1) mem buf1" using within_self [OF within_ahead [OF b match(2)]] .
      from lt have g: "\<And>q. q \<in> set ps \<Longrightarrow> good (snd buf1) q" using assms(3) by blast
      obtain ok buf' out' where l: "sequence_loop ps mem buf1 out1 = Some (ok, buf', out')"
        using sound_sequence_loop [where mem = mem and out = out1, OF good_sound [OF g] w] by blast
      have "mem ! i < 0x80" if "ok" "fst buf \<le> i" "i < fst buf'" for i
      proof (cases "i < fst buf1")
        case True
        with that asciiD [OF p(2) b, of out] match show ?thesis by simp
      next
        case False
        with l that show ?thesis by (intro ascii_loop [OF g w]) auto
      qed
      with l match show ?thesis by (cases ok) (auto simp: comb_sequence_def)
    qed (simp add: comb_sequence_def)
  qed
qed

lemma good_bracketed:
  assumes "\<And>m. m < n \<Longrightarrow> good m p" "\<And>q m. q \<in> set qs \<Longrightarrow> good m q" "a < 0x80" "b < 0x80"
  shows "good n (comb_sequence [parser_char a, PARSER_JSON_WHITESPACE, comb_result_val t (comb_maybe (comb_sequence
    [comb_zero_or_more (comb_increment_count (comb_sequence (p # parser_char (ch CHR '','') # qs))), comb_increment_count p])),
    parser_char b])"
proof (rule good_sequence_Cons)
  fix q m
  assume m: "m < n"
  have s: "good m (comb_sequence (p # parser_char (ch CHR '','') # qs))"
    using assms m by (intro good_sequence) (auto intro: good_char)
  moreover have "moves m (comb_sequence (p # parser_char (ch CHR '','') # qs))"
    using assms m by (intro moves_sequence [where p = "parser_char (ch CHR '','')"]) (auto intro: good_sound sound_chars moves_chars)
  ultimately have "good m (comb_zero_or_more (comb_increment_count (comb_sequence (p # parser_char (ch CHR '','') # qs))))"
    by (intro good_zero_or_more good_wrap moves_wrap good_sound)
  then have "good m (comb_sequence
    [comb_zero_or_more (comb_increment_count (comb_sequence (p # parser_char (ch CHR '','') # qs))), comb_increment_count p])"
    using assms(1) m by (intro good_sequence) (auto intro: good_wrap)
  moreover assume "q \<in> set [PARSER_JSON_WHITESPACE, comb_result_val t (comb_maybe (comb_sequence
    [comb_zero_or_more (comb_increment_count (comb_sequence (p # parser_char (ch CHR '','') # qs))), comb_increment_count p])),
    parser_char b]"
  ultimately show "good m q" using assms(4) by (auto intro: good_wrap good_maybe good_char good_WHITESPACE)
qed (use assms(3) in \<open>auto intro: good_char moves_chars\<close>)

lemma good_VALUE: "n < stack \<Longrightarrow> good n (PARSER_JSON_VALUE stack)"
proof (induction stack arbitrary: n)
  case (Suc stack)
  let ?val = "PARSER_JSON_VALUE stack"
  have val: "good m ?val" if "m < n" for m using Suc that by simp
  have kv: "good m (PARSER_JSON_OBJECT_KV ?val)" if "m < n" for m
    unfolding PARSER_JSON_OBJECT_KV_def using val [OF that]
    by (intro good_wrap good_sequence) (auto intro: good_STR good_WHITESPACE good_char)
  have "good n (PARSER_JSON_OBJECT ?val)" unfolding PARSER_JSON_OBJECT_def
    by (rule good_bracketed) (auto intro: kv good_WHITESPACE)
  moreover have "good n (PARSER_JSON_ARRAY ?val)" unfolding PARSER_JSON_ARRAY_def PARSER_JSON_ARRAY_ELEM_def
    by (rule good_bracketed) (auto intro: val good_wrap)
  ultimately have "good n (comb_one_of (value_parsers ?val))"
    by (intro good_one_of) (auto simp: value_parsers_def intro: good_STR good_scalars)
  then have "good n (comb_sequence [PARSER_JSON_WHITESPACE, comb_one_of (value_parsers ?val), PARSER_JSON_WHITESPACE])"
    by (intro good_sequence) (auto intro: good_WHITESPACE)
  then show ?case by (simp add: good_def sound_def ascii_def)
qed simp

text \<open>Whatever the buffer says, what a parser has consumed is inside the memory.\<close>

definition stays :: "Parser \<Rightarrow> bool" where
  "stays p \<longleftrightarrow> (\<forall>mem buf out ok buf' out'. p mem buf out = Some (ok, buf', out') \<longrightarrow>
     ahead buf buf' \<and> (fst buf' \<le> length mem \<or> buf' = buf))"

lemma staysD:
  "stays p \<Longrightarrow> p mem buf out = Some (ok, buf', out') \<Longrightarrow> ahead buf buf' \<and> (fst buf' \<le> length mem \<or> buf' = buf)"
  unfolding stays_def by blast

lemma staysI:
  "(\<And>mem buf out ok buf' out'. p mem buf out = Some (ok, buf', out') \<Longrightarrow> ahead buf buf' \<and> (fst buf' \<le> length mem \<or> buf' = buf)) \<Longrightarrow> stays p"
  unfolding stays_def by blast

lemma stays_step:
  "ahead a b \<and> (fst b \<le> l \<or> b = a) \<Longrightarrow> ahead b c \<and> (fst c \<le> l \<or> c = b) \<Longrightarrow> ahead a c \<and> (fst c \<le> l \<or> c = a)"
  by (auto intro: ahead_trans)

lemma stays_one_of: "(\<And>p. p \<in> set ps \<Longrightarrow> stays p) \<Longrightarrow> stays (comb_one_of ps)"
proof (induction ps)
  case (Cons p ps)
  show ?case
  proof (rule staysI)
    fix mem buf out ok buf' out'
    assume run: "comb_one_of (p # ps) mem buf out = Some (ok, buf', out')"
    then obtain ok1 buf1 out1 where p: "p mem buf out = Some (ok1, buf1, out1)" by (auto split: option.splits)
    have ps: "stays (comb_one_of ps)" using Cons by simp
    show "ahead buf buf' \<and> (fst buf' \<le> length mem \<or> buf' = buf)"
      using staysD [OF Cons.prems [of p] p] staysD [OF ps, of mem buf1 out1] stays_step [of buf buf1 "length mem" buf'] run p
      by (cases ok1) auto
  qed
qed (auto intro: staysI)

lemma stays_loop: "(\<And>p. p \<in> set ps \<Longrightarrow> stays p) \<Longrightarrow> stays (sequence_loop ps)"
proof (induction ps)
  case (Cons p ps)
  show ?case
  proof (rule staysI)
    fix mem buf out ok buf' out'
    assume run: "sequence_loop (p # ps) mem buf out = Some (ok, buf', out')"
    then obtain ok1 buf1 out1 where p: "p mem buf out = Some (ok1, buf1, out1)" by (auto split: option.splits)
    have ps: "stays (sequence_loop ps)" using Cons by simp
    show "ahead buf buf' \<and> (fst buf' \<le> length mem \<or> buf' = buf)"
      using staysD [OF Cons.prems [of p] p] staysD [OF ps, of mem buf1 out1] stays_step [of buf buf1 "length mem" buf'] run p
      by (cases ok1) auto
  qed
qed (auto intro: staysI)

lemma stays_sequence:
  assumes "\<And>p. p \<in> set ps \<Longrightarrow> stays p"
  shows "stays (comb_sequence ps)"
proof (rule staysI)
  fix mem buf out ok buf' out'
  assume run: "comb_sequence ps mem buf out = Some (ok, buf', out')"
  then obtain ok1 buf1 out1 where l: "sequence_loop ps mem buf out = Some (ok1, buf1, out1)"
    by (auto simp: comb_sequence_def split: option.splits)
  have "stays (sequence_loop ps)" using assms by (rule stays_loop)
  from staysD [OF this l] run l show "ahead buf buf' \<and> (fst buf' \<le> length mem \<or> buf' = buf)"
    by (cases ok1) (simp_all add: comb_sequence_def)
qed

lemma zero_or_more_stays:
  "comb_zero_or_more p mem buf out = Some r \<Longrightarrow> stays p \<Longrightarrow>
   ahead buf (fst (snd r)) \<and> (fst (fst (snd r)) \<le> length mem \<or> fst (snd r) = buf)"
proof (induction rule: comb_zero_or_more.raw_induct [rotated, consumes 1])
  case (1 loop p mem buf out r)
  then obtain ok1 buf1 out1 where p: "p mem buf out = Some (ok1, buf1, out1)" by (auto split: option.splits)
  note s1 = staysD [OF 1(3) p]
  show ?case
  proof (cases ok1)
    case True
    with 1(2) p have "loop p mem buf1 out1 = Some r" by simp
    from stays_step [OF s1 1(1) [OF this 1(3)]] show ?thesis .
  next
    case False
    with 1(2) p s1 show ?thesis by auto
  qed
qed

lemma stays_zero_or_more: "stays p \<Longrightarrow> stays (comb_zero_or_more p)"
  using zero_or_more_stays by (intro staysI) fastforce

lemma stays_wrap:
  assumes "stays p"
  shows "stays (comb_maybe p)" "stays (comb_nested p)" "stays (comb_result_val t p)" "stays (comb_increment_count p)"
proof -
  have w: "stays q" if q: "\<And>mem buf out ok buf' out'. q mem buf out = Some (ok, buf', out') \<Longrightarrow> \<exists>o1 ok1 o2. p mem buf o1 = Some (ok1, buf', o2)" for q
  proof (rule staysI)
    fix mem buf out ok buf' out' assume "q mem buf out = Some (ok, buf', out')"
    from q [OF this] obtain o1 ok1 o2 where "p mem buf o1 = Some (ok1, buf', o2)" by blast
    with assms show "ahead buf buf' \<and> (fst buf' \<le> length mem \<or> buf' = buf)" by (rule staysD)
  qed
  show "stays (comb_maybe p)" by (rule w) (auto simp: comb_maybe_def split: option.splits)
  show "stays (comb_nested p)" by (rule w) (auto simp: comb_nested_def split: option.splits)
  show "stays (comb_result_val t p)" by (rule w) (auto simp: comb_result_val_def Let_def split: option.splits)
  show "stays (comb_increment_count p)" by (rule w) (auto simp: comb_increment_count_def split: option.splits)
qed

lemma stays_chars: "stays (parser_char c)" "stays (parser_char_range a b)" "stays (parser_str s)" "stays parser_json_str_codepoint"
proof -
  have u: "n = 1" if "list_all (\<lambda>i. b AND 0xC0 = 0x80) [1..<n]" "\<not> b AND 0xC0 = 0x80" "utf8_len b = Some n" for b n
    using that by (auto simp: list_all_iff utf8_len_def split: if_splits)
  show "stays parser_json_str_codepoint"
  proof (rule staysI)
    fix mem buf out ok buf' out'
    assume run: "parser_json_str_codepoint mem buf out = Some (ok, buf', out')"
    show "ahead buf buf' \<and> (fst buf' \<le> length mem \<or> buf' = buf)"
    proof (cases "buf' = buf")
      case False
      with run obtain n where n: "fst buf < length mem" "buf' = advance n buf" "utf8_len (mem ! fst buf) = Some n"
        "list_all (\<lambda>i. mem ! fst buf AND 0xC0 = 0x80) [1..<n]" "\<not> mem ! fst buf AND 0xC0 = 0x80"
        by (auto simp: parser_json_str_codepoint_def Let_def split: if_splits option.splits)
      from u [OF n(4,5,3)] n(1,2) show ?thesis by (auto simp: advance_def ahead_def min_def)
    qed simp
  qed
qed (auto intro!: staysI simp: parser_char_def parser_char_range_def parser_str_def Let_def advance_def ahead_def split: if_splits)

lemmas stays_intros = stays_one_of stays_sequence stays_zero_or_more stays_wrap stays_chars

lemma stays_STR: "stays PARSER_JSON_STR"
  unfolding PARSER_JSON_STR_def PARSER_JSON_STR_ESCAPE_def PARSER_HEX_DIGIT_def PARSER_DIGIT_def
  by (auto simp del: comb_one_of.simps intro!: stays_intros)

lemma stays_WHITESPACE: "stays PARSER_JSON_WHITESPACE"
  unfolding PARSER_JSON_WHITESPACE_def by (auto simp del: comb_one_of.simps intro!: stays_intros)

lemma stays_scalars: "stays PARSER_JSON_NUMBER" "stays PARSER_JSON_TRUE" "stays PARSER_JSON_FALSE" "stays PARSER_JSON_NULL"
  unfolding PARSER_JSON_NUMBER_def PARSER_INT_PART_def PARSER_FRAC_PART_def PARSER_EXPONENT_def PARSER_DIGIT_def
    PARSER_JSON_TRUE_def PARSER_JSON_FALSE_def PARSER_JSON_NULL_def
  by (auto simp del: comb_one_of.simps intro!: stays_intros)

lemma stays_compound: "stays val \<Longrightarrow> stays (PARSER_JSON_OBJECT val)" "stays val \<Longrightarrow> stays (PARSER_JSON_ARRAY val)"
  unfolding PARSER_JSON_OBJECT_def PARSER_JSON_OBJECT_KV_def PARSER_JSON_ARRAY_def PARSER_JSON_ARRAY_ELEM_def
  by (auto simp del: comb_one_of.simps intro!: stays_intros stays_STR stays_WHITESPACE)

lemma stays_VALUE: "stays (PARSER_JSON_VALUE stack)"
proof (induction stack)
  case (Suc stack)
  then have "stays (comb_one_of (value_parsers (PARSER_JSON_VALUE stack)))"
    by (intro stays_one_of) (auto simp: value_parsers_def intro: stays_STR stays_scalars stays_compound)
  then have "stays (comb_sequence [PARSER_JSON_WHITESPACE, comb_one_of (value_parsers (PARSER_JSON_VALUE stack)), PARSER_JSON_WHITESPACE])"
    by (intro stays_sequence) (auto intro: stays_WHITESPACE)
  then show ?case by (simp add: stays_def)
qed (simp add: stays_def)

text \<open>C27: A text with a byte outside ASCII is never decoded. The loop over the bytes of a character tests the first byte
  each time, so that every character of more than one byte is refused, although the test is written for them.\<close>

theorem ggl_json_decode_ascii_only:
  assumes "snd buf + 3 \<le> stack" "ggl_json_decode_destructive strtod stack buf (mem, alloc) = (Ret obj, s)"
    and "fst buf \<le> i" "i < fst buf + snd buf"
  shows "mem ! i < 0x80"
proof -
  obtain n where n: "stack = Suc n" "snd buf + 2 \<le> n" using assms(1) by (cases stack) auto
  from assms(2) n(1) obtain buf' out s' where m: "json_match n buf (mem, alloc) = (Ret (buf', out), s')" "snd buf' = 0"
    by (auto simp: ggl_json_decode_destructive_def io_simps res_guard_def split: if_splits)
  from m(1) obtain o' where p: "PARSER_JSON_VALUE n mem buf (Some \<lparr>json_type = JSON_TYPE_STR, content = (0, 0), item_count = 0\<rparr>)
      = Some (True, buf', o')"
    by (auto simp: json_match_def split: option.splits prod.splits bool.splits)
  have "good (snd buf) (PARSER_JSON_VALUE n)" using n(2) by (intro good_VALUE) simp
  then have "ascii (snd buf) (PARSER_JSON_VALUE n)" "sound (snd buf) (PARSER_JSON_VALUE n)" by (simp_all add: good_def)
  moreover have "within (snd buf) mem buf"
    using stays_VALUE [of n, THEN staysD, OF p] m(2) assms(3,4) by (auto simp: within_def ahead_def)
  ultimately show ?thesis
    using asciiD [of "snd buf" "PARSER_JSON_VALUE n" mem buf "Some \<lparr>json_type = JSON_TYPE_STR, content = (0, 0), item_count = 0\<rparr>"]
      soundD [of "snd buf" "PARSER_JSON_VALUE n" mem buf "Some \<lparr>json_type = JSON_TYPE_STR, content = (0, 0), item_count = 0\<rparr>"]
      p m(2) assms(3,4) by (auto simp: ahead_def)
qed

text \<open>A run of equal bytes is copied on by one byte for each pass of the loop.\<close>

lemma unescape_run:
  assumes "c \<noteq> 0x5C" "length mem = a + Suc n + length back"
    and "mem = front @ c # rest @ back" "a = length front" "length rest = n"
  shows "unescape_loop mem (a, n) (Suc a) = Ret (True, front @ replicate (Suc n) c @ back, a + Suc n)"
  using assms
proof (induction n arbitrary: mem front a rest)
  case 0
  then show ?case by (subst unescape_loop.simps) simp
next
  case (Suc n)
  then obtain d rest' where rest: "rest = d # rest'" by (cases rest) auto
  have "mem ! a = c" using Suc.prems by (simp add: nth_append)
  moreover have "mem[Suc a := c] = (front @ [c]) @ c # rest' @ back"
    using Suc.prems rest by (simp add: list_update_append)
  moreover have "unescape_loop ((front @ [c]) @ c # rest' @ back) (Suc a, n) (Suc (Suc a)) =
      Ret (True, (front @ [c]) @ replicate (Suc n) c @ back, Suc a + Suc n)"
    using Suc.prems rest by (intro Suc.IH) auto
  ultimately show ?case using Suc.prems
    by (subst unescape_loop.simps) (simp add: unescape_step_def put_byte_def advance_def)
qed

text \<open>Bytes that are no escapes are passed over.\<close>

lemma unescape_plain:
  assumes "0x5C \<notin> set pre" "mem = front @ pre @ rest" "a = length front" "length pre \<le> n"
  shows "unescape_loop mem (a, n) a = unescape_loop mem (a + length pre, n - length pre) (a + length pre)"
  using assms
proof (induction pre arbitrary: front a n)
  case (Cons c pre)
  have c: "mem ! a = c" "a < length mem" using Cons.prems by (simp_all add: nth_append)
  then have "mem[a := c] = mem" by (metis list_update_id)
  then have "unescape_loop mem (a, n) a = unescape_loop mem (Suc a, n - 1) (Suc a)"
    using Cons.prems(1,4) c by (subst unescape_loop.simps) (simp add: unescape_step_def put_byte_def advance_def)
  also have "\<dots> = unescape_loop mem (Suc a + length pre, n - 1 - length pre) (Suc a + length pre)"
    using Cons.prems by (intro Cons.IH [of "front @ [c]"]) auto
  finally show ?case by simp
qed simp

lemma ucast_ascii:
  assumes "(u :: u16) \<le> 0x7F"
  shows "unat (ucast u :: byte) = unat u" "unat (ucast u :: u32) = unat u"
proof -
  have "unat u \<le> 127" using assms by (simp add: word_le_nat_alt)
  then show "unat (ucast u :: byte) = unat u" "unat (ucast u :: u32) = unat u"
    by (simp_all add: unsigned_ucast_eq take_bit_nat_eq_self)
qed

lemma codepoint_utf8_ascii:
  assumes "(u :: u16) \<le> 0x7F"
  shows "codepoint_utf8 (ucast u) = Some [ucast u]"
proof -
  have "unat u \<le> 127" using assms by (simp add: word_le_nat_alt)
  have "(ucast (ucast u :: u32) :: byte) = ucast u" by (rule bit_word_eqI) (auto simp: bit_simps)
  moreover have "(ucast u :: u32) \<le> 0x7F" using ucast_ascii(2) [OF assms] \<open>unat u \<le> 127\<close> by (simp add: word_le_nat_alt)
  ultimately show ?thesis by (simp add: codepoint_utf8_def)
qed

text \<open>The first pass over an escape of a code unit writes its character over the backslash and does not skip it.\<close>

lemma unescape_unit:
  assumes "get_uint16_from_hex4 mem (a + 2) = Ret (Some u)" "u \<le> 0x7F" "mem = front @ [0x5C, ch CHR ''u''] @ rest" "a = length front" "6 \<le> n"
  shows "unescape_loop mem (a, n) a = unescape_loop (mem[a := ucast u]) (a, n) (Suc a)"
proof -
  have m: "mem ! a = 0x5C" "mem ! Suc a = ch CHR ''u''" "Suc a < length mem" using assms(3,4) by (simp_all add: nth_append)
  have u: "\<not> 0xD800 \<le> u" "\<not> 0xDC00 \<le> u" using assms(2) by unat_arith+
  have c: "codepoint_utf8 (ucast u) = Some [ucast u]" by (rule codepoint_utf8_ascii [OF assms(2)])
  have "write_at mem a [ucast u] = mem[a := ucast u]" using m(3) by (simp add: write_at_def upd_conv_take_nth_drop)
  then show ?thesis using m u c assms(1,5)
    by (subst unescape_loop.simps)
      (simp add: unescape_step_def str_conv_handle_escape_def str_conv_handle_utf16_escape_def write_codepoint_utf8_def)
qed


theorem ggl_json_decode_safe_witness:
  "\<exists>r mem' alloc'. ggl_json_decode_destructive (\<lambda>_. None) 8 (0, 5) (GGL_STR ''[1.5]'', None) = (r, mem', alloc') \<and> r \<noteq> Abort"
proof -
  have "no_unicode (GGL_STR ''[1.5]'') 0 5"
    unfolding no_unicode_def
  proof (intro allI impI)
    fix i :: nat
    assume "i + 1 < 5"
    then have "i = 0 \<or> i = 1 \<or> i = 2 \<or> i = 3" by linarith
    then show "\<not> (GGL_STR ''[1.5]'' ! i = 0x5C \<and> GGL_STR ''[1.5]'' ! (i + 1) = ch CHR ''u'')" by (auto simp: GGL_STR_def)
  qed
  moreover have "stopped (GGL_STR ''[1.5]'') (0, 5)"
    by (auto simp: stopped_def GGL_STR_def numeral_char_def intro!: exI [of _ 4])
  ultimately show ?thesis
    using ggl_json_decode_safe [of "(0, 5)" "GGL_STR ''[1.5]''" 8 "\<lambda>_. None" None] by (auto simp: GGL_STR_def)
qed

theorem ggl_json_decode_ascii_only_witness:
  "fst (ggl_json_decode_destructive (\<lambda>_. None) 6 (0, 3) ([0x22, 0x61, 0x22], None)) = Ret (OBJ_BUF [0x61]) \<and>
   [0x22, 0x61, 0x22] ! 1 < (0x80 :: byte)"
proof -
  let ?r = "ggl_json_decode_destructive (\<lambda>_. None) 6 (0, 3) ([0x22, 0x61, 0x22], None)"
  have r: "fst ?r = Ret (OBJ_BUF [0x61])" by code_simp
  then have "?r = (Ret (OBJ_BUF [0x61]), snd ?r)" by (metis prod.collapse)
  then have "[0x22, 0x61, 0x22] ! 1 < (0x80 :: byte)"
    by (rule ggl_json_decode_ascii_only [rotated]) simp_all
  with r show ?thesis by blast
qed


end
