(* ===== verification/JsonText.thy ===== *)
theory JsonText
  imports JsonDecode
begin

text \<open>
  What JSON texts mean, and that the decoder reads them: the texts of an object are given by a grammar, with
  white space and escapes; the decoder gives the object back for every one of its texts, and the text that the
  encoder writes is one of them. The grammar is that of JSON without fractions and exponents, characters beyond ASCII,
  and escapes of code units.
\<close>

section \<open>Texts of objects\<close>

definition space :: "byte \<Rightarrow> bool" where
  "space c \<longleftrightarrow> c = 0x20 \<or> c = 0x0A \<or> c = 0x0D \<or> c = 0x09"

definition spaces :: "buffer \<Rightarrow> bool" where
  "spaces w \<longleftrightarrow> list_all space w"

text \<open>A character of a string stands for itself or is escaped.\<close>

definition plain_char :: "byte \<Rightarrow> bool" where
  "plain_char c \<longleftrightarrow> 0x1F < c \<and> c < 0x80 \<and> c \<noteq> QUOTE \<and> c \<noteq> BACKSLASH"

definition escapes :: "(byte \<times> byte) list" where
  "escapes =
     [(0x22, 0x22), (0x5C, 0x5C), (0x2F, 0x2F), (0x62, 0x08), (0x66, 0x0C), (0x6E, 0x0A), (0x72, 0x0D), (0x74, 0x09)]"

definition char_text :: "byte \<Rightarrow> buffer \<Rightarrow> bool" where
  "char_text c t \<longleftrightarrow> plain_char c \<and> t = [c] \<or> (\<exists>e. (e, c) \<in> set escapes \<and> t = [BACKSLASH, e])"

lemma escapes_escaped_char: "(e, c) \<in> set escapes \<longleftrightarrow> escaped_char e = Some c"
  by (auto simp: escapes_def escaped_char_def)

lemmas char_text_cases = char_text_def [unfolded escapes_escaped_char]

inductive chars_text :: "buffer \<Rightarrow> buffer \<Rightarrow> bool" where
  no_chars: "chars_text [] []"
| more_chars: "char_text c t \<Longrightarrow> chars_text s u \<Longrightarrow> chars_text (c # s) (t @ u)"

text \<open>An integer: an optional sign and digits, of which the first is not zero unless it is the only one.\<close>

definition digits_text :: "buffer \<Rightarrow> bool" where
  "digits_text ds \<longleftrightarrow> ds \<noteq> [] \<and> list_all digit_byte ds \<and> (hd ds = ch CHR ''0'' \<longrightarrow> tl ds = [])"

definition int_text :: "int \<Rightarrow> buffer \<Rightarrow> bool" where
  "int_text i t \<longleftrightarrow> in_int64 i \<and> (\<exists>ds. digits_text ds \<and>
     (t = ds \<and> i = dec_value ds \<or> t = MINUS # ds \<and> i = - dec_value ds))"

text \<open>\<open>value_text v t\<close>: \<open>t\<close> is a text of \<open>v\<close>, without white space around it; \<open>items_text\<close> and \<open>pairs_text\<close> are what is
  between the brackets of lists and maps that are not empty.\<close>

inductive value_text :: "GglObject \<Rightarrow> buffer \<Rightarrow> bool"
  and items_text :: "GglObject list \<Rightarrow> buffer \<Rightarrow> bool"
  and pairs_text :: "(buffer \<times> GglObject) list \<Rightarrow> buffer \<Rightarrow> bool" where
  null_text: "value_text OBJ_NULL (GGL_STR ''null'')"
| true_text: "value_text (OBJ_BOOL True) (GGL_STR ''true'')"
| false_text: "value_text (OBJ_BOOL False) (GGL_STR ''false'')"
| number_text: "int_text (sint i) t \<Longrightarrow> value_text (OBJ_I64 i) t"
| string_text: "chars_text s t \<Longrightarrow> value_text (OBJ_BUF s) (QUOTE # t @ [QUOTE])"
| empty_list_text: "spaces w \<Longrightarrow> value_text (OBJ_LIST []) (ch CHR ''['' # w @ [ch CHR '']''])"
| list_text: "spaces w \<Longrightarrow> items_text xs t \<Longrightarrow> value_text (OBJ_LIST xs) (ch CHR ''['' # w @ t @ [ch CHR '']''])"
| empty_map_text: "spaces w \<Longrightarrow> value_text (OBJ_MAP []) (ch CHR ''{'' # w @ [ch CHR ''}''])"
| map_text: "spaces w \<Longrightarrow> pairs_text kvs t \<Longrightarrow> value_text (OBJ_MAP kvs) (ch CHR ''{'' # w @ t @ [ch CHR ''}''])"
| last_item: "value_text x t \<Longrightarrow> spaces w \<Longrightarrow> items_text [x] (t @ w)"
| more_items: "value_text x t \<Longrightarrow> spaces w \<Longrightarrow> spaces w' \<Longrightarrow> items_text xs u \<Longrightarrow>
    items_text (x # xs) (t @ w @ ch CHR '','' # w' @ u)"
| last_pair: "chars_text k s \<Longrightarrow> spaces w1 \<Longrightarrow> spaces w2 \<Longrightarrow> value_text v t \<Longrightarrow> spaces w \<Longrightarrow>
    pairs_text [(k, v)] (QUOTE # s @ QUOTE # w1 @ ch CHR '':'' # w2 @ t @ w)"
| more_pairs: "chars_text k s \<Longrightarrow> spaces w1 \<Longrightarrow> spaces w2 \<Longrightarrow> value_text v t \<Longrightarrow> spaces w \<Longrightarrow> spaces w' \<Longrightarrow>
    pairs_text kvs u \<Longrightarrow>
    pairs_text ((k, v) # kvs) (QUOTE # s @ QUOTE # w1 @ ch CHR '':'' # w2 @ t @ w @ ch CHR '','' # w' @ u)"

text \<open>How deep the values of an object are nested.\<close>

fun nesting :: "GglObject \<Rightarrow> nat" where
  "nesting (OBJ_LIST xs) = 1 + Max (insert 0 (set (map nesting xs)))"
| "nesting (OBJ_MAP kvs) = 1 + Max (insert 0 (set (map (\<lambda>kv. nesting (snd kv)) kvs)))"
| "nesting _ = 0"

section \<open>What a parser eats\<close>

text \<open>A buffer with these bytes.\<close>

definition holds :: "buffer \<Rightarrow> loc_buf \<Rightarrow> buffer \<Rightarrow> bool" where
  "holds mem buf xs \<longleftrightarrow> fst buf + snd buf \<le> length mem \<and> fetch_buf mem buf = xs"

lemma holds_len: "holds mem buf xs \<Longrightarrow> snd buf = length xs"
  by (auto simp: holds_def fetch_buf_def)

lemma holds_nth: "holds mem buf xs \<Longrightarrow> i < length xs \<Longrightarrow> mem ! (fst buf + i) = xs ! i"
  by (auto simp: holds_def fetch_buf_def)

lemma holds_take:
  assumes "holds mem buf (xs @ ys)"
  shows "take (length xs) (drop (fst buf) mem) = xs"
proof -
  have "take (length xs) (take (snd buf) (drop (fst buf) mem)) = xs"
    using assms by (simp add: holds_def fetch_buf_def)
  moreover have "length xs \<le> snd buf" using holds_len [OF assms] by simp
  ultimately show ?thesis by (simp add: min_def)
qed

lemma holds_advance: "holds mem buf (xs @ ys) \<Longrightarrow> holds mem (advance (length xs) buf) ys"
proof -
  assume h: "holds mem buf (xs @ ys)"
  then have l: "snd buf = length xs + length ys" by (auto dest: holds_len)
  have "take (snd buf) (drop (fst buf) mem) = xs @ ys" using h by (simp add: holds_def fetch_buf_def)
  then have "drop (length xs) (take (snd buf) (drop (fst buf) mem)) = ys" by simp
  then show ?thesis using h l by (simp add: holds_def fetch_buf_def advance_def drop_take add.commute)
qed

lemma advance_0 [simp]: "advance 0 buf = buf"
  by (simp add: advance_def)

lemma advance_advance: "n + m \<le> snd buf \<Longrightarrow> advance m (advance n buf) = advance (n + m) buf"
  by (simp add: advance_def)

text \<open>
  \<open>eats p xs rest f\<close>: on a buffer with \<open>xs\<close> and then \<open>rest\<close> the parser consumes \<open>xs\<close> and changes the output by \<open>f\<close>.
  \<open>rejects p xs\<close>: on a buffer with \<open>xs\<close> it does not match and leaves the output alone.
\<close>

definition eats :: "Parser \<Rightarrow> buffer \<Rightarrow> buffer \<Rightarrow> (loc_buf \<Rightarrow> ParseResult option \<Rightarrow> ParseResult option) \<Rightarrow> bool" where
  "eats p xs rest f \<longleftrightarrow> (\<forall>mem buf out. holds mem buf (xs @ rest) \<longrightarrow>
     p mem buf out = Some (True, advance (length xs) buf, f buf out))"

definition rejects :: "Parser \<Rightarrow> buffer \<Rightarrow> bool" where
  "rejects p xs \<longleftrightarrow> (\<forall>mem buf out. holds mem buf xs \<longrightarrow> p mem buf out = Some (False, buf, out))"

definition quiet :: "loc_buf \<Rightarrow> ParseResult option \<Rightarrow> ParseResult option" where
  "quiet buf out = out"

lemma eatsD: "eats p xs rest f \<Longrightarrow> holds mem buf (xs @ rest) \<Longrightarrow> p mem buf out = Some (True, advance (length xs) buf, f buf out)"
  unfolding eats_def by blast

lemma eatsI:
  "(\<And>mem buf out. holds mem buf (xs @ rest) \<Longrightarrow> p mem buf out = Some (True, advance (length xs) buf, f buf out)) \<Longrightarrow>
   eats p xs rest f"
  unfolding eats_def by blast

lemma rejectsD: "rejects p xs \<Longrightarrow> holds mem buf xs \<Longrightarrow> p mem buf out = Some (False, buf, out)"
  unfolding rejects_def by blast

lemma rejectsI: "(\<And>mem buf out. holds mem buf xs \<Longrightarrow> p mem buf out = Some (False, buf, out)) \<Longrightarrow> rejects p xs"
  unfolding rejects_def by blast

subsection \<open>Combinators\<close>

lemma eats_one_of_here: "eats p xs rest f \<Longrightarrow> eats (comb_one_of (p # ps)) xs rest f"
  by (rule eatsI) (simp add: eatsD)

lemma eats_one_of_there: "rejects p (xs @ rest) \<Longrightarrow> eats (comb_one_of ps) xs rest f \<Longrightarrow> eats (comb_one_of (p # ps)) xs rest f"
  by (rule eatsI) (simp add: eatsD rejectsD)

lemma rejects_one_of: "(\<And>p. p \<in> set ps \<Longrightarrow> rejects p xs) \<Longrightarrow> rejects (comb_one_of ps) xs"
proof (induction ps)
  case (Cons p ps)
  then have "rejects p xs" "rejects (comb_one_of ps) xs" by simp_all
  then show ?case by (intro rejectsI) (simp add: rejectsD)
qed (simp add: rejects_def)

lemma eats_sequence_Nil: "eats (comb_sequence []) [] rest quiet"
  by (rule eatsI) (simp add: comb_sequence_def quiet_def)

lemma eats_sequence_Cons:
  assumes "eats p xs (ys @ rest) f" "eats (comb_sequence ps) ys rest g"
  shows "eats (comb_sequence (p # ps)) (xs @ ys) rest (\<lambda>buf out. g (advance (length xs) buf) (f buf out))"
proof (rule eatsI)
  fix mem buf out
  assume h: "holds mem buf ((xs @ ys) @ rest)"
  then have h1: "holds mem (advance (length xs) buf) (ys @ rest)" by (intro holds_advance) simp
  have "length xs + length ys \<le> snd buf" using holds_len [OF h] by simp
  moreover have "comb_sequence ps mem (advance (length xs) buf) (f buf out) =
      Some (True, advance (length ys) (advance (length xs) buf), g (advance (length xs) buf) (f buf out))"
    by (rule eatsD [OF assms(2) h1])
  then have "sequence_loop ps mem (advance (length xs) buf) (f buf out) =
      Some (True, advance (length ys) (advance (length xs) buf), g (advance (length xs) buf) (f buf out))"
    by (auto simp: comb_sequence_def split: option.splits if_splits)
  ultimately show "comb_sequence (p # ps) mem buf out =
      Some (True, advance (length (xs @ ys)) buf, g (advance (length xs) buf) (f buf out))"
    using eatsD [OF assms(1), of mem buf out] h by (simp add: comb_sequence_def advance_advance)
qed

lemma rejects_sequence_here: "rejects p xs \<Longrightarrow> rejects (comb_sequence (p # ps)) xs"
  by (rule rejectsI) (simp add: comb_sequence_def rejectsD)

lemma rejects_sequence_there:
  assumes "eats p xs ys quiet" "rejects (comb_sequence ps) ys"
  shows "rejects (comb_sequence (p # ps)) (xs @ ys)"
proof (rule rejectsI)
  fix mem buf out
  assume h: "holds mem buf (xs @ ys)"
  have "comb_sequence ps mem (advance (length xs) buf) out = Some (False, advance (length xs) buf, out)"
    by (rule rejectsD [OF assms(2) holds_advance [OF h]])
  then obtain b where "sequence_loop ps mem (advance (length xs) buf) out = Some (False, b, out)"
    by (auto simp: comb_sequence_def split: option.splits if_splits)
  then show "comb_sequence (p # ps) mem buf out = Some (False, buf, out)"
    using eatsD [OF assms(1) h, of out] by (simp add: comb_sequence_def quiet_def)
qed

lemma eats_zero: "rejects p rest \<Longrightarrow> eats (comb_zero_or_more p) [] rest quiet"
  by (rule eatsI, subst comb_zero_or_more.simps) (simp add: rejectsD quiet_def)

lemma eats_more:
  assumes "eats p xs (ys @ rest) f" "eats (comb_zero_or_more p) ys rest g"
  shows "eats (comb_zero_or_more p) (xs @ ys) rest (\<lambda>buf out. g (advance (length xs) buf) (f buf out))"
proof (rule eatsI)
  fix mem buf out
  assume h: "holds mem buf ((xs @ ys) @ rest)"
  then have h1: "holds mem (advance (length xs) buf) (ys @ rest)" by (intro holds_advance) simp
  have "length xs + length ys \<le> snd buf" using holds_len [OF h] by simp
  then show "comb_zero_or_more p mem buf out =
      Some (True, advance (length (xs @ ys)) buf, g (advance (length xs) buf) (f buf out))"
    using eatsD [OF assms(1), of mem buf out] eatsD [OF assms(2) h1] h
    by (subst comb_zero_or_more.simps) (simp add: advance_advance)
qed

lemma eats_maybe: "eats p xs rest f \<Longrightarrow> eats (comb_maybe p) xs rest f"
  by (rule eatsI) (simp add: comb_maybe_def eatsD)

lemma eats_maybe_not: "rejects p rest \<Longrightarrow> eats (comb_maybe p) [] rest quiet"
  by (rule eatsI) (simp add: comb_maybe_def rejectsD quiet_def)

lemma eats_nested: "eats p xs rest f \<Longrightarrow> eats (comb_nested p) xs rest quiet"
  by (rule eatsI) (simp add: comb_nested_def eatsD quiet_def)

lemma rejects_nested: "rejects p xs \<Longrightarrow> rejects (comb_nested p) xs"
  by (rule rejectsI) (simp add: comb_nested_def rejectsD)

lemma rejects_result_val: "rejects p xs \<Longrightarrow> rejects (comb_result_val t p) xs"
  by (rule rejectsI) (simp add: comb_result_val_def rejectsD)

lemma rejects_increment_count: "rejects p xs \<Longrightarrow> rejects (comb_increment_count p) xs"
  by (rule rejectsI) (simp add: comb_increment_count_def rejectsD)

text \<open>The output after a match of a value: its kind and content, with the items counted in addition.\<close>

definition counted :: "nat \<Rightarrow> loc_buf \<Rightarrow> ParseResult option \<Rightarrow> ParseResult option" where
  "counted n buf out = map_option (\<lambda>r. r\<lparr>item_count := item_count r + n\<rparr>) out"

definition noted :: "JsonType \<Rightarrow> nat \<Rightarrow> nat \<Rightarrow> nat \<Rightarrow> loc_buf \<Rightarrow> ParseResult option \<Rightarrow> ParseResult option" where
  "noted type off len n buf out =
     map_option (\<lambda>r. r\<lparr>json_type := type, content := (fst buf + off, len), item_count := item_count r + n\<rparr>) out"

lemma counted_0: "counted 0 = quiet"
  by (auto simp: counted_def quiet_def fun_eq_iff intro: option.map_ident)

lemma counted_counted: "counted m buf' (counted n buf out) = counted (n + m) buf out"
  by (cases out) (simp_all add: counted_def)

lemma eats_result_val:
  assumes "eats p xs rest (counted n)"
  shows "eats (comb_result_val t p) xs rest (noted t 0 (length xs) n)"
proof (rule eatsI)
  fix mem buf out
  assume h: "holds mem buf (xs @ rest)"
  have "length xs \<le> snd buf" using holds_len [OF h] by simp
  then show "comb_result_val t p mem buf out = Some (True, advance (length xs) buf, noted t 0 (length xs) n buf out)"
    using eatsD [OF assms h, of out] by (cases out) (simp_all add: comb_result_val_def advance_def noted_def counted_def)
qed

lemma eats_increment_count: "eats p xs rest quiet \<Longrightarrow> eats (comb_increment_count p) xs rest (counted 1)"
  by (rule eatsI) (simp add: comb_increment_count_def eatsD quiet_def counted_def)

text \<open>A step that is in front of, or behind, the one that has an output.\<close>

lemma eats_skip:
  assumes "eats p xs (ys @ rest) quiet" "eats (comb_sequence ps) ys rest (noted t off len n)"
  shows "eats (comb_sequence (p # ps)) (xs @ ys) rest (noted t (length xs + off) len n)"
proof (rule eatsI)
  fix mem buf out
  assume h: "holds mem buf ((xs @ ys) @ rest)"
  have "length xs \<le> snd buf" using holds_len [OF h] by simp
  then show "comb_sequence (p # ps) mem buf out = Some (True, advance (length (xs @ ys)) buf, noted t (length xs + off) len n buf out)"
    using eatsD [OF eats_sequence_Cons [OF assms] h, of out]
    by (simp add: quiet_def noted_def advance_def add.assoc)
qed

lemma eats_then:
  assumes "eats p xs (ys @ rest) f" "eats (comb_sequence ps) ys rest quiet"
  shows "eats (comb_sequence (p # ps)) (xs @ ys) rest f"
  using eats_sequence_Cons [OF assms] by (simp add: quiet_def)

lemma eats_last: "eats p xs rest f \<Longrightarrow> eats (comb_sequence [p]) xs rest f"
  using eats_then [of p xs "[]" rest f "[]"] eats_sequence_Nil by simp

subsection \<open>Characters\<close>

lemma holds_first: "holds mem buf (c # xs) \<Longrightarrow> 0 < snd buf \<and> fst buf < length mem \<and> mem ! fst buf = c"
  using holds_len [of mem buf "c # xs"] holds_nth [of mem buf "c # xs" 0] by (auto simp: holds_def)

lemma holds_empty: "holds mem buf [] \<Longrightarrow> snd buf = 0"
  by (drule holds_len) simp

lemma eats_char: "eats (parser_char c) [c] rest quiet"
  by (rule eatsI) (auto simp: parser_char_def quiet_def dest: holds_first)

lemma rejects_char: "xs = [] \<or> hd xs \<noteq> c \<Longrightarrow> rejects (parser_char c) xs"
  by (rule rejectsI, cases xs) (auto simp: parser_char_def dest: holds_first holds_empty)

lemma eats_char_range: "a \<le> c \<Longrightarrow> c \<le> b \<Longrightarrow> eats (parser_char_range a b) [c] rest quiet"
  by (rule eatsI) (auto simp: parser_char_range_def quiet_def not_less Let_def dest: holds_first)

lemma rejects_char_range: "xs = [] \<or> \<not> (a \<le> hd xs \<and> hd xs \<le> b) \<Longrightarrow> rejects (parser_char_range a b) xs"
  by (rule rejectsI, cases xs) (auto simp: parser_char_range_def not_le Let_def dest: holds_first holds_empty)

lemma eats_str: "eats (parser_str s) s rest quiet"
proof (rule eatsI)
  fix mem out and buf :: loc_buf
  assume h: "holds mem buf (s @ rest)"
  have "fst buf + snd buf \<le> length mem" "snd buf = length s + length rest"
    using h holds_len [OF h] by (simp_all add: holds_def)
  with holds_take [OF h] show "parser_str s mem buf out = Some (True, advance (length s) buf, quiet buf out)"
    by (simp add: parser_str_def quiet_def)
qed

lemma rejects_str:
  assumes "xs = [] \<or> hd xs \<noteq> c"
  shows "rejects (parser_str (c # s)) xs"
proof (rule rejectsI)
  fix mem out and buf :: loc_buf
  assume h: "holds mem buf xs"
  show "parser_str (c # s) mem buf out = Some (False, buf, out)"
  proof (cases xs)
    case Nil
    with h show ?thesis by (auto simp: parser_str_def dest: holds_empty)
  next
    case (Cons x ys)
    have "take 1 (drop (fst buf) mem) = [x]" using holds_take [of mem buf "[x]" ys] h Cons by simp
    moreover have "take 1 (take (length (c # s)) (drop (fst buf) mem)) = take 1 (drop (fst buf) mem)" by (simp add: min_def)
    moreover have "take 1 (c # s) = [c]" by simp
    ultimately have "take (length (c # s)) (drop (fst buf) mem) \<noteq> c # s" using assms Cons by (metis list.distinct(1) list.inject list.sel(1))
    moreover have "fst buf + snd buf \<le> length mem" using h by (simp add: holds_def)
    ultimately show ?thesis by (auto simp: parser_str_def)
  qed
qed

lemma eats_one_char: "c \<in> set cs \<Longrightarrow> eats (comb_one_of (map parser_char cs @ ps)) [c] rest quiet"
proof (induction cs)
  case (Cons d cs)
  show ?case
  proof (cases "c = d")
    case True
    then show ?thesis unfolding list.map append_Cons by (simp only: eats_one_of_here eats_char)
  next
    case False
    with Cons show ?thesis unfolding list.map append_Cons
      by (intro eats_one_of_there rejects_char) auto
  qed
qed simp

lemma space_one_of:
  "space c \<Longrightarrow> eats (comb_one_of [parser_char 0x20, parser_char 0x0A, parser_char 0x0D, parser_char 0x09]) [c] rest quiet"
  using eats_one_char [of c "[0x20, 0x0A, 0x0D, 0x09]" "[]" rest] unfolding list.map append.simps by (simp add: space_def)

lemma eats_WHITESPACE:
  assumes "spaces w" "rest = [] \<or> \<not> space (hd rest)"
  shows "eats PARSER_JSON_WHITESPACE w rest quiet"
  using assms(1)
proof (induction w)
  case Nil
  have "rejects (comb_one_of [parser_char 0x20, parser_char 0x0A, parser_char 0x0D, parser_char 0x09]) rest"
    using assms(2) by (intro rejects_one_of) (auto simp: space_def intro: rejects_char)
  then show ?case unfolding PARSER_JSON_WHITESPACE_def by (rule eats_zero)
next
  case (Cons c w)
  then have "space c" and w: "eats PARSER_JSON_WHITESPACE w rest quiet" by (simp_all add: spaces_def)
  from eats_more [OF space_one_of [OF this(1)] w [unfolded PARSER_JSON_WHITESPACE_def]] show ?case
    by (simp add: PARSER_JSON_WHITESPACE_def quiet_def)
qed

subsection \<open>Strings\<close>

lemma ascii_bits:
  assumes "(c :: byte) < 0x80"
  shows "c AND 0x80 = 0" "c AND 0xC0 \<noteq> 0x80"
proof -
  have "unat c < 2 ^ 7" using assms by (simp add: word_less_nat_alt)
  then have "take_bit 7 (unat c) = unat c" by (simp add: take_bit_nat_eq_self)
  then have "take_bit 7 c = c" by (metis unsigned_take_bit_eq unsigned_word_eqI)
  then have b: "\<not> bit c 7" by (metis bit_take_bit_iff less_irrefl)
  show "c AND 0x80 = 0"
  proof (rule bit_word_eqI)
    fix n
    have "(0x80 :: byte) = 2 ^ 7" by simp
    then have "bit (0x80 :: byte) n \<longleftrightarrow> n = 7" by (simp only: bit_exp_iff) auto
    then show "bit (c AND 0x80) n \<longleftrightarrow> bit (0 :: byte) n" using b by (auto simp: bit_and_iff)
  qed
  show "c AND 0xC0 \<noteq> 0x80"
  proof
    assume "c AND 0xC0 = 0x80"
    moreover have "bit (0x80 :: byte) 7" by simp
    ultimately show False using b by (metis bit_and_iff)
  qed
qed

lemma eats_codepoint:
  assumes "plain_char c"
  shows "eats parser_json_str_codepoint [c] rest quiet"
proof (rule eatsI)
  fix mem out and buf :: loc_buf
  assume "holds mem buf ([c] @ rest)"
  then have b: "0 < snd buf" "fst buf < length mem" "mem ! fst buf = c" using holds_first [of mem buf c rest] by simp_all
  have c: "\<not> c \<le> 0x1F" "c \<noteq> 0x22" "c \<noteq> 0x5C" "c < 0x80" using assms by (simp_all add: plain_char_def not_le)
  have "utf8_len c = Some 1" by (simp add: utf8_len_def ascii_bits [OF c(4)])
  with b c ascii_bits [OF c(4)] show
    "parser_json_str_codepoint mem buf out = Some (True, advance (length [c]) buf, quiet buf out)"
    by (simp add: parser_json_str_codepoint_def Let_def quiet_def)
qed

lemma rejects_codepoint: "xs = [] \<or> hd xs = QUOTE \<or> hd xs = BACKSLASH \<Longrightarrow> rejects parser_json_str_codepoint xs"
  by (rule rejectsI, cases xs) (auto simp: parser_json_str_codepoint_def Let_def dest: holds_first holds_empty)

lemma eats_escape_char:
  assumes "escaped_char e = Some c"
  shows "eats (comb_one_of [parser_char 0x22, parser_char 0x5C, parser_char (ch CHR ''/''), parser_char (ch CHR ''b''),
    parser_char (ch CHR ''f''), parser_char (ch CHR ''n''), parser_char (ch CHR ''r''), parser_char (ch CHR ''t''), p]) [e] rest quiet"
proof -
  from assms have "e \<in> {0x22, 0x5C, ch CHR ''/'', ch CHR ''b'', ch CHR ''f'', ch CHR ''n'', ch CHR ''r'', ch CHR ''t''}"
    by (auto simp: escaped_char_def split: if_splits)
  then show ?thesis
    using eats_one_char [of e "[0x22, 0x5C, ch CHR ''/'', ch CHR ''b'', ch CHR ''f'', ch CHR ''n'', ch CHR ''r'', ch CHR ''t'']" "[p]" rest]
    unfolding list.map append.simps by simp
qed

lemma eats_ESCAPE:
  assumes "escaped_char e = Some c"
  shows "eats PARSER_JSON_STR_ESCAPE [BACKSLASH, e] rest quiet"
  unfolding PARSER_JSON_STR_ESCAPE_def
  using eats_then [OF eats_char eats_last [OF eats_escape_char [OF assms]]] by simp

lemma rejects_ESCAPE: "xs = [] \<or> hd xs \<noteq> BACKSLASH \<Longrightarrow> rejects PARSER_JSON_STR_ESCAPE xs"
  unfolding PARSER_JSON_STR_ESCAPE_def by (intro rejects_sequence_here rejects_char)

lemma eats_chars:
  assumes "chars_text s t"
  shows "eats (comb_zero_or_more (comb_one_of [parser_json_str_codepoint, PARSER_JSON_STR_ESCAPE])) t (QUOTE # rest) quiet"
  using assms
proof induction
  case no_chars
  have "rejects (comb_one_of [parser_json_str_codepoint, PARSER_JSON_STR_ESCAPE]) (QUOTE # rest)"
    by (rule rejects_one_of) (auto intro: rejects_codepoint rejects_ESCAPE)
  then show ?case by (rule eats_zero)
next
  case (more_chars c t s u)
  have "eats (comb_one_of [parser_json_str_codepoint, PARSER_JSON_STR_ESCAPE]) t (u @ QUOTE # rest) quiet"
    using more_chars.hyps(1) unfolding char_text_cases
  proof (elim disjE conjE exE)
    assume "plain_char c" "t = [c]"
    then show ?thesis by (simp only: eats_one_of_here eats_codepoint)
  next
    fix e assume "escaped_char e = Some c" "t = [BACKSLASH, e]"
    then show ?thesis by (intro eats_one_of_there [OF _ eats_one_of_here]) (auto intro: rejects_codepoint eats_ESCAPE)
  qed
  from eats_more [OF this more_chars.IH] show ?case by (simp add: quiet_def)
qed

lemma eats_STR:
  assumes "chars_text s t"
  shows "eats PARSER_JSON_STR (QUOTE # t @ [QUOTE]) rest (noted JSON_TYPE_STR 1 (length t) 0)"
proof -
  have "eats (comb_result_val JSON_TYPE_STR (comb_zero_or_more (comb_one_of [parser_json_str_codepoint, PARSER_JSON_STR_ESCAPE])))
      t (QUOTE # rest) (noted JSON_TYPE_STR 0 (length t) 0)"
    by (rule eats_result_val) (simp add: counted_0 eats_chars [OF assms])
  then have "eats (comb_sequence [comb_result_val JSON_TYPE_STR (comb_zero_or_more (comb_one_of [parser_json_str_codepoint,
      PARSER_JSON_STR_ESCAPE])), parser_char 0x22]) (t @ [QUOTE]) rest (noted JSON_TYPE_STR 0 (length t) 0)"
    by (intro eats_then eats_last eats_char) simp
  from eats_skip [OF eats_char this] show ?thesis unfolding PARSER_JSON_STR_def by simp
qed

lemma rejects_STR: "xs = [] \<or> hd xs \<noteq> QUOTE \<Longrightarrow> rejects PARSER_JSON_STR xs"
  unfolding PARSER_JSON_STR_def by (intro rejects_sequence_here rejects_char)

subsection \<open>Numbers and literals\<close>

text \<open>What may follow a value.\<close>

definition stops :: "buffer \<Rightarrow> bool" where
  "stops rest \<longleftrightarrow> rest = [] \<or> space (hd rest) \<or> hd rest \<in> {ch CHR '','', ch CHR '']'', ch CHR ''}'', ch CHR '':''}"

lemma eats_digits:
  assumes "list_all digit_byte ds" "rest = [] \<or> \<not> digit_byte (hd rest)"
  shows "eats (comb_zero_or_more PARSER_DIGIT) ds rest quiet"
  using assms(1)
proof (induction ds)
  case Nil
  show ?case unfolding PARSER_DIGIT_def
    by (rule eats_zero, rule rejects_char_range) (use assms(2) in \<open>auto simp: digit_byte_def\<close>)
next
  case (Cons d ds)
  then have "eats PARSER_DIGIT [d] (ds @ rest) quiet" unfolding PARSER_DIGIT_def
    by (intro eats_char_range) (auto simp: digit_byte_def)
  from eats_more [OF this Cons.IH] Cons.prems show ?case by (simp add: quiet_def)
qed

lemma eats_digits_text:
  assumes "digits_text ds" "rest = [] \<or> \<not> digit_byte (hd rest)"
  shows "eats (comb_one_of [parser_char (ch CHR ''0''),
      comb_sequence [parser_char_range (ch CHR ''1'') (ch CHR ''9''), comb_zero_or_more PARSER_DIGIT]]) ds rest quiet"
proof -
  from assms(1) obtain d es where ds: "ds = d # es" "digit_byte d" "list_all digit_byte es" "d = ch CHR ''0'' \<longrightarrow> es = []"
    by (cases ds) (auto simp: digits_text_def)
  show ?thesis
  proof (cases "d = ch CHR ''0''")
    case True
    with ds have "ds = [ch CHR ''0'']" by simp
    then show ?thesis by (simp only: eats_one_of_here eats_char)
  next
    case False
    have "0x31 \<le> d" if "0x30 \<le> d" "d \<noteq> 0x30"
      using that by (simp add: word_le_nat_alt unat_eq_nat_uint [symmetric] word_unat_eq_iff)
    with False ds(2) have r: "ch CHR ''1'' \<le> d" "d \<le> ch CHR ''9''" by (auto simp: digit_byte_def)
    have "eats (comb_sequence [parser_char_range (ch CHR ''1'') (ch CHR ''9''), comb_zero_or_more PARSER_DIGIT]) ([d] @ es) rest quiet"
      by (intro eats_then eats_char_range r eats_last eats_digits ds(3) assms(2))
    with False ds(1) show ?thesis
      by (intro eats_one_of_there [OF rejects_char] eats_one_of_here) auto
  qed
qed

lemma stops_no_digit: "stops rest \<Longrightarrow> rest = [] \<or> \<not> digit_byte (hd rest)"
  by (auto simp: stops_def space_def digit_byte_def)

lemma eats_INT_PART:
  assumes "int_text i t" "stops rest"
  shows "eats PARSER_INT_PART t rest quiet"
proof -
  let ?p = "comb_one_of [parser_char (ch CHR ''0''),
      comb_sequence [parser_char_range (ch CHR ''1'') (ch CHR ''9''), comb_zero_or_more PARSER_DIGIT]]"
  from assms(1) obtain ds where ds: "digits_text ds" "t = ds \<or> t = MINUS # ds" by (auto simp: int_text_def)
  have p: "eats (comb_sequence [?p]) ds rest quiet"
    by (intro eats_last eats_digits_text ds stops_no_digit assms(2))
  from ds(2) show ?thesis
  proof
    assume t: "t = ds"
    have "hd ds \<noteq> MINUS" using ds(1) by (cases ds) (auto simp: digits_text_def digit_byte_def)
    then have "eats (comb_maybe (parser_char (ch CHR ''-''))) [] (ds @ rest) quiet"
      using ds(1) by (intro eats_maybe_not rejects_char) (auto simp: digits_text_def)
    from eats_then [OF this p] t show ?thesis by (simp add: PARSER_INT_PART_def)
  next
    assume t: "t = MINUS # ds"
    have "eats (comb_maybe (parser_char (ch CHR ''-''))) [MINUS] (ds @ rest) quiet"
      using eats_maybe [OF eats_char [of "ch CHR ''-''"]] by simp
    from eats_then [OF this p] t show ?thesis by (simp add: PARSER_INT_PART_def)
  qed
qed

lemma rejects_FRAC_PART: "stops rest \<Longrightarrow> rejects PARSER_FRAC_PART rest"
  unfolding PARSER_FRAC_PART_def
  by (intro rejects_sequence_here rejects_char) (auto simp: stops_def space_def)

lemma rejects_EXPONENT: "stops rest \<Longrightarrow> rejects PARSER_EXPONENT rest"
  unfolding PARSER_EXPONENT_def
  by (intro rejects_sequence_here rejects_one_of) (auto simp: stops_def space_def intro!: rejects_char)

lemma eats_NUMBER:
  assumes "int_text i t" "stops rest"
  shows "eats PARSER_JSON_NUMBER t rest (noted JSON_TYPE_NUMBER 0 (length t) 0)"
proof -
  have "eats (comb_sequence [PARSER_INT_PART, comb_maybe PARSER_FRAC_PART, comb_maybe PARSER_EXPONENT]) (t @ [] @ []) rest quiet"
    using assms by (intro eats_then eats_last eats_INT_PART eats_maybe_not rejects_FRAC_PART rejects_EXPONENT) simp_all
  then show ?thesis unfolding PARSER_JSON_NUMBER_def by (intro eats_result_val) (simp add: counted_0)
qed

lemma rejects_NUMBER:
  assumes "xs = [] \<or> hd xs \<noteq> MINUS \<and> \<not> digit_byte (hd xs)"
  shows "rejects PARSER_JSON_NUMBER xs"
proof -
  have "rejects (comb_one_of [parser_char (ch CHR ''0''),
      comb_sequence [parser_char_range (ch CHR ''1'') (ch CHR ''9''), comb_zero_or_more PARSER_DIGIT]]) xs"
  proof (rule rejects_one_of)
    fix p assume "p \<in> set [parser_char (ch CHR ''0''),
      comb_sequence [parser_char_range (ch CHR ''1'') (ch CHR ''9''), comb_zero_or_more PARSER_DIGIT]]"
    moreover have "\<not> (0x31 \<le> hd xs \<and> hd xs \<le> 0x39)" if "\<not> digit_byte (hd xs)"
      using that by (auto simp: digit_byte_def intro: order_trans [of _ "0x31"])
    ultimately show "rejects p xs" using assms
      by (auto simp: digit_byte_def intro!: rejects_char rejects_sequence_here rejects_char_range)
  qed
  then have "rejects PARSER_INT_PART ([] @ xs)" unfolding PARSER_INT_PART_def
    using assms by (intro rejects_sequence_there eats_maybe_not rejects_sequence_here rejects_char) auto
  then show ?thesis unfolding PARSER_JSON_NUMBER_def by (intro rejects_result_val rejects_sequence_here) simp
qed

lemma eats_literals:
  "eats PARSER_JSON_TRUE (GGL_STR ''true'') rest (noted JSON_TYPE_TRUE 0 (length (GGL_STR ''true'')) 0)"
  "eats PARSER_JSON_FALSE (GGL_STR ''false'') rest (noted JSON_TYPE_FALSE 0 (length (GGL_STR ''false'')) 0)"
  "eats PARSER_JSON_NULL (GGL_STR ''null'') rest (noted JSON_TYPE_NULL 0 (length (GGL_STR ''null'')) 0)"
  unfolding PARSER_JSON_TRUE_def PARSER_JSON_FALSE_def PARSER_JSON_NULL_def
  by (rule eats_result_val, simp only: counted_0, rule eats_str)+

lemma rejects_literals:
  "xs = [] \<or> hd xs \<noteq> ch CHR ''t'' \<Longrightarrow> rejects PARSER_JSON_TRUE xs"
  "xs = [] \<or> hd xs \<noteq> ch CHR ''f'' \<Longrightarrow> rejects PARSER_JSON_FALSE xs"
  "xs = [] \<or> hd xs \<noteq> ch CHR ''n'' \<Longrightarrow> rejects PARSER_JSON_NULL xs"
  unfolding PARSER_JSON_TRUE_def PARSER_JSON_FALSE_def PARSER_JSON_NULL_def GGL_STR_def list.map
  by (intro rejects_result_val rejects_str; simp)+

lemma rejects_OBJECT: "xs = [] \<or> hd xs \<noteq> ch CHR ''{'' \<Longrightarrow> rejects (PARSER_JSON_OBJECT val) xs"
  unfolding PARSER_JSON_OBJECT_def by (intro rejects_sequence_here rejects_char)

lemma rejects_ARRAY: "xs = [] \<or> hd xs \<noteq> ch CHR ''['' \<Longrightarrow> rejects (PARSER_JSON_ARRAY val) xs"
  unfolding PARSER_JSON_ARRAY_def by (intro rejects_sequence_here rejects_char)

lemma rejects_VALUE:
  assumes "xs = [] \<or> hd xs = ch CHR '']'' \<or> hd xs = ch CHR ''}''"
  shows "rejects (PARSER_JSON_VALUE (Suc n)) xs"
proof -
  have "rejects (comb_one_of (value_parsers (PARSER_JSON_VALUE n))) xs"
    using assms by (intro rejects_one_of)
      (auto simp: value_parsers_def digit_byte_def intro!: rejects_STR rejects_NUMBER rejects_OBJECT rejects_ARRAY rejects_literals)
  then have "rejects (comb_sequence [PARSER_JSON_WHITESPACE, comb_one_of (value_parsers (PARSER_JSON_VALUE n)), PARSER_JSON_WHITESPACE]) ([] @ xs)"
    using assms by (intro rejects_sequence_there eats_WHITESPACE rejects_sequence_here) (auto simp: spaces_def space_def)
  then show ?thesis by (simp add: rejects_def)
qed

subsection \<open>Values\<close>

fun kind :: "GglObject \<Rightarrow> JsonType" where
  "kind OBJ_NULL = JSON_TYPE_NULL"
| "kind (OBJ_BOOL b) = (if b then JSON_TYPE_TRUE else JSON_TYPE_FALSE)"
| "kind (OBJ_I64 i) = JSON_TYPE_NUMBER"
| "kind (OBJ_F64 d) = JSON_TYPE_NUMBER"
| "kind (OBJ_BUF s) = JSON_TYPE_STR"
| "kind (OBJ_LIST xs) = JSON_TYPE_ARRAY"
| "kind (OBJ_MAP kvs) = JSON_TYPE_OBJECT"

fun items_of :: "GglObject \<Rightarrow> nat" where
  "items_of (OBJ_LIST xs) = length xs"
| "items_of (OBJ_MAP kvs) = length kvs"
| "items_of _ = 0"

text \<open>The part of a text that the parser reports as the content.\<close>

fun body :: "GglObject \<Rightarrow> buffer \<Rightarrow> bool" where
  "body (OBJ_BUF s) u \<longleftrightarrow> chars_text s u"
| "body (OBJ_I64 i) u \<longleftrightarrow> int_text (sint i) u"
| "body (OBJ_LIST xs) u \<longleftrightarrow> xs = [] \<and> u = [] \<or> items_text xs u"
| "body (OBJ_MAP kvs) u \<longleftrightarrow> kvs = [] \<and> u = [] \<or> pairs_text kvs u"
| "body (OBJ_F64 d) u \<longleftrightarrow> False"
| "body _ u \<longleftrightarrow> True"

definition eaten :: "nat \<Rightarrow> GglObject \<Rightarrow> buffer \<Rightarrow> bool" where
  "eaten n v t \<longleftrightarrow> (\<exists>pre u post. t = pre @ u @ post \<and> body v u \<and> (\<forall>rest. stops rest \<longrightarrow>
     eats (comb_one_of (value_parsers (PARSER_JSON_VALUE n))) t rest (noted (kind v) (length pre) (length u) (items_of v))))"

lemma eatenI:
  assumes "t = pre @ u @ post" "body v u"
    and "\<And>rest. stops rest \<Longrightarrow>
      eats (comb_one_of (value_parsers (PARSER_JSON_VALUE n))) t rest (noted (kind v) (length pre) (length u) (items_of v))"
  shows "eaten n v t"
  using assms unfolding eaten_def by blast

definition opens :: "buffer \<Rightarrow> bool" where
  "opens t \<longleftrightarrow> t \<noteq> [] \<and> \<not> space (hd t)"

text \<open>A value with white space around it.\<close>

lemma eats_VALUE:
  assumes "eaten n v t" "opens t" "spaces a" "spaces b" "stops rest" "rest = [] \<or> \<not> space (hd rest)"
  obtains pre u post where "t = pre @ u @ post" "body v u"
    "eats (PARSER_JSON_VALUE (Suc n)) (a @ t @ b) rest (noted (kind v) (length a + length pre) (length u) (items_of v))"
proof -
  have "stops (b @ rest)" using assms(4,5) by (cases b) (auto simp: spaces_def stops_def)
  with assms(1) obtain pre u post where t: "t = pre @ u @ post" "body v u"
    "eats (comb_one_of (value_parsers (PARSER_JSON_VALUE n))) t (b @ rest) (noted (kind v) (length pre) (length u) (items_of v))"
    unfolding eaten_def by blast
  have "eats (comb_sequence [comb_one_of (value_parsers (PARSER_JSON_VALUE n)), PARSER_JSON_WHITESPACE]) (t @ b) rest
      (noted (kind v) (length pre) (length u) (items_of v))"
    by (intro eats_then t(3) eats_last eats_WHITESPACE assms)
  moreover have "eats PARSER_JSON_WHITESPACE a ((t @ b) @ rest) quiet"
    using assms(2,3) by (intro eats_WHITESPACE) (auto simp: opens_def)
  ultimately have "eats (comb_sequence [PARSER_JSON_WHITESPACE, comb_one_of (value_parsers (PARSER_JSON_VALUE n)), PARSER_JSON_WHITESPACE])
      (a @ t @ b) rest (noted (kind v) (length a + length pre) (length u) (items_of v))"
    by (rule eats_skip [rotated])
  then have "eats (PARSER_JSON_VALUE (Suc n)) (a @ t @ b) rest (noted (kind v) (length a + length pre) (length u) (items_of v))"
    by (simp add: eats_def)
  with t that show thesis by blast
qed

lemma eats_ELEM:
  assumes "eaten n v t" "opens t" "spaces a" "spaces b" "stops rest" "rest = [] \<or> \<not> space (hd rest)"
  shows "eats (PARSER_JSON_ARRAY_ELEM (PARSER_JSON_VALUE (Suc n))) (a @ t @ b) rest quiet"
  unfolding PARSER_JSON_ARRAY_ELEM_def by (rule eats_VALUE [OF assms]) (rule eats_nested)

lemma eats_KV:
  assumes "chars_text k s" "spaces w1" "eaten n v t" "opens t" "spaces w2" "spaces w" "stops rest" "rest = [] \<or> \<not> space (hd rest)"
  shows "eats (PARSER_JSON_OBJECT_KV (PARSER_JSON_VALUE (Suc n))) (QUOTE # s @ QUOTE # w1 @ ch CHR '':'' # w2 @ t @ w) rest quiet"
proof -
  obtain f where "eats (PARSER_JSON_VALUE (Suc n)) (w2 @ t @ w) rest f"
    using eats_VALUE [OF assms(3,4,5,6,7,8)] by blast
  then have "eats (comb_sequence [parser_char (ch CHR '':''), PARSER_JSON_VALUE (Suc n)]) ([ch CHR '':''] @ w2 @ t @ w) rest
      (\<lambda>buf out. f (advance (length [ch CHR '':'' :: byte]) buf) (quiet buf out))"
    by (intro eats_sequence_Cons eats_char eats_last)
  moreover have "eats PARSER_JSON_WHITESPACE w1 (([ch CHR '':''] @ w2 @ t @ w) @ rest) quiet"
    using assms(2) by (intro eats_WHITESPACE) (auto simp: space_def)
  ultimately obtain g where "eats (comb_sequence [PARSER_JSON_WHITESPACE, parser_char (ch CHR '':''), PARSER_JSON_VALUE (Suc n)])
      (w1 @ [ch CHR '':''] @ w2 @ t @ w) rest g"
    using eats_sequence_Cons by blast
  from eats_sequence_Cons [OF eats_STR [OF assms(1)] this] show ?thesis
    unfolding PARSER_JSON_OBJECT_KV_def by (intro eats_nested) simp
qed

definition commas_parser :: "Parser \<Rightarrow> Parser list \<Rightarrow> Parser" where
  "commas_parser p ps = comb_zero_or_more (comb_increment_count (comb_sequence (p # parser_char (ch CHR '','') # ps)))"

lemma eats_commas_none:
  assumes "eats p xs rest quiet" "rest = [] \<or> hd rest \<noteq> ch CHR '',''"
  shows "eats (commas_parser p ps) [] (xs @ rest) quiet"
  unfolding commas_parser_def
  using assms by (intro eats_zero rejects_increment_count rejects_sequence_there rejects_sequence_here rejects_char)

lemma eats_commas_more:
  assumes "eats p xs (ch CHR '','' # w @ ys @ rest) quiet" "eats (comb_sequence ps) w (ys @ rest) quiet"
    and "eats (commas_parser p ps) ys rest (counted n)"
  shows "eats (commas_parser p ps) (xs @ ch CHR '','' # w @ ys) rest (counted (Suc n))"
proof -
  have "eats (comb_sequence (p # parser_char (ch CHR '','') # ps)) (xs @ [ch CHR '',''] @ w) (ys @ rest) quiet"
    using assms(1,2) by (intro eats_then eats_char) simp_all
  then have "eats (comb_increment_count (comb_sequence (p # parser_char (ch CHR '','') # ps))) (xs @ [ch CHR '',''] @ w) (ys @ rest) (counted 1)"
    by (rule eats_increment_count)
  from eats_more [OF this assms(3) [unfolded commas_parser_def]] show ?thesis
    unfolding commas_parser_def by (simp add: counted_counted)
qed

text \<open>A text of items: all but the last with their commas, and the last.\<close>

definition eaten_items :: "nat \<Rightarrow> nat \<Rightarrow> buffer \<Rightarrow> bool" where
  "eaten_items n k u \<longleftrightarrow> (\<forall>w rest. spaces w \<longrightarrow> (\<exists>ts l. w @ u = ts @ l \<and>
     eats (commas_parser (PARSER_JSON_ARRAY_ELEM (PARSER_JSON_VALUE n)) []) ts (l @ ch CHR '']'' # rest) (counted (k - 1)) \<and>
     eats (PARSER_JSON_ARRAY_ELEM (PARSER_JSON_VALUE n)) l (ch CHR '']'' # rest) quiet))"

lemma spaces_Nil: "spaces []"
  by (simp add: spaces_def)

definition eaten_pairs :: "nat \<Rightarrow> nat \<Rightarrow> buffer \<Rightarrow> bool" where
  "eaten_pairs n k u \<longleftrightarrow> (\<forall>rest. \<exists>ts l. u = ts @ l \<and>
     eats (commas_parser (PARSER_JSON_OBJECT_KV (PARSER_JSON_VALUE n)) [PARSER_JSON_WHITESPACE]) ts (l @ ch CHR ''}'' # rest) (counted (k - 1)) \<and>
     eats (PARSER_JSON_OBJECT_KV (PARSER_JSON_VALUE n)) l (ch CHR ''}'' # rest) quiet)"

lemma bracket_stops [simp]:
  "stops (0x5D # rest)" "stops (0x7D # rest)" "stops (0x2C # rest)" "\<not> space 0x5D" "\<not> space 0x7D" "\<not> space 0x2C"
  by (simp_all add: stops_def space_def)

lemma eats_bracketed:
  assumes "spaces w" "0 < k" "opens (t @ [b])"
    and "eats (commas_parser p ps) ts (l @ b # rest) (counted (k - 1))" "eats p l (b # rest) quiet" "t = ts @ l"
  shows "eats (comb_sequence [parser_char a, PARSER_JSON_WHITESPACE, comb_result_val ty (comb_maybe (comb_sequence
    [commas_parser p ps, comb_increment_count p])), parser_char b]) (a # w @ t @ [b]) rest (noted ty (1 + length w) (length t) k)"
proof -
  have "eats (comb_sequence [commas_parser p ps, comb_increment_count p]) (ts @ l) (b # rest) (counted k)"
    using eats_sequence_Cons [OF assms(4) eats_last [OF eats_increment_count [OF assms(5)]]] assms(2)
    by (simp add: counted_counted)
  then have rv: "eats (comb_result_val ty (comb_maybe (comb_sequence [commas_parser p ps, comb_increment_count p]))) t (b # rest)
      (noted ty 0 (length t) k)"
    using assms(6) by (intro eats_result_val eats_maybe) simp
  then have "eats (comb_sequence [comb_result_val ty (comb_maybe (comb_sequence [commas_parser p ps, comb_increment_count p])),
      parser_char b]) (t @ [b]) rest (noted ty 0 (length t) k)"
    by (intro eats_then eats_last eats_char) simp
  moreover have "eats PARSER_JSON_WHITESPACE w ((t @ [b]) @ rest) quiet"
    using assms(1,3) by (intro eats_WHITESPACE) (cases t; simp add: opens_def)+
  ultimately have "eats (comb_sequence [PARSER_JSON_WHITESPACE, comb_result_val ty (comb_maybe (comb_sequence
      [commas_parser p ps, comb_increment_count p])), parser_char b]) (w @ t @ [b]) rest (noted ty (length w + 0) (length t) k)"
    by (rule eats_skip [rotated])
  from eats_skip [OF eats_char [of a] this] show ?thesis by simp
qed

lemma eats_empty_bracket:
  assumes "spaces w" "\<not> space b" "rejects p (b # rest)"
  shows "eats (comb_sequence [parser_char a, PARSER_JSON_WHITESPACE, comb_result_val ty (comb_maybe (comb_sequence
    [commas_parser p ps, comb_increment_count p])), parser_char b]) (a # w @ [b]) rest (noted ty (1 + length w) 0 0)"
proof -
  have "eats (commas_parser p ps) [] (b # rest) quiet" unfolding commas_parser_def
    by (intro eats_zero rejects_increment_count rejects_sequence_here assms)
  then have "rejects (comb_sequence [commas_parser p ps, comb_increment_count p]) ([] @ b # rest)"
    by (intro rejects_sequence_there rejects_sequence_here rejects_increment_count assms)
  then have "eats (comb_result_val ty (comb_maybe (comb_sequence [commas_parser p ps, comb_increment_count p]))) [] (b # rest)
      (noted ty 0 (length ([] :: buffer)) 0)"
    by (intro eats_result_val) (simp add: counted_0 eats_maybe_not)
  then have "eats (comb_sequence [comb_result_val ty (comb_maybe (comb_sequence [commas_parser p ps, comb_increment_count p])),
      parser_char b]) ([] @ [b]) rest (noted ty 0 0 0)"
    by (intro eats_then eats_last eats_char) simp
  moreover have "eats PARSER_JSON_WHITESPACE w (([] @ [b]) @ rest) quiet"
    using assms(1,2) by (intro eats_WHITESPACE) auto
  ultimately have "eats (comb_sequence [PARSER_JSON_WHITESPACE, comb_result_val ty (comb_maybe (comb_sequence
      [commas_parser p ps, comb_increment_count p])), parser_char b]) (w @ [] @ [b]) rest (noted ty (length w + 0) 0 0)"
    by (rule eats_skip [rotated])
  from eats_skip [OF eats_char [of a] this] show ?thesis by simp
qed

lemma ARRAY_brackets:
  "PARSER_JSON_ARRAY val = comb_sequence [parser_char (ch CHR ''[''), PARSER_JSON_WHITESPACE,
     comb_result_val JSON_TYPE_ARRAY (comb_maybe (comb_sequence
       [commas_parser (PARSER_JSON_ARRAY_ELEM val) [], comb_increment_count (PARSER_JSON_ARRAY_ELEM val)])), parser_char (ch CHR '']'')]"
  by (simp add: PARSER_JSON_ARRAY_def commas_parser_def)

lemma OBJECT_brackets:
  "PARSER_JSON_OBJECT val = comb_sequence [parser_char (ch CHR ''{''), PARSER_JSON_WHITESPACE,
     comb_result_val JSON_TYPE_OBJECT (comb_maybe (comb_sequence
       [commas_parser (PARSER_JSON_OBJECT_KV val) [PARSER_JSON_WHITESPACE], comb_increment_count (PARSER_JSON_OBJECT_KV val)])),
     parser_char (ch CHR ''}'')]"
  by (simp add: PARSER_JSON_OBJECT_def commas_parser_def)

text \<open>Which of the parsers of values is for a text is told by its first byte.\<close>

lemma eats_array_value:
  assumes "eats (PARSER_JSON_ARRAY val) (ch CHR ''['' # t) rest f"
  shows "eats (comb_one_of (value_parsers val)) (ch CHR ''['' # t) rest f"
  unfolding value_parsers_def using assms
  by (intro eats_one_of_there [OF rejects_STR] eats_one_of_there [OF rejects_NUMBER] eats_one_of_there [OF rejects_OBJECT]
      eats_one_of_here) (auto simp: digit_byte_def)

lemma eats_object_value:
  assumes "eats (PARSER_JSON_OBJECT val) (ch CHR ''{'' # t) rest f"
  shows "eats (comb_one_of (value_parsers val)) (ch CHR ''{'' # t) rest f"
  unfolding value_parsers_def using assms
  by (intro eats_one_of_there [OF rejects_STR] eats_one_of_there [OF rejects_NUMBER] eats_one_of_here) (auto simp: digit_byte_def)

lemma eaten_array:
  assumes "spaces w" "items_text xs t" "xs \<noteq> []" "opens t" "eaten_items n (length xs) t"
  shows "eaten n (OBJ_LIST xs) (ch CHR ''['' # w @ t @ [ch CHR '']''])"
proof (rule eatenI [where pre = "ch CHR ''['' # w" and u = t and post = "[ch CHR '']'']"])
  fix rest
  from assms(5) obtain ts l where ts: "t = ts @ l"
    "eats (commas_parser (PARSER_JSON_ARRAY_ELEM (PARSER_JSON_VALUE n)) []) ts (l @ ch CHR '']'' # rest) (counted (length xs - 1))"
    "eats (PARSER_JSON_ARRAY_ELEM (PARSER_JSON_VALUE n)) l (ch CHR '']'' # rest) quiet"
    unfolding eaten_items_def using spaces_Nil by (metis append_Nil)
  have "eats (PARSER_JSON_ARRAY (PARSER_JSON_VALUE n)) (ch CHR ''['' # w @ t @ [ch CHR '']'']) rest
      (noted JSON_TYPE_ARRAY (1 + length w) (length t) (length xs))"
    unfolding ARRAY_brackets
    by (rule eats_bracketed [OF assms(1) _ _ ts(2,3,1)]) (use assms(3,4) in \<open>auto simp: opens_def\<close>)
  then show "eats (comb_one_of (value_parsers (PARSER_JSON_VALUE n))) (ch CHR ''['' # w @ t @ [ch CHR '']'']) rest
      (noted (kind (OBJ_LIST xs)) (length (ch CHR ''['' # w)) (length t) (items_of (OBJ_LIST xs)))"
    by (intro eats_array_value) simp
qed (use assms in simp_all)

lemma eaten_object:
  assumes "spaces w" "pairs_text kvs t" "kvs \<noteq> []" "opens t" "eaten_pairs n (length kvs) t"
  shows "eaten n (OBJ_MAP kvs) (ch CHR ''{'' # w @ t @ [ch CHR ''}''])"
proof (rule eatenI [where pre = "ch CHR ''{'' # w" and u = t and post = "[ch CHR ''}'']"])
  fix rest
  from assms(5) obtain ts l where ts: "t = ts @ l"
    "eats (commas_parser (PARSER_JSON_OBJECT_KV (PARSER_JSON_VALUE n)) [PARSER_JSON_WHITESPACE]) ts (l @ ch CHR ''}'' # rest) (counted (length kvs - 1))"
    "eats (PARSER_JSON_OBJECT_KV (PARSER_JSON_VALUE n)) l (ch CHR ''}'' # rest) quiet"
    unfolding eaten_pairs_def by blast
  have "eats (PARSER_JSON_OBJECT (PARSER_JSON_VALUE n)) (ch CHR ''{'' # w @ t @ [ch CHR ''}'']) rest
      (noted JSON_TYPE_OBJECT (1 + length w) (length t) (length kvs))"
    unfolding OBJECT_brackets
    by (rule eats_bracketed [OF assms(1) _ _ ts(2,3,1)]) (use assms(3,4) in \<open>auto simp: opens_def\<close>)
  then show "eats (comb_one_of (value_parsers (PARSER_JSON_VALUE n))) (ch CHR ''{'' # w @ t @ [ch CHR ''}'']) rest
      (noted (kind (OBJ_MAP kvs)) (length (ch CHR ''{'' # w)) (length t) (items_of (OBJ_MAP kvs)))"
    by (intro eats_object_value) simp
qed (use assms in simp_all)

lemma eaten_empty:
  assumes "spaces w"
  shows "eaten (Suc n) (OBJ_LIST []) (ch CHR ''['' # w @ [ch CHR '']''])"
    and "eaten (Suc n) (OBJ_MAP []) (ch CHR ''{'' # w @ [ch CHR ''}''])"
proof -
  have "eats (PARSER_JSON_ARRAY (PARSER_JSON_VALUE (Suc n))) (ch CHR ''['' # w @ [ch CHR '']'']) rest (noted JSON_TYPE_ARRAY (1 + length w) 0 0)" for rest
    unfolding ARRAY_brackets PARSER_JSON_ARRAY_ELEM_def
    by (intro eats_empty_bracket assms rejects_nested rejects_VALUE) (simp_all add: space_def)
  then show "eaten (Suc n) (OBJ_LIST []) (ch CHR ''['' # w @ [ch CHR '']''])"
    by (intro eatenI [where pre = "ch CHR ''['' # w" and u = "[]" and post = "[ch CHR '']'']"])
       (simp_all add: eats_array_value [simplified])
  have "eats (PARSER_JSON_OBJECT (PARSER_JSON_VALUE (Suc n))) (ch CHR ''{'' # w @ [ch CHR ''}'']) rest (noted JSON_TYPE_OBJECT (1 + length w) 0 0)" for rest
    unfolding OBJECT_brackets PARSER_JSON_OBJECT_KV_def
    by (intro eats_empty_bracket assms rejects_nested rejects_sequence_here rejects_STR) (simp_all add: space_def)
  then show "eaten (Suc n) (OBJ_MAP []) (ch CHR ''{'' # w @ [ch CHR ''}''])"
    by (intro eatenI [where pre = "ch CHR ''{'' # w" and u = "[]" and post = "[ch CHR ''}'']"])
       (simp_all add: eats_object_value [simplified])
qed

lemma digits_first: "digits_text ds \<Longrightarrow> ds \<noteq> [] \<and> digit_byte (hd ds)"
  by (cases ds) (auto simp: digits_text_def)

lemma int_text_first: "int_text i t \<Longrightarrow> t \<noteq> [] \<and> (hd t = MINUS \<or> digit_byte (hd t))"
  using digits_first by (auto simp: int_text_def)

lemma digit_byte_chars:
  "digit_byte c \<Longrightarrow> \<not> space c" "digit_byte c \<Longrightarrow> c \<noteq> QUOTE" "\<not> space MINUS"
  by (auto simp: digit_byte_def space_def)

lemma eaten_scalars:
  "eaten n OBJ_NULL (GGL_STR ''null'')" "eaten n (OBJ_BOOL True) (GGL_STR ''true'')"
  "eaten n (OBJ_BOOL False) (GGL_STR ''false'')"
  "int_text (sint i) t \<Longrightarrow> eaten n (OBJ_I64 i) t" "chars_text s t \<Longrightarrow> eaten n (OBJ_BUF s) (QUOTE # t @ [QUOTE])"
proof -
  note there = eats_one_of_there [OF rejects_STR] eats_one_of_there [OF rejects_NUMBER] eats_one_of_there [OF rejects_OBJECT]
    eats_one_of_there [OF rejects_ARRAY] eats_one_of_there [OF rejects_literals(1)] eats_one_of_there [OF rejects_literals(2)]
  show "eaten n OBJ_NULL (GGL_STR ''null'')"
    by (rule eatenI [where pre = "[]" and u = "GGL_STR ''null''" and post = "[]"], simp_all only: append_Nil append_Nil2 body.simps
        kind.simps items_of.simps list.size value_parsers_def, intro there eats_one_of_here eats_literals)
       (simp_all add: GGL_STR_def digit_byte_def)
  show "eaten n (OBJ_BOOL True) (GGL_STR ''true'')"
    by (rule eatenI [where pre = "[]" and u = "GGL_STR ''true''" and post = "[]"], simp_all only: append_Nil append_Nil2 body.simps
        kind.simps items_of.simps list.size value_parsers_def if_True, intro there(1-4) eats_one_of_here eats_literals)
       (simp_all add: GGL_STR_def digit_byte_def)
  show "eaten n (OBJ_BOOL False) (GGL_STR ''false'')"
    by (rule eatenI [where pre = "[]" and u = "GGL_STR ''false''" and post = "[]"], simp_all only: append_Nil append_Nil2 body.simps
        kind.simps items_of.simps list.size value_parsers_def if_False, intro there(1-5) eats_one_of_here eats_literals)
       (simp_all add: GGL_STR_def digit_byte_def)
  show "eaten n (OBJ_I64 i) t" if t: "int_text (sint i) t"
  proof (rule eatenI [where pre = "[]" and u = t and post = "[]"])
    fix rest assume "stops rest"
    then show "eats (comb_one_of (value_parsers (PARSER_JSON_VALUE n))) t rest (noted (kind (OBJ_I64 i)) (length []) (length t) (items_of (OBJ_I64 i)))"
      using eats_NUMBER [OF t] int_text_first [OF t] unfolding value_parsers_def
      by (intro there(1) eats_one_of_here) (auto dest: digit_byte_chars(2))
  qed (use t in simp_all)
  show "eaten n (OBJ_BUF s) (QUOTE # t @ [QUOTE])" if t: "chars_text s t"
  proof (rule eatenI [where pre = "[QUOTE]" and u = t and post = "[QUOTE]"])
    fix rest
    show "eats (comb_one_of (value_parsers (PARSER_JSON_VALUE n))) (QUOTE # t @ [QUOTE]) rest
      (noted (kind (OBJ_BUF s)) (length [QUOTE]) (length t) (items_of (OBJ_BUF s)))"
      using eats_STR [OF t] unfolding value_parsers_def by (intro eats_one_of_here) simp
  qed (use t in simp_all)
qed

lemma int_text_opens: "int_text i t \<Longrightarrow> opens t"
  using int_text_first [of i t] digit_byte_chars(1) [of "hd t"] digit_byte_chars(3) by (auto simp: opens_def)

lemma nesting_list: "nesting (OBJ_LIST xs) \<le> n \<longleftrightarrow> (\<exists>m. n = Suc m \<and> (\<forall>x\<in>set xs. nesting x \<le> m))"
  by (cases n) auto

lemma nesting_map: "nesting (OBJ_MAP kvs) \<le> n \<longleftrightarrow> (\<exists>m. n = Suc m \<and> (\<forall>kv\<in>set kvs. nesting (snd kv) \<le> m))"
  by (cases n) auto

lemma opens_append [simp]: "opens t \<Longrightarrow> opens (t @ u)"
  by (cases t) (auto simp: opens_def)

lemma opens_chars [simp]: "opens (QUOTE # t)" "opens (ch CHR ''['' # t)" "opens (ch CHR ''{'' # t)"
  by (simp_all add: opens_def space_def)

lemma literal_opens: "opens (GGL_STR ''null'')" "opens (GGL_STR ''true'')" "opens (GGL_STR ''false'')"
  by (simp_all add: opens_def GGL_STR_def space_def)

text \<open>Every text of an object is eaten by the parser of values.\<close>

lemma text_eaten:
  "value_text v t \<Longrightarrow> opens t \<and> (\<forall>n. nesting v \<le> n \<longrightarrow> eaten n v t)"
  "items_text xs u \<Longrightarrow> xs \<noteq> [] \<and> opens u \<and> (\<forall>n. (\<forall>x\<in>set xs. nesting x \<le> n) \<longrightarrow> eaten_items (Suc n) (length xs) u)"
  "pairs_text kvs u' \<Longrightarrow> kvs \<noteq> [] \<and> opens u' \<and> (\<forall>n. (\<forall>kv\<in>set kvs. nesting (snd kv) \<le> n) \<longrightarrow> eaten_pairs (Suc n) (length kvs) u')"
proof (induction rule: value_text_items_text_pairs_text.inducts)
  case (list_text w xs t)
  have "eaten n (OBJ_LIST xs) (ch CHR ''['' # w @ t @ [ch CHR '']''])" if "nesting (OBJ_LIST xs) \<le> n" for n
  proof -
    from that obtain m where m: "n = Suc m" "\<forall>x\<in>set xs. nesting x \<le> m" unfolding nesting_list by blast
    show ?thesis unfolding m(1) by (rule eaten_array) (use list_text m(2) in auto)
  qed
  then show ?case by (simp add: opens_def space_def)
next
  case (map_text w kvs t)
  have "eaten n (OBJ_MAP kvs) (ch CHR ''{'' # w @ t @ [ch CHR ''}''])" if "nesting (OBJ_MAP kvs) \<le> n" for n
  proof -
    from that obtain m where m: "n = Suc m" "\<forall>kv\<in>set kvs. nesting (snd kv) \<le> m" unfolding nesting_map by blast
    show ?thesis unfolding m(1) by (rule eaten_object) (use map_text m(2) in auto)
  qed
  then show ?case by (simp add: opens_def space_def)
next
  case (empty_list_text w)
  have "eaten n (OBJ_LIST []) (ch CHR ''['' # w @ [ch CHR '']''])" if "nesting (OBJ_LIST []) \<le> n" for n
  proof -
    from that obtain m where m: "n = Suc m" "True" unfolding nesting_list by blast
    show ?thesis unfolding m(1) by (rule eaten_empty) (use empty_list_text m(2) in auto)
  qed
  then show ?case by (simp add: opens_def space_def)
next
  case (empty_map_text w)
  have "eaten n (OBJ_MAP []) (ch CHR ''{'' # w @ [ch CHR ''}''])" if "nesting (OBJ_MAP []) \<le> n" for n
  proof -
    from that obtain m where m: "n = Suc m" "True" unfolding nesting_map by blast
    show ?thesis unfolding m(1) by (rule eaten_empty) (use empty_map_text m(2) in auto)
  qed
  then show ?case by (simp add: opens_def space_def)
next
  case (last_item x t w)
  have "eaten_items (Suc n) 1 (t @ w)" if "nesting x \<le> n" for n
    unfolding eaten_items_def
  proof (intro allI impI)
    fix w' rest assume w': "spaces w'"
    have e: "eats (PARSER_JSON_ARRAY_ELEM (PARSER_JSON_VALUE (Suc n))) (w' @ t @ w) (ch CHR '']'' # rest) quiet"
      using last_item w' that by (intro eats_ELEM) auto
    then have "eats (commas_parser (PARSER_JSON_ARRAY_ELEM (PARSER_JSON_VALUE (Suc n))) []) [] ((w' @ t @ w) @ ch CHR '']'' # rest) quiet"
      by (rule eats_commas_none) simp
    with e show "\<exists>ts l. w' @ t @ w = ts @ l \<and>
        eats (commas_parser (PARSER_JSON_ARRAY_ELEM (PARSER_JSON_VALUE (Suc n))) []) ts (l @ ch CHR '']'' # rest) (counted (1 - 1)) \<and>
        eats (PARSER_JSON_ARRAY_ELEM (PARSER_JSON_VALUE (Suc n))) l (ch CHR '']'' # rest) quiet"
      by (intro exI [of _ "[]"] exI [of _ "w' @ t @ w"]) (simp add: counted_0)
  qed
  with last_item show ?case by simp
next
  case (more_items x t w w' xs u)
  have "eaten_items (Suc n) (length (x # xs)) (t @ w @ ch CHR '','' # w' @ u)" if n: "\<forall>y\<in>set (x # xs). nesting y \<le> n" for n
    unfolding eaten_items_def
  proof (intro allI impI)
    fix a rest assume a: "spaces a"
    let ?E = "PARSER_JSON_ARRAY_ELEM (PARSER_JSON_VALUE (Suc n))"
    have "eaten_items (Suc n) (length xs) u" using more_items n by simp
    with more_items.hyps obtain ts l where ts: "w' @ u = ts @ l" "eats (commas_parser ?E []) ts (l @ ch CHR '']'' # rest) (counted (length xs - 1))"
      "eats ?E l (ch CHR '']'' # rest) quiet" unfolding eaten_items_def by blast
    have "eats ?E (a @ t @ w) (ch CHR '','' # [] @ ts @ l @ ch CHR '']'' # rest) quiet"
      using more_items a n by (intro eats_ELEM) auto
    from eats_commas_more [OF this eats_sequence_Nil ts(2)] more_items.IH ts show "\<exists>ts l. a @ t @ w @ ch CHR '','' # w' @ u = ts @ l \<and>
        eats (commas_parser ?E []) ts (l @ ch CHR '']'' # rest) (counted (length (x # xs) - 1)) \<and>
        eats ?E l (ch CHR '']'' # rest) quiet"
      by (intro exI [of _ "(a @ t @ w) @ ch CHR '','' # ts"] exI [of _ l]) (auto simp: Suc_diff_1)
  qed
  with more_items show ?case by simp
next
  case (last_pair k s w1 w2 v t w)
  let ?u = "QUOTE # s @ QUOTE # w1 @ ch CHR '':'' # w2 @ t @ w"
  have "eaten_pairs (Suc n) 1 ?u" if "nesting v \<le> n" for n
    unfolding eaten_pairs_def
  proof
    fix rest
    let ?K = "PARSER_JSON_OBJECT_KV (PARSER_JSON_VALUE (Suc n))"
    have e: "eats ?K ?u (ch CHR ''}'' # rest) quiet" using last_pair that by (intro eats_KV) auto
    then have "eats (commas_parser ?K [PARSER_JSON_WHITESPACE]) [] (?u @ ch CHR ''}'' # rest) quiet"
      by (rule eats_commas_none) simp
    with e show "\<exists>ts l. ?u = ts @ l \<and> eats (commas_parser ?K [PARSER_JSON_WHITESPACE]) ts (l @ ch CHR ''}'' # rest) (counted (1 - 1)) \<and>
        eats ?K l (ch CHR ''}'' # rest) quiet"
      by (intro exI [of _ "[]"] exI [of _ ?u]) (simp add: counted_0)
  qed
  with last_pair show ?case by simp
next
  case (more_pairs k s w1 w2 v t w w' kvs u)
  let ?u = "QUOTE # s @ QUOTE # w1 @ ch CHR '':'' # w2 @ t @ w"
  have "eaten_pairs (Suc n) (length ((k, v) # kvs)) (?u @ ch CHR '','' # w' @ u)"
    if n: "\<forall>kv\<in>set ((k, v) # kvs). nesting (snd kv) \<le> n" for n
    unfolding eaten_pairs_def
  proof
    fix rest
    let ?K = "PARSER_JSON_OBJECT_KV (PARSER_JSON_VALUE (Suc n))"
    have "eaten_pairs (Suc n) (length kvs) u" using more_pairs n by simp
    then obtain ts l where ts: "u = ts @ l" "eats (commas_parser ?K [PARSER_JSON_WHITESPACE]) ts (l @ ch CHR ''}'' # rest) (counted (length kvs - 1))"
      "eats ?K l (ch CHR ''}'' # rest) quiet" unfolding eaten_pairs_def by blast
    have e: "eats ?K ?u (ch CHR '','' # w' @ ts @ l @ ch CHR ''}'' # rest) quiet"
      using more_pairs n by (intro eats_KV) auto
    have "opens (ts @ l)" using more_pairs.IH ts(1) by simp
    then have "eats (comb_sequence [PARSER_JSON_WHITESPACE]) w' (ts @ l @ ch CHR ''}'' # rest) quiet"
      using more_pairs.hyps by (intro eats_last eats_WHITESPACE) (cases ts; auto simp: opens_def)+
    from eats_commas_more [OF e this ts(2)] more_pairs.IH ts show "\<exists>ts l. ?u @ ch CHR '','' # w' @ u = ts @ l \<and>
        eats (commas_parser ?K [PARSER_JSON_WHITESPACE]) ts (l @ ch CHR ''}'' # rest) (counted (length ((k, v) # kvs) - 1)) \<and>
        eats ?K l (ch CHR ''}'' # rest) quiet"
      by (intro exI [of _ "?u @ ch CHR '','' # w' @ ts"] exI [of _ l]) (auto simp: Suc_diff_1)
  qed
  with more_pairs show ?case by simp
qed (simp_all add: eaten_scalars int_text_opens literal_opens)

section \<open>Decoding a text\<close>

lemma json_match_text:
  assumes "value_text v t" "nesting v \<le> n" "holds mem buf (a @ t @ b @ rest)" "spaces a" "spaces b" "stops rest"
    "rest = [] \<or> \<not> space (hd rest)"
  obtains pre u post where "t = pre @ u @ post" "body v u"
    "json_match (Suc n) buf (mem, alloc) = (Ret (advance (length (a @ t @ b)) buf,
       \<lparr>json_type = kind v, content = (fst buf + (length a + length pre), length u), item_count = items_of v\<rparr>), mem, alloc)"
proof -
  have e: "eaten n v t" "opens t" using text_eaten(1) [OF assms(1)] assms(2) by auto
  from eats_VALUE [OF e assms(4,5,6,7)] obtain pre u post where t: "t = pre @ u @ post" "body v u"
    and p: "eats (PARSER_JSON_VALUE (Suc n)) (a @ t @ b) rest (noted (kind v) (length a + length pre) (length u) (items_of v))" by blast
  have "json_match (Suc n) buf (mem, alloc) = (Ret (advance (length (a @ t @ b)) buf,
       \<lparr>json_type = kind v, content = (fst buf + (length a + length pre), length u), item_count = items_of v\<rparr>), mem, alloc)"
    using eatsD [OF p, of mem buf] assms(3) by (simp add: json_match_def noted_def del: PARSER_JSON_VALUE.simps)
  with t that show thesis by blast
qed

subsection \<open>Strings and numbers\<close>

text \<open>Memory that is the same in a range.\<close>

definition same_inside :: "nat \<Rightarrow> nat \<Rightarrow> buffer \<Rightarrow> buffer \<Rightarrow> bool" where
  "same_inside lo hi mem mem' \<longleftrightarrow> length mem' = length mem \<and> (\<forall>i. lo \<le> i \<longrightarrow> i < hi \<longrightarrow> mem' ! i = mem ! i)"

lemma same_inside_sub: "same_inside lo hi mem mem' \<Longrightarrow> lo \<le> lo' \<Longrightarrow> hi' \<le> hi \<Longrightarrow> same_inside lo' hi' mem mem'"
  by (simp add: same_inside_def)

lemma same_inside_refl: "same_inside lo hi mem mem"
  by (simp add: same_inside_def)

lemma same_inside_trans: "same_inside lo hi mem mem' \<Longrightarrow> same_inside lo hi mem' mem'' \<Longrightarrow> same_inside lo hi mem mem''"
  by (simp add: same_inside_def)

lemma same_outside_inside: "same_outside lo hi mem mem' \<Longrightarrow> hi' \<le> lo \<or> hi \<le> lo' \<Longrightarrow> same_inside lo' hi' mem mem'"
  by (auto simp: same_inside_def same_outside_def)

lemma fetch_buf_same:
  assumes "same_inside lo hi mem mem'" "lo \<le> fst b" "fst b + snd b \<le> hi"
  shows "fetch_buf mem' b = fetch_buf mem b"
  unfolding fetch_buf_def by (rule nth_equalityI) (use assms in \<open>auto simp: same_inside_def\<close>)

lemma holds_same: "holds mem buf xs \<Longrightarrow> same_inside (fst buf) (fst buf + snd buf) mem mem' \<Longrightarrow> holds mem' buf xs"
  using fetch_buf_same [of "fst buf" "fst buf + snd buf" mem mem' buf] by (simp add: holds_def same_inside_def)

lemma holds_range: "holds mem buf xs \<Longrightarrow> fst buf + length xs \<le> length mem"
  by (metis holds_def holds_len)

lemma holds_prefix:
  assumes "holds mem buf (xs @ ys)"
  shows "holds mem (fst buf, length xs) xs"
proof -
  have "fst buf + length xs \<le> length mem" using holds_range [OF assms] by simp
  with holds_take [OF assms] show ?thesis by (simp add: holds_def fetch_buf_def)
qed

lemma holds_middle:
  assumes "holds mem buf (xs @ ys @ zs)"
  shows "holds mem (fst buf + length xs, length ys) ys"
  using holds_prefix [OF holds_advance [OF assms]] holds_len [OF assms] by (simp add: advance_def)

lemma unescape_chars:
  assumes "chars_text s u" "holds mem buf u" "p \<le> fst buf"
  shows "\<exists>mem'. unescape_loop mem buf p = Ret (True, mem', p + length s) \<and> take (length s) (drop p mem') = s \<and>
    same_outside p (fst buf + snd buf) mem mem' \<and> p + length s \<le> fst buf + snd buf"
  using assms
proof (induction arbitrary: mem buf p)
  case no_chars
  then have "snd buf = 0" by (simp add: holds_empty)
  with no_chars show ?case by (subst unescape_loop.simps) simp
next
  case (more_chars c t s u)
  have len: "snd buf = length t + length u" using holds_len [OF more_chars.prems(1)] by simp
  have ne: "0 < length t" using more_chars.hyps(1) by (auto simp: char_text_cases)
  have mem: "fst buf + snd buf \<le> length mem" using more_chars.prems(1) by (simp add: holds_def)
  have step: "unescape_step mem buf p = Ret (True, mem[p := c], advance (length t) buf, p + 1)"
    using more_chars.hyps(1) unfolding char_text_cases
  proof (elim disjE conjE exE)
    assume "plain_char c" and t: "t = [c]"
    moreover have "mem ! fst buf = c" using holds_first [of mem buf c u] more_chars.prems(1) t by simp
    ultimately show ?thesis using more_chars.prems(2) mem len by (simp add: unescape_step_def put_byte_def plain_char_def)
  next
    fix e assume e: "escaped_char e = Some c" and t: "t = [BACKSLASH, e]"
    have "mem ! fst buf = BACKSLASH" using holds_first [of mem buf BACKSLASH "e # u"] more_chars.prems(1) t by simp
    moreover have "mem ! (fst buf + 1) = e" using holds_nth [of mem buf "BACKSLASH # e # u" 1] more_chars.prems(1) t by simp
    moreover have "e \<noteq> ch CHR ''u''" using e by (auto simp: escaped_char_def)
    ultimately show ?thesis using more_chars.prems(2) mem len e t
      by (simp add: unescape_step_def str_conv_handle_escape_def put_byte_def numeral_2_eq_2)
  qed
  let ?mem = "mem[p := c]" and ?buf = "advance (length t) buf"
  have b: "fst ?buf = fst buf + length t" "snd ?buf = length u" using len by (simp_all add: advance_def)
  have so: "same_outside p (p + 1) mem ?mem" by (auto simp: same_outside_def nth_list_update)
  have p1: "p + 1 \<le> fst ?buf" unfolding b(1) using ne more_chars.prems(2) by linarith
  have "holds ?mem ?buf u"
    by (rule holds_same [OF holds_advance [OF more_chars.prems(1)] same_outside_inside [OF so]]) (use p1 in simp)
  from more_chars.IH [OF this p1] b obtain mem' where
    r: "unescape_loop ?mem ?buf (p + 1) = Ret (True, mem', p + 1 + length s)" "take (length s) (drop (p + 1) mem') = s"
       "same_outside (p + 1) (fst buf + snd buf) ?mem mem'" "p + 1 + length s \<le> fst buf + snd buf"
    using len by (auto simp: add.assoc)
  have pm: "p < length mem" using mem p1 b(1) len by linarith
  have "mem' ! p = ?mem ! p" using r(3) by (simp add: same_outside_def)
  then have "mem' ! p = c" using pm by simp
  moreover have "p < length mem'" using pm same_outside_len [OF r(3)] by simp
  ultimately have "take (length (c # s)) (drop p mem') = c # s" using r(2) by (simp add: Cons_nth_drop_Suc [symmetric])
  moreover have "same_outside p (fst buf + snd buf) mem mem'"
    by (rule same_outside_trans [OF so r(3)]) (use r(4) in auto)
  moreover have "unescape_loop mem buf p = Ret (True, mem', p + length (c # s))"
    using r(1) step len ne by (subst unescape_loop.simps) simp
  ultimately show ?case using r(4) by auto
qed

lemma decode_string:
  assumes "chars_text s u" "holds mem c u"
  obtains mem' where "decode_json_str c (mem, alloc) = (Ret (LOC_BUF (fst c, length s)), mem', alloc)"
    "same_outside (fst c) (fst c + snd c) mem mem'" "fetch_buf mem' (fst c, length s) = s" "length s \<le> snd c"
proof -
  from unescape_chars [OF assms order_refl] obtain mem' where
    "unescape_loop mem c (fst c) = Ret (True, mem', fst c + length s)" "take (length s) (drop (fst c) mem') = s"
    "same_outside (fst c) (fst c + snd c) mem mem'" "fst c + length s \<le> fst c + snd c" by blast
  with that show thesis by (simp add: decode_json_str_def unescape_string_def fetch_buf_def)
qed

lemma str_to_int64_text: "int_text i t \<Longrightarrow> ggl_str_to_int64 t = Ret i"
proof -
  assume t: "int_text i t"
  then obtain ds where ds: "digits_text ds" "t = ds \<and> i = dec_value ds \<or> t = MINUS # ds \<and> i = - dec_value ds" "in_int64 i"
    by (auto simp: int_text_def)
  then have d: "ds \<noteq> []" "list_all digit_byte ds" "hd ds \<noteq> MINUS" using digits_first [OF ds(1)]
    by (auto simp: digits_text_def digit_byte_def)
  then have "ds ! 0 \<noteq> MINUS" by (cases ds) auto
  with ds d show ?thesis
    by (auto simp: ggl_str_to_int64_def Let_def str_to_int64_loop_iff Suc_le_eq)
qed

lemma decode_number:
  assumes "int_text (sint i) u" "holds mem c u"
  shows "decode_json_number strtod mem c = Ret (LOC_SCALAR (OBJ_I64 i))"
proof -
  have st: "stops []" by (simp add: stops_def)
  have "matches PARSER_INT_PART mem c = Ret (True, advance (length u) c)"
    using eatsD [OF eats_INT_PART [OF assms(1) st], of mem c None] assms(2) by (simp add: matches_def)
  moreover have h: "holds mem (advance (length u) c) []" using holds_advance [of mem c u "[]"] assms(2) by simp
  have "matches PARSER_FRAC_PART mem (advance (length u) c) = Ret (False, advance (length u) c)"
    "matches PARSER_EXPONENT mem (advance (length u) c) = Ret (False, advance (length u) c)"
    using rejectsD [OF rejects_FRAC_PART [OF st] h, of None] rejectsD [OF rejects_EXPONENT [OF st] h, of None] by (simp_all add: matches_def)
  moreover have "fetch_buf mem c = u" using assms(2) by (simp add: holds_def)
  ultimately show ?thesis using str_to_int64_text [OF assms(1)] by (simp add: decode_json_number_def)
qed

subsection \<open>Values\<close>

text \<open>The memory that the arrays of an object take, and an allocator that has as much left.\<close>

fun json_size :: "GglObject \<Rightarrow> nat" where
  "json_size (OBJ_LIST xs) = (if xs = [] then 0 else length xs * 24 + 7 + sum_list (map json_size xs))"
| "json_size (OBJ_MAP kvs) = (if kvs = [] then 0 else length kvs * 40 + 7 + sum_list (map (\<lambda>kv. json_size (snd kv)) kvs))"
| "json_size _ = 0"

definition room :: "GglBumpAlloc option \<Rightarrow> nat \<Rightarrow> bool" where
  "room alloc n \<longleftrightarrow>
     (case alloc of
        None \<Rightarrow> n = 0
      | Some a \<Rightarrow> bump_inv a \<and> length (bump_buf a) + 8 \<le> PTRDIFF_MAX \<and> bump_index a + n \<le> length (bump_buf a))"

lemma decode_alloc_room:
  assumes "room alloc ((if n = 0 then 0 else n * sz + 7) + k)"
  obtains p alloc' where "decode_alloc n sz (mem, alloc) = (Ret p, mem, alloc')" "room alloc' k"
proof (cases "n = 0")
  case True
  with assms that show thesis by (simp add: decode_alloc_def)
next
  case False
  with assms obtain a where a: "alloc = Some a" "bump_inv a" "length (bump_buf a) + 8 \<le> PTRDIFF_MAX"
    "bump_index a + (n * sz + 7 + k) \<le> length (bump_buf a)" by (auto simp: room_def split: option.splits)
  from needsD [OF needs_alloc_array a(2,3), of n sz] a(4) obtain p a' where
    "alloc_array n sz a = (Ret p, a')" "bump_inv a'" "length (bump_buf a') = length (bump_buf a)" "bump_index a' \<le> bump_index a + (n * sz + 7)"
    by auto
  with a False that [of p "Some a'"] show thesis by (simp add: decode_alloc_def with_alloc_def room_def)
qed

text \<open>A decoded object that stands for a value as long as a range of the memory is not changed.\<close>

definition decoded :: "nat \<Rightarrow> nat \<Rightarrow> buffer \<Rightarrow> loc_obj \<Rightarrow> GglObject \<Rightarrow> bool" where
  "decoded lo hi mem obj v \<longleftrightarrow> (\<forall>mem'. same_inside lo hi mem mem' \<longrightarrow> fetch mem' obj = v) \<and>
     (\<forall>s. v = OBJ_BUF s \<longrightarrow> (\<exists>b. obj = LOC_BUF b))"

lemma decoded_mono: "decoded lo hi mem obj v \<Longrightarrow> lo' \<le> lo \<Longrightarrow> hi \<le> hi' \<Longrightarrow> decoded lo' hi' mem obj v"
  unfolding decoded_def by (meson same_inside_sub)

lemma decoded_same: "decoded lo hi mem obj v \<Longrightarrow> same_inside lo hi mem mem' \<Longrightarrow> decoded lo hi mem' obj v"
  unfolding decoded_def by (meson same_inside_trans)

lemma decoded_fetch: "decoded lo hi mem obj v \<Longrightarrow> fetch mem obj = v"
  unfolding decoded_def by (meson same_inside_refl)

definition takes_text :: "(buffer \<Rightarrow> u64 option) \<Rightarrow> nat \<Rightarrow> GglObject \<Rightarrow> buffer \<Rightarrow> bool" where
  "takes_text strtod stack v t \<longleftrightarrow> (\<forall>mem alloc buf a b rest k.
     holds mem buf (a @ t @ b @ rest) \<longrightarrow> spaces a \<longrightarrow> spaces b \<longrightarrow> stops rest \<longrightarrow> (rest = [] \<or> \<not> space (hd rest)) \<longrightarrow>
     room alloc (json_size v + k) \<longrightarrow>
     (\<exists>obj mem' alloc'. take_json_val strtod stack buf (mem, alloc) = (Ret (advance (length (a @ t @ b)) buf, obj), mem', alloc') \<and>
        same_outside (fst buf) (fst buf + length (a @ t @ b)) mem mem' \<and> room alloc' k \<and>
        decoded (fst buf) (fst buf + length (a @ t @ b)) mem' obj v))"

lemma takes_textD:
  assumes "takes_text strtod stack v t" "holds mem buf (a @ t @ b @ rest)" "spaces a" "spaces b" "stops rest"
    "rest = [] \<or> \<not> space (hd rest)" "room alloc (json_size v + k)"
  obtains obj mem' alloc' where "take_json_val strtod stack buf (mem, alloc) = (Ret (advance (length (a @ t @ b)) buf, obj), mem', alloc')"
    "same_outside (fst buf) (fst buf + length (a @ t @ b)) mem mem'" "room alloc' k"
    "decoded (fst buf) (fst buf + length (a @ t @ b)) mem' obj v"
  using assms unfolding takes_text_def by blast

lemma match_char_text: "holds mem buf (c # rest) \<Longrightarrow> match_char c buf (mem, alloc) = (Ret (advance 1 buf), mem, alloc)"
  using eatsD [OF eats_char [of c rest], of mem buf None] by (simp add: match_char_def matches_def)

inductive_cases items_text_ConsE: "items_text (x # xs) u"
inductive_cases pairs_text_ConsE: "pairs_text (kv # kvs) u"
inductive_cases items_text_NilE: "items_text [] u"
inductive_cases pairs_text_NilE: "pairs_text [] u"

text \<open>After the first item the rest is decoded, and the first is not changed by that.\<close>

lemma decode_items_text:
  assumes "\<And>x t. x \<in> set xs \<Longrightarrow> value_text x t \<Longrightarrow> takes_text strtod stack x t"
    and "items_text xs u" "spaces w" "holds mem buf (w @ u)" "room alloc (sum_list (map json_size xs) + k)"
  shows "\<exists>ys mem' alloc'. decode_json_array strtod stack (length xs) buf (mem, alloc) = (Ret ys, mem', alloc') \<and>
    same_outside (fst buf) (fst buf + snd buf) mem mem' \<and> room alloc' k \<and>
    (\<forall>mem''. same_inside (fst buf) (fst buf + snd buf) mem' mem'' \<longrightarrow> map (fetch mem'') ys = xs)"
  using assms
proof (induction xs arbitrary: u w mem buf alloc)
  case Nil
  then show ?case by (auto elim: items_text_NilE)
next
  case (Cons x xs)
  from Cons.prems(2) show ?case
  proof (cases rule: items_text_ConsE [consumes 1, case_names one more])
    case (one t w1)
    have len: "snd buf = length (w @ t @ w1)" using holds_len [OF Cons.prems(4)] one by simp
    have h: "holds mem buf (w @ t @ w1 @ [])" using Cons.prems(4) one by simp
    have rm: "room alloc (json_size x + k)" using Cons.prems(5) one by simp
    from takes_textD [OF Cons.prems(1) [OF _ one(3)] h Cons.prems(3) one(4) _ _ rm]
    obtain obj mem' alloc' where r: "take_json_val strtod stack buf (mem, alloc) = (Ret (advance (length (w @ t @ w1)) buf, obj), mem', alloc')"
      "same_outside (fst buf) (fst buf + length (w @ t @ w1)) mem mem'" "room alloc' k"
      "decoded (fst buf) (fst buf + length (w @ t @ w1)) mem' obj x" by (auto simp: stops_def)
    then show ?thesis using one(1) len by (auto simp: decoded_def)
  next
    case (more t w1 w2 u')
    let ?p = "w @ t @ w1"
    have h: "holds mem buf (w @ t @ w1 @ ch CHR '','' # w2 @ u')" using Cons.prems(4) more by simp
    have len: "snd buf = length ?p + 1 + length (w2 @ u')" using holds_len [OF h] by simp
    have rm: "room alloc (json_size x + (sum_list (map json_size xs) + k))" using Cons.prems(5) by (simp add: add.assoc)
    from takes_textD [OF Cons.prems(1) [OF _ more(2)] h Cons.prems(3) more(3) _ _ rm]
    obtain obj mem1 alloc1 where r: "take_json_val strtod stack buf (mem, alloc) = (Ret (advance (length ?p) buf, obj), mem1, alloc1)"
      and so: "same_outside (fst buf) (fst buf + length ?p) mem mem1" and "room alloc1 (sum_list (map json_size xs) + k)"
      and dec: "decoded (fst buf) (fst buf + length ?p) mem1 obj x" by auto
    let ?b1 = "advance (length ?p) buf" and ?b2 = "advance 1 (advance (length ?p) buf)"
    have b: "fst ?b1 = fst buf + length ?p" "snd ?b1 = Suc (length (w2 @ u'))" "fst ?b2 = fst buf + length ?p + 1" "snd ?b2 = length (w2 @ u')"
      using len by (simp_all add: advance_def)
    have h1: "holds mem1 ?b1 (ch CHR '','' # w2 @ u')"
      by (rule holds_same [OF holds_advance same_outside_inside [OF so]]) (use h b in auto)
    have h2: "holds mem1 ?b2 (w2 @ u')" using holds_advance [of mem1 ?b1 "[ch CHR '','']" "w2 @ u'"] h1 by simp
    from Cons.IH [OF Cons.prems(1) more(5,4) h2 \<open>room alloc1 _\<close>] obtain ys mem2 alloc2 where
      d: "decode_json_array strtod stack (length xs) ?b2 (mem1, alloc1) = (Ret ys, mem2, alloc2)"
        "same_outside (fst ?b2) (fst ?b2 + snd ?b2) mem1 mem2" "room alloc2 k"
        "\<forall>mem''. same_inside (fst ?b2) (fst ?b2 + snd ?b2) mem2 mem'' \<longrightarrow> map (fetch mem'') ys = xs" by auto
    have "xs \<noteq> []" using more(5) by (auto elim: items_text_NilE)
    then have "decode_json_array strtod stack (length (x # xs)) buf (mem, alloc) = (Ret (obj # ys), mem2, alloc2)"
      using r match_char_text [OF h1] d(1) by simp
    moreover have "same_outside (fst buf) (fst buf + snd buf) mem mem2"
      by (rule same_outside_trans [OF so d(2)]) (use b len in auto)
    moreover have "map (fetch mem'') (obj # ys) = x # xs" if "same_inside (fst buf) (fst buf + snd buf) mem2 mem''" for mem''
    proof -
      have "decoded (fst buf) (fst buf + length ?p) mem2 obj x"
        by (rule decoded_same [OF dec same_outside_inside [OF d(2)]]) (use b in auto)
      moreover have "same_inside (fst buf) (fst buf + length ?p) mem2 mem''" "same_inside (fst ?b2) (fst ?b2 + snd ?b2) mem2 mem''"
        by (rule same_inside_sub [OF that]; use b len in simp)+
      ultimately show ?thesis using d(4) by (auto simp: decoded_def)
    qed
    ultimately show ?thesis using d(3) by blast
  qed
qed
lemma decoded_key: "decoded lo hi mem obj (OBJ_BUF k) \<Longrightarrow>
  \<exists>b. obj = LOC_BUF b \<and> (\<forall>mem'. same_inside lo hi mem mem' \<longrightarrow> fetch_buf mem' b = k)"
  by (force simp: decoded_def)

text \<open>A key and its value, up to what follows them.\<close>

lemma take_pair_text:
  assumes "takes_text strtod stack (OBJ_BUF k) (QUOTE # s @ [QUOTE])" "takes_text strtod stack v t"
    and "spaces w0" "spaces w1" "spaces w2" "spaces w" "stops rest" "rest = [] \<or> \<not> space (hd rest)"
    and h: "holds mem buf ((w0 @ QUOTE # s @ QUOTE # w1 @ ch CHR '':'' # w2 @ t @ w) @ rest)" and rm: "room alloc (json_size v + n)"
  obtains b1 b2 key val mem1 mem2 alloc1 alloc2 where
    "take_json_val strtod stack buf (mem, alloc) = (Ret (b1, LOC_BUF key), mem1, alloc1)"
    "match_char (ch CHR '':'') b1 (mem1, alloc1) = (Ret b2, mem1, alloc1)"
    "take_json_val strtod stack b2 (mem1, alloc1) =
       (Ret (advance (length (w0 @ QUOTE # s @ QUOTE # w1 @ ch CHR '':'' # w2 @ t @ w)) buf, val), mem2, alloc2)"
    "same_outside (fst buf) (fst buf + length (w0 @ QUOTE # s @ QUOTE # w1 @ ch CHR '':'' # w2 @ t @ w)) mem mem2" "room alloc2 n"
    "decoded (fst buf) (fst buf + length (w0 @ QUOTE # s @ QUOTE # w1 @ ch CHR '':'' # w2 @ t @ w)) mem2 (LOC_BUF key) (OBJ_BUF k)"
    "decoded (fst buf) (fst buf + length (w0 @ QUOTE # s @ QUOTE # w1 @ ch CHR '':'' # w2 @ t @ w)) mem2 val v"
proof -
  let ?q = "QUOTE # s @ [QUOTE]"
  let ?p = "w0 @ ?q @ w1" and ?r = "w2 @ t @ w"
  have h0: "holds mem buf (w0 @ ?q @ w1 @ ch CHR '':'' # ?r @ rest)" using h by simp
  have len: "length ?p + Suc (length ?r) \<le> snd buf" using holds_len [OF h0] by simp
  have st: "stops (ch CHR '':'' # ?r @ rest)" "\<not> space (ch CHR '':'')" by (simp_all add: stops_def space_def)
  from takes_textD [OF assms(1) h0 assms(3,4) st(1), of alloc "json_size v + n"] rm st(2)
  obtain obj mem1 alloc1 where r1: "take_json_val strtod stack buf (mem, alloc) = (Ret (advance (length ?p) buf, obj), mem1, alloc1)"
    and so1: "same_outside (fst buf) (fst buf + length ?p) mem mem1" and rm1: "room alloc1 (json_size v + n)"
    and d1: "decoded (fst buf) (fst buf + length ?p) mem1 obj (OBJ_BUF k)" by auto
  from decoded_key [OF d1] obtain key where key: "obj = LOC_BUF key" by blast
  let ?b1 = "advance (length ?p) buf" and ?b2 = "advance 1 (advance (length ?p) buf)"
  have b: "fst ?b1 = fst buf + length ?p" "fst ?b2 = fst buf + length ?p + 1"
    using len by (simp_all add: advance_def)
  have h1: "holds mem1 ?b1 (ch CHR '':'' # ?r @ rest)"
    by (rule holds_same [OF holds_advance same_outside_inside [OF so1]]) (use h0 b in auto)
  have "holds mem1 ?b2 (?r @ rest)" using holds_advance [of mem1 ?b1 "[ch CHR '':'']" "?r @ rest"] h1 by simp
  then have h2: "holds mem1 ?b2 (w2 @ t @ w @ rest)" by simp
  from takes_textD [OF assms(2) h2 assms(5,6,7,8) rm1]
  obtain val mem2 alloc2 where r2: "take_json_val strtod stack ?b2 (mem1, alloc1) = (Ret (advance (length ?r) ?b2, val), mem2, alloc2)"
    and so2: "same_outside (fst ?b2) (fst ?b2 + length ?r) mem1 mem2" and rm2: "room alloc2 n"
    and d2: "decoded (fst ?b2) (fst ?b2 + length ?r) mem2 val v" by blast
  have adv: "advance (length ?r) ?b2 = advance (length (w0 @ QUOTE # s @ QUOTE # w1 @ ch CHR '':'' # ?r)) buf"
    using len by (simp add: advance_def)
  have hi: "fst ?b2 + length ?r = fst buf + length (w0 @ QUOTE # s @ QUOTE # w1 @ ch CHR '':'' # ?r)" using b by simp
  have "same_outside (fst buf) (fst buf + length (w0 @ QUOTE # s @ QUOTE # w1 @ ch CHR '':'' # ?r)) mem mem2"
    unfolding hi [symmetric] by (rule same_outside_trans [OF so1 so2]) (use b in auto)
  moreover have "decoded (fst buf) (fst buf + length ?p) mem2 obj (OBJ_BUF k)"
    by (rule decoded_same [OF d1 same_outside_inside [OF so2]]) (use b in auto)
  then have "decoded (fst buf) (fst buf + length (w0 @ QUOTE # s @ QUOTE # w1 @ ch CHR '':'' # ?r)) mem2 obj (OBJ_BUF k)"
    by (rule decoded_mono) auto
  moreover have "decoded (fst buf) (fst buf + length (w0 @ QUOTE # s @ QUOTE # w1 @ ch CHR '':'' # ?r)) mem2 val v"
    unfolding hi [symmetric] by (rule decoded_mono [OF d2]) (use b in auto)
  ultimately show thesis
    using that [OF r1 [unfolded key] match_char_text [OF h1] r2 [unfolded adv]] rm2 key by simp
qed

lemma decode_pairs_text:
  assumes "\<And>kv t. kv \<in> set kvs \<Longrightarrow> value_text (snd kv) t \<Longrightarrow> takes_text strtod stack (snd kv) t"
    and "\<And>k s. chars_text k s \<Longrightarrow> takes_text strtod stack (OBJ_BUF k) (QUOTE # s @ [QUOTE])"
    and "pairs_text kvs u" "spaces w0" "holds mem buf (w0 @ u)" "room alloc (sum_list (map (\<lambda>kv. json_size (snd kv)) kvs) + n)"
  shows "\<exists>ys mem' alloc'. decode_json_object strtod stack (length kvs) buf (mem, alloc) = (Ret ys, mem', alloc') \<and>
    same_outside (fst buf) (fst buf + snd buf) mem mem' \<and> room alloc' n \<and>
    (\<forall>mem''. same_inside (fst buf) (fst buf + snd buf) mem' mem'' \<longrightarrow> map (\<lambda>kv. (fetch_buf mem'' (fst kv), fetch mem'' (snd kv))) ys = kvs)"
  using assms(1,3-6)
proof (induction kvs arbitrary: u w0 mem buf alloc)
  case Nil
  then show ?case by (auto elim: pairs_text_NilE)
next
  case (Cons kv kvs)
  from Cons.prems(2) show ?case
  proof (cases rule: pairs_text_ConsE [consumes 1, case_names one more])
    case (one k s w1 w2 v t w)
    let ?p = "w0 @ QUOTE # s @ QUOTE # w1 @ ch CHR '':'' # w2 @ t @ w"
    have h: "holds mem buf (?p @ [])" using Cons.prems(4) one by simp
    have len: "snd buf = length ?p" using holds_len [OF h] by simp
    have "takes_text strtod stack v t" using Cons.prems(1) [of kv t] one by simp
    moreover have "room alloc (json_size v + n)" using Cons.prems(5) one by simp
    ultimately obtain b1 b2 key val mem1 mem2 alloc1 alloc2 where r:
      "take_json_val strtod stack buf (mem, alloc) = (Ret (b1, LOC_BUF key), mem1, alloc1)"
      "match_char (ch CHR '':'') b1 (mem1, alloc1) = (Ret b2, mem1, alloc1)"
      "take_json_val strtod stack b2 (mem1, alloc1) = (Ret (advance (length ?p) buf, val), mem2, alloc2)"
      "same_outside (fst buf) (fst buf + length ?p) mem mem2" "room alloc2 n"
      "decoded (fst buf) (fst buf + length ?p) mem2 (LOC_BUF key) (OBJ_BUF k)" "decoded (fst buf) (fst buf + length ?p) mem2 val v"
      using one by (elim take_pair_text [OF assms(2) [OF one(2)] _ Cons.prems(3) one(3,4,6) _ _ h]) (auto simp: stops_def)
    then have "decode_json_object strtod stack (length (kv # kvs)) buf (mem, alloc) = (Ret [(key, val)], mem2, alloc2)"
      using one(8) by (simp add: json_key_def)
    with r(4-7) len one show ?thesis by (auto simp: decoded_def)
  next
    case (more k s w1 w2 v t w w' u')
    let ?p = "w0 @ QUOTE # s @ QUOTE # w1 @ ch CHR '':'' # w2 @ t @ w"
    have h: "holds mem buf (?p @ ch CHR '','' # w' @ u')" using Cons.prems(4) more by simp
    have len: "snd buf = length ?p + 1 + length (w' @ u')" using holds_len [OF h] by simp
    have "takes_text strtod stack v t" using Cons.prems(1) [of kv t] more by simp
    moreover have "room alloc (json_size v + (sum_list (map (\<lambda>kv. json_size (snd kv)) kvs) + n))"
      using Cons.prems(5) more(1) by (simp add: add.assoc)
    ultimately obtain b1 b2 key val mem1 mem2 alloc1 alloc2 where r:
      "take_json_val strtod stack buf (mem, alloc) = (Ret (b1, LOC_BUF key), mem1, alloc1)"
      "match_char (ch CHR '':'') b1 (mem1, alloc1) = (Ret b2, mem1, alloc1)"
      "take_json_val strtod stack b2 (mem1, alloc1) = (Ret (advance (length ?p) buf, val), mem2, alloc2)"
      and so: "same_outside (fst buf) (fst buf + length ?p) mem mem2"
      and rm: "room alloc2 (sum_list (map (\<lambda>kv. json_size (snd kv)) kvs) + n)"
      and dec: "decoded (fst buf) (fst buf + length ?p) mem2 (LOC_BUF key) (OBJ_BUF k)" "decoded (fst buf) (fst buf + length ?p) mem2 val v"
      using more by (elim take_pair_text [OF assms(2) [OF more(3)] _ Cons.prems(3) more(4,5,7) _ _ h]) auto
    let ?b3 = "advance (length ?p) buf" and ?b4 = "advance 1 (advance (length ?p) buf)"
    have b: "fst ?b3 = fst buf + length ?p" "fst ?b4 = fst buf + length ?p + 1" "snd ?b4 = length (w' @ u')"
      using len by (simp_all add: advance_def)
    have h1: "holds mem2 ?b3 (ch CHR '','' # w' @ u')"
      by (rule holds_same [OF holds_advance same_outside_inside [OF so]]) (use h b in auto)
    have h2: "holds mem2 ?b4 (w' @ u')" using holds_advance [of mem2 ?b3 "[ch CHR '','']" "w' @ u'"] h1 by simp
    from Cons.IH [OF Cons.prems(1) more(9,8) h2 rm] obtain ys mem3 alloc3 where
      d: "decode_json_object strtod stack (length kvs) ?b4 (mem2, alloc2) = (Ret ys, mem3, alloc3)"
        "same_outside (fst ?b4) (fst ?b4 + snd ?b4) mem2 mem3" "room alloc3 n"
        "\<forall>mem''. same_inside (fst ?b4) (fst ?b4 + snd ?b4) mem3 mem'' \<longrightarrow> map (\<lambda>kv. (fetch_buf mem'' (fst kv), fetch mem'' (snd kv))) ys = kvs"
      by auto
    have "kvs \<noteq> []" using more(9) by (auto elim: pairs_text_NilE)
    then have "decode_json_object strtod stack (length (kv # kvs)) buf (mem, alloc) = (Ret ((key, val) # ys), mem3, alloc3)"
      using r match_char_text [OF h1] d(1) by (simp add: json_key_def)
    moreover have "same_outside (fst buf) (fst buf + snd buf) mem mem3"
      by (rule same_outside_trans [OF so d(2)]) (use b len in auto)
    moreover have "map (\<lambda>kv. (fetch_buf mem'' (fst kv), fetch mem'' (snd kv))) ((key, val) # ys) = kv # kvs"
      if "same_inside (fst buf) (fst buf + snd buf) mem3 mem''" for mem''
    proof -
      have "same_inside (fst buf) (fst buf + length ?p) mem2 mem3"
        by (rule same_outside_inside [OF d(2)]) (use b in auto)
      then have "decoded (fst buf) (fst buf + length ?p) mem3 (LOC_BUF key) (OBJ_BUF k)" "decoded (fst buf) (fst buf + length ?p) mem3 val v"
        using dec by (auto intro: decoded_same)
      moreover have "same_inside (fst buf) (fst buf + length ?p) mem3 mem''" "same_inside (fst ?b4) (fst ?b4 + snd ?b4) mem3 mem''"
        by (rule same_inside_sub [OF that]; use b len in simp)+
      ultimately show ?thesis using d(4) more(1) by (auto simp: decoded_def)
    qed
    ultimately show ?thesis using d(3) by blast
  qed
qed

lemma nesting_item:
  "x \<in> set xs \<Longrightarrow> nesting x < nesting (OBJ_LIST xs)" "kv \<in> set kvs \<Longrightarrow> nesting (snd kv) < nesting (OBJ_MAP kvs)"
  by (auto simp: less_Suc_eq_le intro: Max_ge)

declare nesting.simps(1,2) [simp del]

lemma decode_body:
  assumes "\<And>x t. value_text x t \<Longrightarrow> nesting x < nesting v \<Longrightarrow> takes_text strtod stack x t"
    and "body v u" "holds mem c u" "room alloc (json_size v + k)"
  shows "\<exists>obj mem' alloc'. decode_json_val strtod (\<lambda>count c. decode_json_array strtod stack count c)
      (\<lambda>count c. decode_json_object strtod stack count c) \<lparr>json_type = kind v, content = c, item_count = items_of v\<rparr> (mem, alloc) =
        (Ret obj, mem', alloc') \<and> same_outside (fst c) (fst c + snd c) mem mem' \<and> room alloc' k \<and>
      decoded (fst c) (fst c + snd c) mem' obj v"
proof (cases v)
  case (OBJ_BUF s)
  from decode_string [of s u mem c alloc] assms(2,3) OBJ_BUF obtain mem' where
    r: "decode_json_str c (mem, alloc) = (Ret (LOC_BUF (fst c, length s)), mem', alloc)"
      "same_outside (fst c) (fst c + snd c) mem mem'" "fetch_buf mem' (fst c, length s) = s" "length s \<le> snd c" by auto
  then have "decoded (fst c) (fst c + snd c) mem' (LOC_BUF (fst c, length s)) v"
    using fetch_buf_same [of "fst c" "fst c + snd c" mem' _ "(fst c, length s)"] OBJ_BUF by (auto simp: decoded_def)
  with r assms(4) OBJ_BUF show ?thesis by (auto simp: decode_json_val_def)
next
  case (OBJ_I64 i)
  with assms decode_number [of i u mem c strtod] show ?thesis by (auto simp: decode_json_val_def decoded_def)
next
  case (OBJ_LIST xs)
  have rm: "room alloc ((if length xs = 0 then 0 else length xs * 24 + 7) + (sum_list (map json_size xs) + k))"
    using assms(4) OBJ_LIST by (auto simp: add.assoc)
  obtain p alloc1 where p: "decode_alloc (length xs) 24 (mem, alloc) = (Ret p, mem, alloc1)" "room alloc1 (sum_list (map json_size xs) + k)"
    by (rule decode_alloc_room [OF rm])
  have "\<exists>ys mem' alloc'. decode_json_array strtod stack (length xs) c (mem, alloc1) = (Ret ys, mem', alloc') \<and>
    same_outside (fst c) (fst c + snd c) mem mem' \<and> room alloc' k \<and>
    (\<forall>mem''. same_inside (fst c) (fst c + snd c) mem' mem'' \<longrightarrow> map (fetch mem'') ys = xs)"
  proof (cases "xs = []")
    case True
    with p(2) show ?thesis by simp
  next
    case False
    have "nesting x < nesting v" if "x \<in> set xs" for x using OBJ_LIST that nesting_item(1) by simp
    with False assms(1-3) OBJ_LIST p(2) show ?thesis
      by (intro decode_items_text [where w = "[]" and u = u]) (auto simp: spaces_def)
  qed
  with p(1) OBJ_LIST show ?thesis by (fastforce simp: decode_json_val_def decoded_def)
next
  case (OBJ_MAP kvs)
  have rm: "room alloc ((if length kvs = 0 then 0 else length kvs * 40 + 7) + (sum_list (map (\<lambda>kv. json_size (snd kv)) kvs) + k))"
    using assms(4) OBJ_MAP by (auto simp: add.assoc)
  obtain p alloc1 where p: "decode_alloc (length kvs) 40 (mem, alloc) = (Ret p, mem, alloc1)"
    "room alloc1 (sum_list (map (\<lambda>kv. json_size (snd kv)) kvs) + k)"
    by (rule decode_alloc_room [OF rm])
  have "\<exists>ys mem' alloc'. decode_json_object strtod stack (length kvs) c (mem, alloc1) = (Ret ys, mem', alloc') \<and>
    same_outside (fst c) (fst c + snd c) mem mem' \<and> room alloc' k \<and>
    (\<forall>mem''. same_inside (fst c) (fst c + snd c) mem' mem'' \<longrightarrow> map (\<lambda>kv. (fetch_buf mem'' (fst kv), fetch mem'' (snd kv))) ys = kvs)"
  proof (cases "kvs = []")
    case True
    with p(2) show ?thesis by simp
  next
    case False
    have "nesting (snd kv) < nesting v" if "kv \<in> set kvs" for kv using OBJ_MAP that nesting_item(2) by simp
    moreover have "takes_text strtod stack (OBJ_BUF key) (QUOTE # s @ [QUOTE])" if "chars_text key s" for key s
      using assms(1) [OF string_text [OF that]] OBJ_MAP by (simp add: nesting.simps(2))
    ultimately show ?thesis using False assms(1-3) OBJ_MAP p(2)
      by (intro decode_pairs_text [where ?w0.0 = "[]" and u = u]) (auto simp: spaces_def)
  qed
  with p(1) OBJ_MAP show ?thesis by (fastforce simp: decode_json_val_def decoded_def)
qed (use assms in \<open>auto simp: decode_json_val_def decoded_def split: if_splits\<close>)

lemma take_text:
  assumes "value_text v t" "nesting v + 2 \<le> stack"
  shows "takes_text strtod stack v t"
  using assms
proof (induction stack arbitrary: v t)
  case (Suc stack)
  then obtain n where n: "stack = Suc n" "nesting v \<le> n" by (cases stack) auto
  have IH: "takes_text strtod stack x t" if "value_text x t" "nesting x < nesting v" for x t
    using Suc.IH [OF that(1)] that(2) Suc.prems(2) by simp
  show ?case unfolding takes_text_def
  proof (intro allI impI)
    fix mem alloc buf a b rest k
    assume h: "holds mem buf (a @ t @ b @ rest)" and sp: "spaces a" "spaces b" "stops rest" "rest = [] \<or> \<not> space (hd rest)"
      and rm: "room alloc (json_size v + k)"
    let ?p = "a @ t @ b"
    from json_match_text [OF Suc.prems(1) n(2) h sp] obtain pre u post where t: "t = pre @ u @ post" "body v u"
      and m: "json_match stack buf (mem, alloc) = (Ret (advance (length ?p) buf,
        \<lparr>json_type = kind v, content = (fst buf + (length a + length pre), length u), item_count = items_of v\<rparr>), mem, alloc)"
      unfolding n by blast
    let ?c = "(fst buf + (length a + length pre), length u)"
    have c: "holds mem ?c u" using holds_middle [of mem buf "a @ pre" u "post @ b @ rest"] h t(1) by simp
    from decode_body [OF IH t(2) c rm] obtain obj mem' alloc' where
      d: "decode_json_val strtod (\<lambda>count c. decode_json_array strtod stack count c)
        (\<lambda>count c. decode_json_object strtod stack count c) \<lparr>json_type = kind v, content = ?c, item_count = items_of v\<rparr> (mem, alloc) =
        (Ret obj, mem', alloc')" "same_outside (fst ?c) (fst ?c + snd ?c) mem mem'" "room alloc' k"
        "decoded (fst ?c) (fst ?c + snd ?c) mem' obj v" by blast
    have "take_json_val strtod (Suc stack) buf (mem, alloc) = (Ret (advance (length ?p) buf, obj), mem', alloc')"
      using m d(1) by simp
    moreover have "same_outside (fst buf) (fst buf + length ?p) mem mem'" "decoded (fst buf) (fst buf + length ?p) mem' obj v"
      using t(1) by (auto intro: same_outside_mono [OF d(2)] decoded_mono [OF d(4)])
    ultimately show "\<exists>obj mem' alloc'. take_json_val strtod (Suc stack) buf (mem, alloc) = (Ret (advance (length ?p) buf, obj), mem', alloc') \<and>
        same_outside (fst buf) (fst buf + length ?p) mem mem' \<and> room alloc' k \<and> decoded (fst buf) (fst buf + length ?p) mem' obj v"
      using d(3) by blast
  qed
qed simp

lemma json_decode_text_room:
  assumes "value_text v t" "spaces a" "spaces b" "nesting v + 2 \<le> stack" "room alloc (json_size v + k)"
  shows "\<exists>mem' alloc'. ggl_json_decode_destructive strtod stack (0, length (a @ t @ b)) (a @ t @ b, alloc) = (Ret v, mem', alloc') \<and>
    room alloc' k"
proof -
  let ?p = "a @ t @ b"
  have h: "holds ?p (0, length ?p) (a @ t @ b @ [])" by (simp add: holds_def fetch_buf_def)
  have st: "stops []" "[] = [] \<or> \<not> space (hd [])" by (simp_all add: stops_def)
  from takes_textD [OF take_text [OF assms(1,4)] h assms(2,3) st assms(5), of strtod, unfolded fst_conv add_0] obtain obj mem' alloc' where
    "take_json_val strtod stack (0, length ?p) (?p, alloc) = (Ret (advance (length ?p) (0, length ?p), obj), mem', alloc')"
    "room alloc' k" "decoded 0 (length ?p) mem' obj v" by blast
  then show ?thesis using decoded_fetch [of 0 "length ?p" mem' obj v]
    by (simp add: ggl_json_decode_destructive_def advance_def)
qed

lemma json_decode_text:
  assumes "value_text v t" "spaces a" "spaces b" "nesting v + 2 \<le> stack" "room alloc (json_size v)"
  shows "fst (ggl_json_decode_destructive strtod stack (0, length (a @ t @ b)) (a @ t @ b, alloc)) = Ret v"
  using json_decode_text_room [OF assms(1-4), of alloc 0 strtod] assms(5) by auto

text \<open>C25: The decoder reads JSON texts of ASCII characters without fractions, exponents and escapes of code units: on every
  such text of an object, with any white space and any of the two-character escapes, it gives that object, if the stack
  is as deep as the object is nested and the allocator has room for its arrays.\<close>

theorem ggl_json_decode_text:
  assumes "value_text v t" "spaces a" "spaces b" "nesting v + 2 \<le> stack" "room alloc (json_size v)"
  shows "fst (ggl_json_decode_destructive strtod stack (0, length (a @ t @ b)) (a @ t @ b, alloc)) = Ret v"
  using assms by (rule json_decode_text)

section \<open>What the encoder writes is a text\<close>

definition plain_string :: "buffer \<Rightarrow> bool" where
  "plain_string s \<longleftrightarrow> list_all (\<lambda>c. 0x1F < c \<and> c < 0x80) s"

text \<open>No doubles, and strings of printable ASCII characters.\<close>

fun plain :: "GglObject \<Rightarrow> bool" where
  "plain (OBJ_F64 d) = False"
| "plain (OBJ_BUF s) = plain_string s"
| "plain (OBJ_LIST xs) = list_all plain xs"
| "plain (OBJ_MAP kvs) = list_all (\<lambda>kv. plain_string (fst kv) \<and> plain (snd kv)) kvs"
| "plain _ = True"

lemma byte_text_char: "0x1F < c \<Longrightarrow> c < 0x80 \<Longrightarrow> char_text c (byte_text c)"
  by (auto simp: char_text_cases byte_text_def plain_char_def escaped_char_def not_le)

lemma chars_text_plain: "plain_string s \<Longrightarrow> chars_text s (concat (map byte_text s))"
  by (induction s) (auto simp: plain_string_def intro: chars_text.intros byte_text_char)

lemma dec_value_snoc: "dec_value (ds @ [d]) = 10 * dec_value ds + digit_val d"
  by (simp add: dec_value_def)

lemma digit_of_nat:
  assumes "n < 10"
  shows "digit_byte (48 + of_nat n)" "digit_val (48 + of_nat n) = int n" "(of_nat n = (0 :: byte)) \<longleftrightarrow> n = 0"
proof -
  have "(48 + of_nat n :: byte) = of_nat (48 + n)" by simp
  moreover have "unat (of_nat (48 + n) :: byte) = 48 + n" using assms by (simp only: unat_of_nat) (simp add: take_bit_eq_mod)
  ultimately have u: "unat (48 + of_nat n :: byte) = 48 + n" by metis
  show "digit_byte (48 + of_nat n)" using u assms by (simp add: digit_byte_def word_le_nat_alt)
  show "digit_val (48 + of_nat n) = int n" using u by (simp add: digit_val_def flip: uint_nat [symmetric])
  show "(of_nat n = (0 :: byte)) \<longleftrightarrow> n = 0"
  proof
    assume "of_nat n = (0 :: byte)"
    then have "48 + of_nat n = (48 :: byte)" by simp
    then have "unat (48 + of_nat n :: byte) = unat (48 :: byte)" by (rule arg_cong)
    with u show "n = 0" by simp
  qed simp
qed

lemma nat_text_digits:
  "nat_text n \<noteq> [] \<and> list_all digit_byte (nat_text n) \<and> dec_value (nat_text n) = int n \<and> (hd (nat_text n) = 48 \<longrightarrow> n = 0)"
proof (induction n rule: nat_text.induct)
  case (1 n)
  show ?case
  proof (cases "n < 10")
    case True
    then show ?thesis by (subst (1 2 3 4) nat_text.simps) (simp add: digit_of_nat dec_value_def)
  next
    case False
    with 1 have IH: "nat_text (n div 10) \<noteq> []" "list_all digit_byte (nat_text (n div 10))" "dec_value (nat_text (n div 10)) = int (n div 10)"
      "hd (nat_text (n div 10)) = 48 \<longrightarrow> n div 10 = 0" by auto
    have "nat_text n = nat_text (n div 10) @ [48 + of_nat (n mod 10)]" using False by (subst nat_text.simps) simp
    moreover have "10 * int (n div 10) + int (n mod 10) = int n" by (simp add: zdiv_int zmod_int)
    ultimately show ?thesis using IH False digit_of_nat [of "n mod 10"] by (auto simp: dec_value_snoc)
  qed
qed

lemma nat_text_0: "nat_text 0 = [48]"
  by (subst nat_text.simps) simp

lemma i64_text_int: "in_int64 v \<Longrightarrow> int_text v (i64_text v)"
proof -
  assume v: "in_int64 v"
  have d: "digits_text (nat_text n)" for n
    using nat_text_digits [of n] by (auto simp: digits_text_def nat_text_0)
  show ?thesis
  proof (cases "v < 0")
    case True
    then have "v = - dec_value (nat_text (nat (- v)))" using nat_text_digits [of "nat (- v)"] by simp
    with True v d show ?thesis unfolding int_text_def i64_text_def by auto
  next
    case False
    then have "v = dec_value (nat_text (nat v))" using nat_text_digits [of "nat v"] by simp
    with False v d show ?thesis unfolding int_text_def i64_text_def by auto
  qed
qed

lemma sint_in_int64: "in_int64 (sint (i :: u64))"
  using sint_range_size [of i] by (simp add: in_int64_def INT64_MIN_def INT64_MAX_def word_size)

lemma commas_items: "xs \<noteq> [] \<Longrightarrow> (\<And>x. x \<in> set xs \<Longrightarrow> value_text x (f x)) \<Longrightarrow> items_text xs (commas (map f xs))"
proof (induction xs rule: induct_list012)
  case (2 x)
  then show ?case using last_item [of x "f x" "[]"] by (simp add: spaces_def)
next
  case (3 x y zs)
  then have "items_text (y # zs) (commas (map f (y # zs)))" by auto
  from more_items [of x "f x" "[]" "[]", OF _ _ _ this] 3 show ?case by (simp add: spaces_def GGL_STR_def)
qed simp

lemma commas_pairs:
  assumes "kvs \<noteq> []" "\<And>kv. kv \<in> set kvs \<Longrightarrow> plain_string (fst kv) \<and> value_text (snd kv) (f kv)"
  shows "pairs_text kvs (commas (map (\<lambda>kv. str_text (fst kv) @ GGL_STR '':'' @ f kv) kvs))"
  using assms
proof (induction kvs rule: induct_list012)
  case (2 kv)
  then show ?case using last_pair [of "fst kv" "concat (map byte_text (fst kv))" "[]" "[]" "snd kv" "f kv" "[]"]
    by (simp add: spaces_def str_text_def GGL_STR_def chars_text_plain)
next
  case (3 kv y zs)
  then have "pairs_text (y # zs) (commas (map (\<lambda>kv. str_text (fst kv) @ GGL_STR '':'' @ f kv) (y # zs)))" by auto
  from more_pairs [of "fst kv" "concat (map byte_text (fst kv))" "[]" "[]" "snd kv" "f kv" "[]" "[]", OF _ _ _ _ _ _ this] 3
  show ?case by (simp add: spaces_def str_text_def GGL_STR_def chars_text_plain)
qed simp

lemma json_value_text: "plain v \<Longrightarrow> value_text v (json fmt v)"
proof (induction v rule: json.induct [of _ fmt])
  case (6 fmt xs)
  show ?case
  proof (cases "xs = []")
    case True
    then show ?thesis using empty_list_text [of "[]"] by (simp add: spaces_def GGL_STR_def)
  next
    case False
    then have "items_text xs (commas (map (json fmt) xs))" using 6 by (intro commas_items) (auto simp: list_all_iff)
    from list_text [of "[]", OF _ this] show ?thesis by (simp add: spaces_def GGL_STR_def)
  qed
next
  case (7 fmt kvs)
  show ?case
  proof (cases "kvs = []")
    case True
    then show ?thesis using empty_map_text [of "[]"] by (simp add: spaces_def GGL_STR_def)
  next
    case False
    then have "pairs_text kvs (commas (map (\<lambda>kv. str_text (fst kv) @ GGL_STR '':'' @ json fmt (snd kv)) kvs))"
      using 7 by (intro commas_pairs) (auto simp: list_all_iff)
    from map_text [of "[]", OF _ this] show ?thesis by (simp add: spaces_def GGL_STR_def)
  qed
qed (auto intro: value_text_items_text_pairs_text.intros i64_text_int sint_in_int64 chars_text_plain simp: str_text_def)

text \<open>What the encoder writes, the decoder reads back, for all objects of null, truth values, integers, strings of printable
  ASCII characters, lists and maps.\<close>

theorem ggl_json_roundtrip:
  assumes "plain v" "ggl_json_encode fmt v buf = Ret t" "length t < length buf" "nesting v + 2 \<le> stack" "room alloc (json_size v)"
  shows "fst (ggl_json_decode_destructive strtod stack (0, length t) (t, alloc)) = Ret v"
proof -
  have "t = json fmt v" using assms(2,3) by (auto simp: json_encode_text split: if_splits)
  with json_decode_text [OF json_value_text [OF assms(1)] _ _ assms(4,5), of "[]" "[]"] show ?thesis
    by (simp add: spaces_def)
qed

theorem ggl_json_roundtrip_witness:
  "ggl_json_encode (\<lambda>_. []) (OBJ_LIST []) (replicate 3 0) = Ret (GGL_STR ''[]'') \<and>
   fst (ggl_json_decode_destructive (\<lambda>_. None) 3 (0, length (GGL_STR ''[]'')) (GGL_STR ''[]'', None)) = Ret (OBJ_LIST [])"
proof
  show e: "ggl_json_encode (\<lambda>_. []) (OBJ_LIST []) (replicate 3 0) = Ret (GGL_STR ''[]'')" by code_simp
  show "fst (ggl_json_decode_destructive (\<lambda>_. None) 3 (0, length (GGL_STR ''[]'')) (GGL_STR ''[]'', None)) = Ret (OBJ_LIST [])"
    by (rule ggl_json_roundtrip [OF _ e]) (simp_all add: GGL_STR_def nesting.simps room_def)
qed

theorem ggl_json_decode_text_witness:
  "fst (ggl_json_decode_destructive (\<lambda>_. None) 2 (0, length ([0x20] @ GGL_STR ''-5'' @ [0x0A]))
     ([0x20] @ GGL_STR ''-5'' @ [0x0A], None)) = Ret (OBJ_I64 (- 5))"
proof -
  have "int_text (- 5) (GGL_STR ''-5'')" unfolding int_text_def
    by (intro conjI exI [of _ "[ch CHR ''5'']"])
       (simp_all add: in_int64_def INT64_MIN_def INT64_MAX_def digits_text_def digit_byte_def GGL_STR_def dec_value_def digit_val_def)
  moreover have "sint (- 5 :: u64) = - 5" by simp
  ultimately have "value_text (OBJ_I64 (- 5)) (GGL_STR ''-5'')" by (intro number_text) simp
  then show ?thesis
    by (rule ggl_json_decode_text) (simp_all add: spaces_def space_def room_def)
qed

end
