(* ===== verification/ConfigBus.thy ===== *)
theory ConfigBus
  imports CoreBusServer ConfigHistory JsonText
begin

text \<open>
  The configuration daemon on the core bus, \<^verbatim>\<open>ggconfigd/src/db_corebus.c\<close>: the handlers that read, write and
  subscribe. Values are stored as JSON text; a map is written value by value, and decoded value by value when it is
  read. Shows that a write is the merge of the leaves of the value into the map from paths to values, that a read
  responds with the objects whose texts are stored, and that a client reads back over the bus what was written.

  The world of the server has the sockets and the database. What \<open>printf\<close> and \<open>strtod\<close> do with doubles, the depth
  of the stack, and the time are arguments.
\<close>

section \<open>Decoding what is stored\<close>

definition GGCONFIGD_MAX_OBJECT_DECODE_BYTES :: nat where
  "GGCONFIGD_MAX_OBJECT_DECODE_BYTES = 9000"

text \<open>The object is changed in place: the result is an error code with the object as it is then. The text of a
  value has its own memory, and is left as the decoder leaves it when it fails. If the text is that of a map, the
  type of the object becomes that of a map but its content stays that of a buffer, which whoever reads the object
  takes for pairs: \<open>Abort\<close>.\<close>

fun decode_object_destructive ::
    "(buffer \<Rightarrow> u64 option) \<Rightarrow> nat \<Rightarrow> GglObject \<Rightarrow> GglBumpAlloc option \<Rightarrow> (GglError \<times> GglObject \<times> GglBumpAlloc option) res"
  and decode_map_values ::
    "(buffer \<Rightarrow> u64 option) \<Rightarrow> nat \<Rightarrow> GglMap \<Rightarrow> GglBumpAlloc option \<Rightarrow> (GglError \<times> GglMap \<times> GglBumpAlloc option) res" where
  "decode_object_destructive strtod stack (OBJ_BUF buf) bump_alloc =
     (case ggl_json_decode_destructive strtod stack (0, length buf) (buf, bump_alloc) of
        (Ret return_object, _, bump_alloc) \<Rightarrow>
          (case return_object of
             OBJ_MAP _ \<Rightarrow> Abort
           | _ \<Rightarrow> Ret (GGL_ERR_OK, return_object, bump_alloc))
      | (Fail e, mem, bump_alloc) \<Rightarrow> Ret (GGL_ERR_FAILURE, OBJ_BUF mem, bump_alloc)
      | (Abort, _) \<Rightarrow> Abort)"
| "decode_object_destructive strtod stack (OBJ_MAP pairs) bump_alloc =
     res_bind (decode_map_values strtod stack pairs bump_alloc) (\<lambda>(err, pairs, bump_alloc).
     Ret (err, OBJ_MAP pairs, bump_alloc))"
| "decode_object_destructive strtod stack obj bump_alloc = Ret (GGL_ERR_FAILURE, obj, bump_alloc)"
| "decode_map_values strtod stack [] bump_alloc = Ret (GGL_ERR_OK, [], bump_alloc)"
| "decode_map_values strtod stack ((key, val) # pairs) bump_alloc =
     res_bind (decode_object_destructive strtod stack val bump_alloc) (\<lambda>(decode_err, val, bump_alloc).
     if decode_err \<noteq> GGL_ERR_OK then Ret (decode_err, (key, val) # pairs, bump_alloc)
     else
       res_bind (decode_map_values strtod stack pairs bump_alloc) (\<lambda>(err, pairs, bump_alloc).
       Ret (err, (key, val) # pairs, bump_alloc)))"

section \<open>Reading\<close>

text \<open>The keys of a path, whose elements are buffers.\<close>

definition key_buffers :: "GglList \<Rightarrow> buffer list" where
  "key_buffers key_path = [b. OBJ_BUF b \<leftarrow> key_path]"

text \<open>A routine on the database, as one on the server.\<close>

definition in_db :: "(config_db, 'a) io \<Rightarrow> (('w \<times> config_db) bus_server, 'a) io" where
  "in_db m = on_world (\<lambda>w. case m (snd w) of (r, db) \<Rightarrow> (r, fst w, db))"

definition key_path_param :: "GglMap \<Rightarrow> GglList res" where
  "key_path_param params =
     (case ggl_map_get params (GGL_STR ''key_path'') of
        Some (OBJ_LIST key_path) \<Rightarrow>
          if ggl_list_type_check key_path GGL_TYPE_BUF \<noteq> GGL_ERR_OK then Fail GGL_ERR_RANGE else Ret key_path
      | _ \<Rightarrow> Fail GGL_ERR_INVALID)"

text \<open>The result of decoding is not looked at.\<close>

definition rpc_read ::
  "(buffer \<Rightarrow> u64 option) \<Rightarrow> nat \<Rightarrow> ('w \<times> config_db) socket_ops \<Rightarrow> GglMap \<Rightarrow> u32 \<Rightarrow> (('w \<times> config_db) bus_server, unit) io" where
  "rpc_read strtod stack ops params handle =
     io_bind (io_res (key_path_param params)) (\<lambda>key_path.
     io_bind (io_res (print_key_path (key_buffers key_path))) (\<lambda>_.
     io_bind (in_db (ggconfig_get_value_from_key stack (key_buffers key_path))) (\<lambda>val.
     io_bind (io_res (decode_object_destructive strtod stack val
         (Some (ggl_bump_alloc_init (replicate GGCONFIGD_MAX_OBJECT_DECODE_BYTES 0))))) (\<lambda>(_, val, _).
     ggl_respond ops handle val))))"

definition rpc_subscribe ::
  "('w \<times> config_db) socket_ops \<Rightarrow> GglMap \<Rightarrow> u32 \<Rightarrow> (('w \<times> config_db) bus_server, unit) io" where
  "rpc_subscribe ops params handle =
     io_bind (io_res (key_path_param params)) (\<lambda>key_path.
     io_bind (in_db (ggconfig_get_key_notification (key_buffers key_path) handle)) (\<lambda>_.
     ggl_sub_accept ops handle None))"

section \<open>Writing\<close>

definition process_nonmap :: "(u64 \<Rightarrow> buffer) \<Rightarrow> GglObjVec \<Rightarrow> GglObject \<Rightarrow> int \<Rightarrow> (config_db, unit) io" where
  "process_nonmap fmt key_path val timestamp =
     (let keys = key_buffers (vec_items key_path) in
      case ggl_json_encode fmt val (replicate 1024 0) of
        Fail e \<Rightarrow> io_bind (io_res (print_key_path keys)) (\<lambda>_. io_res (Fail e))
      | Abort \<Rightarrow> io_res Abort
      | Ret value_buffer \<Rightarrow>
          io_bind (ggconfig_write_value_at_key keys value_buffer timestamp) (\<lambda>_.
          io_bind (io_res (print_key_path keys)) (\<lambda>_. io_res (Ret ()))))"

definition popped :: "GglObjVec \<Rightarrow> GglObjVec" where
  "popped v = (case ggl_obj_vec_pop v of Ret (_, v') \<Rightarrow> v' | _ \<Rightarrow> v)"

text \<open>The vector of the path is changed and returned; whether there was room for a key is not looked at.\<close>

fun process_map :: "(u64 \<Rightarrow> buffer) \<Rightarrow> GglObjVec \<Rightarrow> GglMap \<Rightarrow> int \<Rightarrow> (config_db, GglObjVec) io" where
  "process_map fmt key_path [] timestamp = io_res (Ret key_path)"
| "process_map fmt key_path ((key, val) # pairs) timestamp =
     io_bind
       (case val of
          OBJ_MAP the_map \<Rightarrow> process_map fmt (snd (ggl_obj_vec_push key_path (OBJ_BUF key))) the_map timestamp
        | _ \<Rightarrow>
            io_bind (process_nonmap fmt (snd (ggl_obj_vec_push key_path (OBJ_BUF key))) val timestamp) (\<lambda>_.
            io_res (Ret (snd (ggl_obj_vec_push key_path (OBJ_BUF key))))))
       (\<lambda>key_path. process_map fmt (popped key_path) pairs timestamp)"

text \<open>The time is in seconds and nanoseconds; the milliseconds are a signed integer of 64 bits.\<close>

definition write_timestamp :: "int \<times> int \<Rightarrow> GglObject option \<Rightarrow> int" where
  "write_timestamp now timestamp_obj =
     (case timestamp_obj of
        Some (OBJ_I64 i) \<Rightarrow> sint i
      | _ \<Rightarrow> sint (word_of_int (fst now * 1000 + snd now div 1000000) :: 64 word))"

definition write_schema :: "GglMapSchemaEntry list" where
  "write_schema =
     [\<lparr>entry_key = GGL_STR ''key_path'', entry_required = True, entry_type = GGL_TYPE_LIST\<rparr>,
      \<lparr>entry_key = GGL_STR ''value'', entry_required = True, entry_type = GGL_TYPE_NULL\<rparr>,
      \<lparr>entry_key = GGL_STR ''timestamp'', entry_required = False, entry_type = GGL_TYPE_I64\<rparr>]"

definition process_value :: "(u64 \<Rightarrow> buffer) \<Rightarrow> GglObjVec \<Rightarrow> GglObject \<Rightarrow> int \<Rightarrow> (config_db, unit) io" where
  "process_value fmt key_path val timestamp =
     (case val of
        OBJ_MAP the_map \<Rightarrow> io_bind (process_map fmt key_path the_map timestamp) (\<lambda>_. io_res (Ret ()))
      | _ \<Rightarrow> process_nonmap fmt key_path val timestamp)"

definition rpc_write ::
  "(u64 \<Rightarrow> buffer) \<Rightarrow> int \<times> int \<Rightarrow> ('w \<times> config_db) socket_ops \<Rightarrow> GglMap \<Rightarrow> u32 \<Rightarrow> (('w \<times> config_db) bus_server, unit) io" where
  "rpc_write fmt now ops params handle =
     (case ggl_map_validate params write_schema of
        Ret [Some (OBJ_LIST key_path_obj), Some value_obj, timestamp_obj] \<Rightarrow>
          if ggl_list_type_check key_path_obj GGL_TYPE_BUF \<noteq> GGL_ERR_OK then io_res (Fail GGL_ERR_RANGE)
          else
            (case ggl_obj_vec_append \<lparr>vec_items = [], vec_capacity = GGL_MAX_OBJECT_DEPTH\<rparr> key_path_obj of
               (ret, key_path) \<Rightarrow>
                 if ret \<noteq> GGL_ERR_OK then io_res (Fail GGL_ERR_RANGE)
                 else
                   io_bind (in_db (process_value fmt key_path value_obj (write_timestamp now timestamp_obj))) (\<lambda>_.
                   ggl_respond ops handle OBJ_NULL))
      | _ \<Rightarrow> io_res (Fail GGL_ERR_INVALID))"

text \<open>The methods of the interface.\<close>

definition config_handlers ::
  "(buffer \<Rightarrow> u64 option) \<Rightarrow> (u64 \<Rightarrow> buffer) \<Rightarrow> nat \<Rightarrow> int \<times> int \<Rightarrow> ('w \<times> config_db) socket_ops \<Rightarrow>
   ('w \<times> config_db) GglRpcMethodDesc list" where
  "config_handlers strtod fmt stack now ops =
     [\<lparr>desc_name = GGL_STR ''read'', is_subscription = False, desc_handler = rpc_read strtod stack ops\<rparr>,
      \<lparr>desc_name = GGL_STR ''write'', is_subscription = False, desc_handler = rpc_write fmt now ops\<rparr>,
      \<lparr>desc_name = GGL_STR ''subscribe'', is_subscription = True, desc_handler = rpc_subscribe ops\<rparr>]"

section \<open>A write merges the leaves of the value\<close>

text \<open>A store that is open, is a tree without dangling keys, has no faults ahead and, within a limit that keeps the
  identifiers in 32 bits, room for \<open>n\<close> more keys.\<close>

definition config_ok :: "nat \<Rightarrow> nat \<Rightarrow> config_db \<Rightarrow> bool" where
  "config_ok lim n s \<longleftrightarrow> config_initialized s \<and> db_inv (config_database s) \<and>
     length (keyTable (config_database s)) + n \<le> lim \<and> lim < 2 ^ 31 \<and>
     sql_faults s = [] \<and> complete (view (config_database s))"

abbreviation stored :: "config_db \<Rightarrow> config_view" where
  "stored s \<equiv> view (config_database s)"

lemma config_ok_mono: "config_ok lim n s \<Longrightarrow> m \<le> n \<Longrightarrow> config_ok lim m s"
  by (simp add: config_ok_def)

lemma stored_Nil: "view db [] = None"
  by (simp add: view_def)

text \<open>What a write of one text gives: a result for the specification of the outcome.\<close>

definition outcome :: "config_view option \<Rightarrow> config_view \<Rightarrow> 'a \<Rightarrow> 'a res \<Rightarrow> config_view \<Rightarrow> bool" where
  "outcome spec c x r c' \<longleftrightarrow> (case spec of None \<Rightarrow> (\<exists>e. r = Fail e) \<and> c' = c | Some d \<Rightarrow> r = Ret x \<and> c' = d)"

lemma write_ok:
  assumes "config_ok lim (length p + n) s" "path_ok p" "ggconfig_write_value_at_key p v t s = (r, s')"
  shows "config_ok lim n s' \<and> outcome (write_spec (stored s) p v t) (stored s) () r (stored s')"
proof -
  have s: "config_initialized s" "db_inv (config_database s)" "length (keyTable (config_database s)) + (length p + n) \<le> lim"
    "lim < 2 ^ 31" "sql_faults s = []" "complete (stored s)" using assms(1) by (simp_all add: config_ok_def)
  note g = addsE [OF adds_write assms(3)]
  have rm: "ConfigStore.room (length p) (config_database s)" using s(3,4) by (simp add: ConfigStore.room_def)
  have ok: "config_ok lim n s'" if "db_inv (config_database s')" "complete (stored s')"
    using g s that by (auto simp: config_ok_def grown_def)
  from assms(3) s(1,2) rm assms(2) show ?thesis
  proof (cases rule: write_cases)
    case (refused e)
    with s show ?thesis by (auto simp: outcome_def intro!: ok)
  next
    case (newer x t')
    with s show ?thesis by (auto simp: outcome_def write_spec_def intro!: ok)
  next
    case (written c)
    then have "stored s' = c" using s(5) by blast
    moreover from write_spec_complete [OF s(6) written(3) stored_Nil] have "complete c" .
    ultimately show ?thesis using written(1-3) ok by (simp add: outcome_def)
  qed
qed

lemma json_encode_1024: "length (json fmt v) < 1024 \<Longrightarrow> ggl_json_encode fmt v (replicate 1024 0) = Ret (json fmt v)"
  by (simp add: json_encode_text)

lemma key_buffers_bufs [simp]: "key_buffers (map OBJ_BUF p) = p"
  by (induction p) (simp_all add: key_buffers_def)

lemma path_ok_prints: "path_ok p \<Longrightarrow> io_bind (io_res (print_key_path p)) (\<lambda>_. f) = f"
  using print_keys_no_Fail [of 0 0 p "[]"] by (cases "print_key_path p") (simp_all add: path_ok_def print_key_path_def)

lemma process_nonmap_ok:
  assumes "config_ok lim (length p + n) s" "path_ok p" "length (json fmt v) < 1024" "vec_items key_path = map OBJ_BUF p"
    and "process_nonmap fmt key_path v t s = (r, s')"
  shows "config_ok lim n s' \<and> outcome (write_spec (stored s) p (json fmt v) t) (stored s) () r (stored s')"
proof -
  have "process_nonmap fmt key_path v t = io_bind (ggconfig_write_value_at_key p (json fmt v) t) (\<lambda>_. io_res (Ret ()))"
    using assms(2-4) by (simp add: process_nonmap_def json_encode_1024 path_ok_prints Let_def)
  moreover have "io_bind m (\<lambda>_. io_res (Ret ())) = m" for m :: "(config_db, unit) io"
    by (rule ext) (auto simp: io_bind_def io_res_def split: prod.splits res.splits)
  ultimately have "ggconfig_write_value_at_key p (json fmt v) t s = (r, s')" using assms(5) by simp
  from write_ok [OF assms(1,2) this] show ?thesis .
qed

text \<open>The values of a map that are not maps, with their paths.\<close>

fun leaves :: "buffer list \<Rightarrow> GglMap \<Rightarrow> (buffer list \<times> GglObject) list" where
  "leaves p [] = []"
| "leaves p ((key, val) # pairs) =
     (case val of OBJ_MAP the_map \<Rightarrow> leaves (p @ [key]) the_map | _ \<Rightarrow> [(p @ [key], val)]) @ leaves p pairs"

text \<open>The writes are made one after the other until one is refused.\<close>

fun merge :: "(u64 \<Rightarrow> buffer) \<Rightarrow> int \<Rightarrow> config_view \<Rightarrow> (buffer list \<times> GglObject) list \<Rightarrow> bool \<times> config_view" where
  "merge fmt t c [] = (True, c)"
| "merge fmt t c (w # ws) =
     (case write_spec c (fst w) (json fmt (snd w)) t of
        None \<Rightarrow> (False, c)
      | Some c' \<Rightarrow> merge fmt t c' ws)"

lemma merge_append:
  "merge fmt t c (ws @ vs) = (case merge fmt t c ws of (False, c') \<Rightarrow> (False, c') | (True, c') \<Rightarrow> merge fmt t c' vs)"
  by (induction ws arbitrary: c) (simp_all split: option.splits)

text \<open>The path of every key of the map fits the vector.\<close>

fun depth_ok :: "nat \<Rightarrow> GglMap \<Rightarrow> bool" where
  "depth_ok d [] = True"
| "depth_ok d ((key, val) # pairs) =
     (d < GGL_MAX_OBJECT_DEPTH \<and> (case val of OBJ_MAP the_map \<Rightarrow> depth_ok (Suc d) the_map | _ \<Rightarrow> True) \<and> depth_ok d pairs)"

definition leaf_ok :: "(u64 \<Rightarrow> buffer) \<Rightarrow> buffer list \<times> GglObject \<Rightarrow> bool" where
  "leaf_ok fmt w \<longleftrightarrow> path_ok (fst w) \<and> length (json fmt (snd w)) < 1024"

definition merged :: "bool \<times> config_view \<Rightarrow> 'a \<Rightarrow> 'a res \<Rightarrow> config_view \<Rightarrow> bool" where
  "merged m x r c \<longleftrightarrow> (if fst m then r = Ret x else \<exists>e. r = Fail e) \<and> c = snd m"

abbreviation path_lengths :: "(buffer list \<times> GglObject) list \<Rightarrow> nat" where
  "path_lengths ws \<equiv> sum_list (map (\<lambda>w. length (fst w)) ws)"

abbreviation path_vec :: "buffer list \<Rightarrow> GglObjVec" where
  "path_vec p \<equiv> \<lparr>vec_items = map OBJ_BUF p, vec_capacity = GGL_MAX_OBJECT_DEPTH\<rparr>"

lemma push_path: "length p < GGL_MAX_OBJECT_DEPTH \<Longrightarrow> snd (ggl_obj_vec_push (path_vec p) (OBJ_BUF k)) = path_vec (p @ [k])"
  by (simp add: ggl_obj_vec_push_def vec_push_def)

lemma popped_path: "popped (path_vec (p @ [k])) = path_vec p"
  by (simp add: popped_def ggl_obj_vec_pop_def)

text \<open>One key of a map: what is written for it, and then the path is as before.\<close>

lemma process_pair_ok:
  assumes "length p < GGL_MAX_OBJECT_DEPTH" "\<forall>w\<in>set (leaves p [(key, val)]). leaf_ok fmt w"
    and "config_ok lim (path_lengths (leaves p [(key, val)]) + n) s"
    and "\<And>the_map r s'. val = OBJ_MAP the_map \<Longrightarrow> process_map fmt (path_vec (p @ [key])) the_map t s = (r, s') \<Longrightarrow>
      config_ok lim n s' \<and> merged (merge fmt t (stored s) (leaves (p @ [key]) the_map)) (path_vec (p @ [key])) r (stored s')"
    and "(case val of
          OBJ_MAP the_map \<Rightarrow> process_map fmt (path_vec (p @ [key])) the_map t
        | _ \<Rightarrow> io_bind (process_nonmap fmt (path_vec (p @ [key])) val t) (\<lambda>_. io_res (Ret (path_vec (p @ [key]))))) s = (r, s')"
  shows "config_ok lim n s' \<and> merged (merge fmt t (stored s) (leaves p [(key, val)])) (path_vec (p @ [key])) r (stored s')"
proof (cases "\<exists>the_map. val = OBJ_MAP the_map")
  case True
  then obtain the_map where "val = OBJ_MAP the_map" by blast
  with assms(4) [of the_map r s'] assms(5) show ?thesis by simp
next
  case False
  have lv: "leaves p [(key, val)] = [(p @ [key], val)]" using False by (cases val) simp_all
  obtain r1 s1 where s1: "process_nonmap fmt (path_vec (p @ [key])) val t s = (r1, s1)" by fastforce
  have run: "(r, s') = (case r1 of Ret _ \<Rightarrow> Ret (path_vec (p @ [key])) | Fail e \<Rightarrow> Fail e | Abort \<Rightarrow> Abort, s1)"
    using assms(5) s1 False by (cases val; cases r1) (auto simp: io_bind_def)
  have "config_ok lim (length (p @ [key]) + n) s" "path_ok (p @ [key])" "length (json fmt val) < 1024"
    using assms(2,3) unfolding lv by (simp_all add: leaf_ok_def)
  from process_nonmap_ok [OF this _ s1] run show ?thesis unfolding lv
    by (auto simp: merged_def outcome_def split: option.splits)
qed

lemma process_map_ok:
  assumes "depth_ok (length p) pairs" "\<forall>w\<in>set (leaves p pairs). leaf_ok fmt w"
    and "config_ok lim (path_lengths (leaves p pairs) + n) s" "process_map fmt (path_vec p) pairs t s = (r, s')"
  shows "config_ok lim n s' \<and> merged (merge fmt t (stored s) (leaves p pairs)) (path_vec p) r (stored s')"
  using assms
proof (induction fmt "path_vec p" pairs t arbitrary: p n s r s' rule: process_map.induct)
  case (1 fmt t)
  then show ?case by (simp add: merged_def)
next
  case (2 fmt key val pairs t)
  have len: "length p < GGL_MAX_OBJECT_DEPTH" and rest: "depth_ok (length p) pairs" using 2(3) by simp_all
  have lv: "leaves p ((key, val) # pairs) = leaves p [(key, val)] @ leaves p pairs" by simp
  let ?k = "path_lengths (leaves p pairs)"
  let ?m = "case val of OBJ_MAP the_map \<Rightarrow> process_map fmt (path_vec (p @ [key])) the_map t
        | _ \<Rightarrow> io_bind (process_nonmap fmt (path_vec (p @ [key])) val t) (\<lambda>_. io_res (Ret (path_vec (p @ [key]))))"
  obtain r1 s1 where s1: "?m s = (r1, s1)" by fastforce
  have ok1: "config_ok lim (path_lengths (leaves p [(key, val)]) + (?k + n)) s" using 2(5) unfolding lv by (simp add: add.assoc)
  have first: "config_ok lim (?k + n) s1 \<and> merged (merge fmt t (stored s) (leaves p [(key, val)])) (path_vec (p @ [key])) r1 (stored s1)"
  proof (rule process_pair_ok [OF len _ ok1 _ s1])
    fix the_map r s'
    assume "val = OBJ_MAP the_map" "process_map fmt (path_vec (p @ [key])) the_map t s = (r, s')"
    then show "config_ok lim (?k + n) s' \<and> merged (merge fmt t (stored s) (leaves (p @ [key]) the_map)) (path_vec (p @ [key])) r (stored s')"
      using 2(1) [of the_map "p @ [key]" "?k + n" s r s'] push_path [OF len, of key] 2(3,4) ok1 by simp
  qed (use 2(4) lv in auto)
  let ?m1 = "merge fmt t (stored s) (leaves p [(key, val)])"
  have run: "io_bind ?m (\<lambda>key_path. process_map fmt (popped key_path) pairs t) s = (r, s')"
    using 2(6) unfolding process_map.simps push_path [OF len] .
  show ?case
  proof (cases "fst ?m1")
    case True
    with first have r1: "r1 = Ret (path_vec (p @ [key]))" "stored s1 = snd ?m1" by (simp_all add: merged_def)
    then have "process_map fmt (path_vec p) pairs t s1 = (r, s')" using run s1 popped_path [of p key] by (simp add: io_bind_def)
    with 2(2) [of "path_vec (p @ [key])" p n s1 r s'] rest 2(4) first popped_path [of p key]
    have "config_ok lim n s' \<and> merged (merge fmt t (stored s1) (leaves p pairs)) (path_vec p) r (stored s')"
      by auto
    with True r1(2) show ?thesis unfolding lv merge_append by (cases ?m1) (simp del: leaves.simps)
  next
    case False
    with first obtain e where r1: "r1 = Fail e" "stored s1 = snd ?m1" by (auto simp: merged_def)
    then have "r = Fail e" "s' = s1" using run s1 by (simp_all add: io_bind_def)
    with first False r1 show ?thesis unfolding lv merge_append
      by (cases ?m1) (auto simp: merged_def intro: config_ok_mono simp del: leaves.simps)
  qed
qed

text \<open>The writes that a request asks for.\<close>

definition value_leaves :: "buffer list \<Rightarrow> GglObject \<Rightarrow> (buffer list \<times> GglObject) list" where
  "value_leaves p val = (case val of OBJ_MAP the_map \<Rightarrow> leaves p the_map | _ \<Rightarrow> [(p, val)])"

definition value_depth_ok :: "buffer list \<Rightarrow> GglObject \<Rightarrow> bool" where
  "value_depth_ok p val \<longleftrightarrow> length p \<le> GGL_MAX_OBJECT_DEPTH \<and>
     (case val of OBJ_MAP the_map \<Rightarrow> depth_ok (length p) the_map | _ \<Rightarrow> True)"

lemma process_value_ok:
  assumes "value_depth_ok p val" "\<forall>w\<in>set (value_leaves p val). leaf_ok fmt w"
    and "config_ok lim (path_lengths (value_leaves p val) + n) s" "process_value fmt (path_vec p) val t s = (r, s')"
  shows "config_ok lim n s' \<and> merged (merge fmt t (stored s) (value_leaves p val)) () r (stored s')"
proof (cases "\<exists>the_map. val = OBJ_MAP the_map")
  case True
  then obtain the_map where val: "val = OBJ_MAP the_map" by blast
  obtain r1 s1 where s1: "process_map fmt (path_vec p) the_map t s = (r1, s1)" by fastforce
  have "config_ok lim n s1 \<and> merged (merge fmt t (stored s) (leaves p the_map)) (path_vec p) r1 (stored s1)"
    using process_map_ok [OF _ _ _ s1, of lim n] assms(1-3) by (simp add: val value_leaves_def value_depth_ok_def)
  with assms(4) s1 show ?thesis
    by (cases r1) (auto simp: val process_value_def value_leaves_def io_bind_def merged_def split: if_splits)
next
  case False
  have lv: "value_leaves p val = [(p, val)]" using False by (cases val) (simp_all add: value_leaves_def)
  have "process_nonmap fmt (path_vec p) val t s = (r, s')"
    using assms(4) False by (cases val) (simp_all add: process_value_def)
  from process_nonmap_ok [OF _ _ _ _ this, of lim p n] assms(2,3) show ?thesis
    by (auto simp: lv leaf_ok_def merged_def outcome_def split: option.splits)
qed

lemma type_check_bufs: "ggl_list_type_check (map OBJ_BUF p) GGL_TYPE_BUF = GGL_ERR_OK"
  by (induction p) simp_all

abbreviation db_of :: "('w \<times> config_db) bus_server \<Rightarrow> config_db" where
  "db_of s \<equiv> snd (srv_world s)"

abbreviation with_db :: "config_db \<Rightarrow> ('w \<times> config_db) bus_server \<Rightarrow> ('w \<times> config_db) bus_server" where
  "with_db db s \<equiv> s\<lparr>srv_world := (fst (srv_world s), db)\<rparr>"

lemma in_db_eq: "m (db_of s) = (r, db) \<Longrightarrow> in_db m s = (r, with_db db s)"
  by (simp add: in_db_def on_world_def)

text \<open>The parameters of a well-formed request to write.\<close>

definition write_params :: "GglMap \<Rightarrow> buffer list \<Rightarrow> GglObject \<Rightarrow> bool" where
  "write_params params p val \<longleftrightarrow> map_of params (GGL_STR ''key_path'') = Some (OBJ_LIST (map OBJ_BUF p)) \<and>
     map_of params (GGL_STR ''value'') = Some val \<and>
     (case map_of params (GGL_STR ''timestamp'') of None \<Rightarrow> True | Some x \<Rightarrow> obj_type x = GGL_TYPE_I64)"

lemma rpc_write_valid:
  assumes "write_params params p val" "length p \<le> GGL_MAX_OBJECT_DEPTH"
  shows "rpc_write fmt now ops params h =
    io_bind (in_db (process_value fmt (path_vec p) val (write_timestamp now (map_of params (GGL_STR ''timestamp''))))) (\<lambda>_.
    ggl_respond ops h OBJ_NULL)"
proof -
  have "ggl_map_validate params write_schema =
      Ret [Some (OBJ_LIST (map OBJ_BUF p)), Some val, map_of params (GGL_STR ''timestamp'')]"
    using assms(1) by (auto simp: write_params_def write_schema_def ggl_map_get_map_of split: option.splits)
  then show ?thesis using assms(2)
    by (simp add: rpc_write_def type_check_bufs ggl_obj_vec_append_def vec_append_def size_sub_def GGL_MAX_OBJECT_DEPTH_def)
qed

lemma rpc_write_merge:
  fixes now :: "int \<times> int"
  assumes "write_params params p val" "value_depth_ok p val" "\<forall>w\<in>set (value_leaves p val). leaf_ok fmt w"
    and "config_ok lim (path_lengths (value_leaves p val) + n) (db_of s)"
  defines "m \<equiv> merge fmt (write_timestamp now (map_of params (GGL_STR ''timestamp''))) (stored (db_of s)) (value_leaves p val)"
  shows "\<exists>db. config_ok lim n db \<and> stored db = snd m \<and>
    (if fst m then rpc_write fmt now ops params h s = ggl_respond ops h OBJ_NULL (with_db db s)
     else \<exists>e. rpc_write fmt now ops params h s = (Fail e, with_db db s))"
proof -
  let ?t = "write_timestamp now (map_of params (GGL_STR ''timestamp''))"
  obtain r db where run: "process_value fmt (path_vec p) val ?t (db_of s) = (r, db)" by fastforce
  from process_value_ok [OF assms(2-4) this] have ok: "config_ok lim n db" "merged m () r (stored db)" by (simp_all add: m_def)
  have db: "in_db (process_value fmt (path_vec p) val ?t) s = (r, with_db db s)" by (rule in_db_eq) (rule run)
  have "length p \<le> GGL_MAX_OBJECT_DEPTH" using assms(2) by (simp add: value_depth_ok_def)
  then have w: "rpc_write fmt now ops params h s =
      (case r of Ret _ \<Rightarrow> ggl_respond ops h OBJ_NULL (with_db db s) | Fail e \<Rightarrow> (Fail e, with_db db s) | Abort \<Rightarrow> (Abort, with_db db s))"
    by (simp add: rpc_write_valid [OF assms(1)] io_bind_def db split: res.split)
  with ok show ?thesis by (intro exI [of _ db]) (auto simp: merged_def split: if_splits)
qed

text \<open>C16: A request to write, of a value or of a map of values, is the merge of the leaves of the value into the map from
  paths to texts: each leaf is written as its JSON text at its path, in order, under the rules for one write, until one is
  refused. The request is acknowledged if none is; otherwise the error goes to the client and the leaves before the
  refused one stay written.\<close>

theorem rpc_write_merges:
  assumes "write_params params p val" "value_depth_ok p val" "\<forall>w\<in>set (value_leaves p val). leaf_ok fmt w"
    and "config_ok lim (path_lengths (value_leaves p val)) (db_of s)"
  shows "let m = merge fmt (write_timestamp now (map_of params (GGL_STR ''timestamp''))) (stored (db_of s)) (value_leaves p val) in
    \<exists>db. config_ok lim 0 db \<and> stored db = snd m \<and>
    (if fst m then rpc_write fmt now ops params h s = ggl_respond ops h OBJ_NULL (with_db db s)
     else \<exists>e. rpc_write fmt now ops params h s = (Fail e, with_db db s))"
  unfolding Let_def by (rule rpc_write_merge [OF assms(1-3)]) (simp add: assms(4))

section \<open>A read responds with the objects that are stored\<close>

fun is_map :: "GglObject \<Rightarrow> bool" where
  "is_map (OBJ_MAP _) = True"
| "is_map _ = False"

text \<open>An object with the texts of its leaves, as it is stored, and the object itself.\<close>

inductive decodes :: "GglObject \<Rightarrow> GglObject \<Rightarrow> bool" where
  decodes_leaf: "value_text w t \<Longrightarrow> \<not> is_map w \<Longrightarrow> decodes (OBJ_BUF t) w"
| decodes_map: "list_all2 (\<lambda>a b. fst a = fst b \<and> decodes (snd a) (snd b)) kvs kvs' \<Longrightarrow> decodes (OBJ_MAP kvs) (OBJ_MAP kvs')"
  monos list_all2_mono

text \<open>The memory that decoding takes: the arrays of the maps are those of the store.\<close>

fun decode_size :: "GglObject \<Rightarrow> nat" where
  "decode_size (OBJ_MAP kvs) = sum_list (map (\<lambda>kv. decode_size (snd kv)) kvs)"
| "decode_size v = json_size v"

definition decodes_to :: "(buffer \<Rightarrow> u64 option) \<Rightarrow> nat \<Rightarrow> GglObject \<Rightarrow> GglObject \<Rightarrow> bool" where
  "decodes_to strtod stack v w \<longleftrightarrow> (\<forall>alloc k. nesting w + 2 \<le> stack \<longrightarrow> JsonText.room alloc (decode_size w + k) \<longrightarrow>
     (\<exists>alloc'. decode_object_destructive strtod stack v alloc = Ret (GGL_ERR_OK, w, alloc') \<and> JsonText.room alloc' k))"

lemma decode_leaf:
  assumes "value_text w t" "\<not> is_map w"
  shows "decodes_to strtod stack (OBJ_BUF t) w"
  unfolding decodes_to_def
proof (intro allI impI)
  fix alloc k assume a: "nesting w + 2 \<le> stack" "JsonText.room alloc (decode_size w + k)"
  have "decode_size w = json_size w" using assms(2) by (cases w) simp_all
  with a(2) have "JsonText.room alloc (json_size w + k)" by simp
  from json_decode_text_room [OF assms(1) _ _ a(1) this, of "[]" "[]" strtod] obtain mem' alloc' where
    "ggl_json_decode_destructive strtod stack (0, length t) (t, alloc) = (Ret w, mem', alloc')" "JsonText.room alloc' k"
    by (auto simp: spaces_def)
  with assms(2) show "\<exists>alloc'. decode_object_destructive strtod stack (OBJ_BUF t) alloc = Ret (GGL_ERR_OK, w, alloc') \<and> JsonText.room alloc' k"
    by (cases w) auto
qed

lemma decode_values:
  assumes "list_all2 (\<lambda>a b. fst a = fst b \<and> decodes_to strtod stack (snd a) (snd b)) kvs kvs'"
    and "\<And>kv. kv \<in> set kvs' \<Longrightarrow> nesting (snd kv) + 2 \<le> stack"
    and "JsonText.room alloc (sum_list (map (\<lambda>kv. decode_size (snd kv)) kvs') + k)"
  shows "\<exists>alloc'. decode_map_values strtod stack kvs alloc = Ret (GGL_ERR_OK, kvs', alloc') \<and> JsonText.room alloc' k"
  using assms
proof (induction kvs kvs' arbitrary: alloc rule: list_all2_induct)
  case (Cons a kvs b kvs')
  let ?r = "sum_list (map (\<lambda>kv. decode_size (snd kv)) kvs')"
  have "JsonText.room alloc (decode_size (snd b) + (?r + k))" using Cons.prems(2) by (simp add: add.assoc)
  with Cons.hyps(1) Cons.prems(1) [of b] obtain a1 where
    a1: "decode_object_destructive strtod stack (snd a) alloc = Ret (GGL_ERR_OK, snd b, a1)" "JsonText.room a1 (?r + k)"
    unfolding decodes_to_def by fastforce
  from Cons.IH [OF _ a1(2)] Cons.prems(1) obtain a2 where
    "decode_map_values strtod stack kvs a1 = Ret (GGL_ERR_OK, kvs', a2)" "JsonText.room a2 k" by auto
  with a1(1) Cons.hyps(1) show ?case by (cases a; cases b) simp
qed simp

lemma nesting_value: "kv \<in> set kvs \<Longrightarrow> nesting (snd kv) < nesting (OBJ_MAP kvs)"
  by (auto simp: nesting.simps less_Suc_eq_le intro!: Max_ge)

lemma decodes_decode: "decodes v w \<Longrightarrow> decodes_to strtod stack v w"
proof (induction rule: decodes.induct)
  case (decodes_leaf w t)
  then show ?case by (rule decode_leaf)
next
  case (decodes_map kvs kvs')
  then have all: "list_all2 (\<lambda>a b. fst a = fst b \<and> decodes_to strtod stack (snd a) (snd b)) kvs kvs'"
    by (auto elim: list_all2_mono)
  show ?case unfolding decodes_to_def
  proof (intro allI impI)
    fix alloc k assume a: "nesting (OBJ_MAP kvs') + 2 \<le> stack" "JsonText.room alloc (decode_size (OBJ_MAP kvs') + k)"
    have "nesting (snd kv) + 2 \<le> stack" if "kv \<in> set kvs'" for kv using nesting_value [OF that] a(1) by linarith
    from decode_values [OF all this, of alloc k] a(2)
    show "\<exists>alloc'. decode_object_destructive strtod stack (OBJ_MAP kvs) alloc = Ret (GGL_ERR_OK, OBJ_MAP kvs', alloc') \<and>
        JsonText.room alloc' k" by auto
  qed
qed

text \<open>The decoded object has the same paths.\<close>

definition read_at :: "config_view \<Rightarrow> buffer list \<Rightarrow> GglObject \<Rightarrow> bool" where
  "read_at c p w \<longleftrightarrow> (\<forall>q. case c (p @ q) of
       None \<Rightarrow> obj_at w q = None
     | Some None \<Rightarrow> (\<exists>kvs. obj_at w q = Some (OBJ_MAP kvs))
     | Some (Some (t, _)) \<Rightarrow> (\<exists>x. obj_at w q = Some x \<and> value_text x t))"

lemma map_of_all2:
  assumes "list_all2 (\<lambda>a b. fst a = fst b \<and> P (snd a) (snd b)) kvs kvs'"
  shows "rel_option P (map_of kvs n) (map_of kvs' n)"
  using assms by (induction rule: list_all2_induct) auto

inductive_cases decodes_bufE: "decodes (OBJ_BUF t) w"
inductive_cases decodes_mapE: "decodes (OBJ_MAP kvs) w"

lemma decodes_at: "decodes v w \<Longrightarrow> rel_option decodes (obj_at v q) (obj_at w q)"
proof (induction q arbitrary: v w)
  case (Cons n q)
  from Cons.prems show ?case
  proof (cases rule: decodes.cases)
    case (decodes_leaf t)
    then show ?thesis by (cases w) simp_all
  next
    case (decodes_map kvs kvs')
    from map_of_all2 [OF decodes_map(3), of n] Cons.IH show ?thesis unfolding decodes_map(1,2)
      by (auto split: option.splits elim: option.rel_cases)
  qed
qed simp

lemma decodes_read_at:
  assumes "stored_at c p v" "decodes v w"
  shows "read_at c p w"
  unfolding read_at_def
proof
  fix q
  have "case c (p @ q) of None \<Rightarrow> obj_at v q = None | Some None \<Rightarrow> (\<exists>kvs. obj_at v q = Some (OBJ_MAP kvs))
     | Some (Some (x, t)) \<Rightarrow> obj_at v q = Some (OBJ_BUF x)" using assms(1) unfolding stored_at_def by blast
  with decodes_at [OF assms(2), of q] show "case c (p @ q) of None \<Rightarrow> obj_at w q = None
     | Some None \<Rightarrow> (\<exists>kvs. obj_at w q = Some (OBJ_MAP kvs))
     | Some (Some (t, _)) \<Rightarrow> (\<exists>x. obj_at w q = Some x \<and> value_text x t)"
    by (auto split: option.splits elim!: option.rel_cases decodes_mapE decodes_bufE)
qed

lemma decode_memory_room:
  "n \<le> GGCONFIGD_MAX_OBJECT_DECODE_BYTES \<Longrightarrow>
   JsonText.room (Some (ggl_bump_alloc_init (replicate GGCONFIGD_MAX_OBJECT_DECODE_BYTES 0))) (n + 0)"
  by (simp add: JsonText.room_def ggl_bump_alloc_init_def bump_inv_def fits_def GGCONFIGD_MAX_OBJECT_DECODE_BYTES_def PTRDIFF_MAX_def)

lemma rpc_read_node:
  assumes "map_of params (GGL_STR ''key_path'') = Some (OBJ_LIST (map OBJ_BUF p))" "path_ok p" "config_ok stack 0 (db_of s)"
    and "node (config_database (db_of s)) p = Some (Some key_id)"
  defines "v \<equiv> subtree stack (config_database (db_of s)) key_id"
  assumes "copy_size v \<le> length key_value_memory" "decodes v w" "nesting w + 2 \<le> stack"
    and "decode_size w \<le> GGCONFIGD_MAX_OBJECT_DECODE_BYTES"
  shows "rpc_read strtod stack ops params h s = ggl_respond ops h w s \<and> read_at (stored (db_of s)) p w"
proof -
  let ?alloc = "Some (ggl_bump_alloc_init (replicate GGCONFIGD_MAX_OBJECT_DECODE_BYTES 0))"
  have ok: "config_initialized (db_of s)" "db_inv (config_database (db_of s))" "ConfigStore.room 0 (config_database (db_of s))"
    "sql_faults (db_of s) = []" "complete (stored (db_of s))" "length (keyTable (config_database (db_of s))) \<le> stack"
    using assms(3) by (simp_all add: config_ok_def ConfigStore.room_def)
  note rd = ggconfig_read_node [OF ok(1-3) assms(2) ok(4-6) assms(4), folded v_def, OF assms(6)]
  have db: "in_db (ggconfig_get_value_from_key stack p) s = (Ret v, s)"
    using rd(1) by (simp add: in_db_def on_world_def)
  obtain a where "decode_object_destructive strtod stack v ?alloc = Ret (GGL_ERR_OK, w, a)"
    using decodes_decode [OF assms(7), of strtod stack] assms(8) decode_memory_room [OF assms(9)] unfolding decodes_to_def by blast
  with db have "rpc_read strtod stack ops params h s = ggl_respond ops h w s"
    using assms(1) by (simp add: rpc_read_def key_path_param_def ggl_map_get_map_of type_check_bufs path_ok_prints [OF assms(2)] io_bind_def)
  with decodes_read_at [OF rd(2) assms(7)] show ?thesis by simp
qed


section \<open>What is written is read back\<close>

lemma write_spec_other:
  "write_spec c p x t = Some c' \<Longrightarrow> q \<noteq> p \<Longrightarrow> c q = Some (Some y) \<Longrightarrow> c' q = Some (Some y)"
  by (auto simp: write_spec_def split: option.splits if_splits)

lemma write_spec_old:
  "write_spec c p x t = Some c' \<Longrightarrow> q \<noteq> p \<Longrightarrow> c' q = Some (Some y) \<Longrightarrow> c q = Some (Some y)"
  by (auto simp: write_spec_def split: option.splits if_splits)

lemma write_spec_at:
  "write_spec c p x t = Some c' \<Longrightarrow> (\<And>y t'. c p = Some (Some (y, t')) \<Longrightarrow> t' \<le> t) \<Longrightarrow> c' p = Some (Some (x, t))"
  by (fastforce simp: write_spec_def split: option.splits if_splits)

lemma merge_keeps:
  "fst (merge fmt t c ws) \<Longrightarrow> q \<notin> fst ` set ws \<Longrightarrow> c q = Some (Some y) \<Longrightarrow> snd (merge fmt t c ws) q = Some (Some y)"
  by (induction ws arbitrary: c) (auto split: option.splits dest: write_spec_other)

lemma merge_stores:
  assumes "fst (merge fmt t c ws)" "distinct (map fst ws)" "(q, x) \<in> set ws" "\<And>y t'. c q = Some (Some (y, t')) \<Longrightarrow> t' \<le> t"
  shows "snd (merge fmt t c ws) q = Some (Some (json fmt x, t))"
  using assms
proof (induction ws arbitrary: c)
  case (Cons w ws)
  from Cons.prems(1) obtain c' where c': "write_spec c (fst w) (json fmt (snd w)) t = Some c'" "fst (merge fmt t c' ws)"
    by (auto split: option.splits)
  show ?case
  proof (cases "w = (q, x)")
    case True
    with Cons.prems(2) have "q \<notin> fst ` set ws" by auto
    from merge_keeps [OF c'(2) this] write_spec_at [OF c'(1)] c'(1) Cons.prems(4) True show ?thesis by fastforce
  next
    case False
    then have "(q, x) \<in> set ws" "q \<noteq> fst w" using Cons.prems(2,3) by (auto simp: image_iff)
    with Cons.IH [OF c'(2)] Cons.prems(2,4) write_spec_old [OF c'(1)] c'(1) show ?thesis by fastforce
  qed
qed simp

lemma leaves_not_map: "(q, x) \<in> set (leaves p pairs) \<Longrightarrow> \<not> is_map x"
proof (induction p pairs rule: leaves.induct)
  case (2 p key val pairs)
  then show ?case by (cases val) auto
qed simp

lemma value_leaves_not_map: "(q, x) \<in> set (value_leaves p val) \<Longrightarrow> \<not> is_map x"
  by (cases val) (auto simp: value_leaves_def leaves_not_map)

lemma view_Some_node: "view db q = Some x \<Longrightarrow> \<exists>k. node db q = Some (Some k)"
  by (auto simp: view_def split: option.splits)

lemma rpc_read_leaf:
  assumes "config_ok stack 0 (db_of s)" "path_ok q" "stored (db_of s) q = Some (Some (json fmt x, t))"
    and "plain x" "\<not> is_map x" "length (json fmt x) < 1024" "nesting x + 2 \<le> stack" "json_size x \<le> GGCONFIGD_MAX_OBJECT_DECODE_BYTES"
  shows "rpc_read strtod stack ops [(GGL_STR ''key_path'', OBJ_LIST (map OBJ_BUF q))] h s = ggl_respond ops h x s"
proof -
  let ?db = "config_database (db_of s)"
  from view_Some_node [OF assms(3)] obtain k where k: "node ?db q = Some (Some k)" by blast
  have "map_of (valueTable ?db) k = Some (json fmt x, t)" using view_key [OF k] assms(3) by simp
  moreover obtain n where "stack = Suc n" using assms(7) by (cases stack) auto
  ultimately have v: "subtree stack ?db k = OBJ_BUF (json fmt x)" by simp
  have "decodes (subtree stack ?db k) x" unfolding v by (rule decodes_leaf [OF json_value_text [OF assms(4)] assms(5)])
  moreover have "copy_size (subtree stack ?db k) \<le> length key_value_memory" using assms(6) by (simp add: v key_value_memory_def)
  moreover have "decode_size x = json_size x" using assms(5) by (cases x) simp_all
  ultimately show ?thesis using rpc_read_node [OF _ assms(2,1) k _ _ assms(7)] assms(8) by simp
qed

text \<open>C15: Once a request to write a value, or a map of values, has been acknowledged, a request to read the path of any of
  its leaves is answered with the object that was written there. This holds for leaves without doubles, whose strings are
  printable ASCII and whose text and decoded size are within the limits of the daemon, if no value with a newer timestamp was
  stored at the path, and while the database does not fail.\<close>

theorem written_value_is_read:
  assumes "write_params params p val" "value_depth_ok p val" "\<forall>w\<in>set (value_leaves p val). leaf_ok fmt w \<and> plain (snd w)"
    and "distinct (map fst (value_leaves p val))" "config_ok stack (path_lengths (value_leaves p val)) (db_of s)"
    and "fst (merge fmt (write_timestamp now (map_of params (GGL_STR ''timestamp''))) (stored (db_of s)) (value_leaves p val))"
    and "(q, x) \<in> set (value_leaves p val)" "nesting x + 2 \<le> stack" "json_size x \<le> GGCONFIGD_MAX_OBJECT_DECODE_BYTES"
    and "\<And>y t. stored (db_of s) q = Some (Some (y, t)) \<Longrightarrow> t \<le> write_timestamp now (map_of params (GGL_STR ''timestamp''))"
  shows "\<exists>db. rpc_write fmt now ops params h s = ggl_respond ops h OBJ_NULL (with_db db s) \<and>
    (\<forall>s'. db_of s' = db \<longrightarrow>
       rpc_read strtod stack ops [(GGL_STR ''key_path'', OBJ_LIST (map OBJ_BUF q))] h' s' = ggl_respond ops h' x s')"
proof -
  let ?t = "write_timestamp now (map_of params (GGL_STR ''timestamp''))"
  have ws: "\<forall>w\<in>set (value_leaves p val). leaf_ok fmt w" "leaf_ok fmt (q, x)" "plain x" using assms(3,7) by auto
  have n: "config_ok stack (path_lengths (value_leaves p val) + 0) (db_of s)" using assms(5) by simp
  from rpc_write_merge [OF assms(1,2) ws(1) n, of now ops h] assms(6) obtain db where
    db: "config_ok stack 0 db" "stored db = snd (merge fmt ?t (stored (db_of s)) (value_leaves p val))"
    "rpc_write fmt now ops params h s = ggl_respond ops h OBJ_NULL (with_db db s)" by auto
  have st: "stored db q = Some (Some (json fmt x, ?t))" unfolding db(2) by (rule merge_stores [OF assms(6,4,7,10)])
  have "rpc_read strtod stack ops [(GGL_STR ''key_path'', OBJ_LIST (map OBJ_BUF q))] h' s' = ggl_respond ops h' x s'"
    if "db_of s' = db" for s'
    using rpc_read_leaf [of stack s' q fmt x ?t] that db(1) st ws(2,3) value_leaves_not_map [OF assms(7)] assms(8,9)
    by (simp add: leaf_ok_def)
  with db(3) show ?thesis by blast
qed

section \<open>Maps that are too deep\<close>

text \<open>C20: A map that is written at a path of the greatest depth is acknowledged, but its value is stored at the path itself:
  that there is no room for the key of the value is not looked at.\<close>

theorem deep_map_is_misplaced:
  assumes "write_params params p (OBJ_MAP [(key, x)])" "length p = GGL_MAX_OBJECT_DEPTH" "\<not> is_map x"
    and "path_ok p" "length (json fmt x) < 1024" "config_ok lim (length p) (db_of s)" "stored (db_of s) p = None"
    and "\<And>q. prefix q p \<Longrightarrow> stored (db_of s) q = None"
  shows "\<exists>db. rpc_write fmt now ops params h s = ggl_respond ops h OBJ_NULL (with_db db s) \<and>
    stored db p = Some (Some (json fmt x, write_timestamp now (map_of params (GGL_STR ''timestamp''))))"
proof -
  let ?t = "write_timestamp now (map_of params (GGL_STR ''timestamp''))"
  have full: "snd (ggl_obj_vec_push (path_vec p) (OBJ_BUF key)) = path_vec p"
    using assms(2) by (simp add: ggl_obj_vec_push_def vec_push_def)
  obtain r db where run: "process_nonmap fmt (path_vec p) x ?t (db_of s) = (r, db)" by fastforce
  from process_nonmap_ok [OF _ assms(4,5) _ run, of lim 0] assms(6)
  have "outcome (write_spec (stored (db_of s)) p (json fmt x) ?t) (stored (db_of s)) () r (stored db)" by simp
  moreover have "write_spec (stored (db_of s)) p (json fmt x) ?t \<noteq> None"
    using assms(7,8) by (auto simp: write_spec_def)
  ultimately have r: "r = Ret ()" "stored db p = Some (Some (json fmt x, ?t))"
    using write_spec_at [of "stored (db_of s)" p "json fmt x" ?t] assms(7) by (auto simp: outcome_def)
  have "process_value fmt (path_vec p) (OBJ_MAP [(key, x)]) ?t (db_of s) = (Ret (), db)"
    using run r(1) assms(3) by (cases x) (simp_all add: process_value_def full io_bind_def)
  then have "in_db (process_value fmt (path_vec p) (OBJ_MAP [(key, x)]) ?t) s = (Ret (), with_db db s)" by (rule in_db_eq)
  then have "rpc_write fmt now ops params h s = ggl_respond ops h OBJ_NULL (with_db db s)"
    using assms(2) by (simp add: rpc_write_valid [OF assms(1)] io_bind_def)
  with r(2) show ?thesis by blast
qed

section \<open>Witnesses\<close>

definition config_server :: "config_db \<Rightarrow> (unit \<times> config_db) bus_server" where
  "config_server db = \<lparr>srv_pool = example_pool, client_request_types = [GGL_CORE_BUS_CALL], subscription_cleanup = [None],
     current_handle = 1, srv_world = ((), db)\<rparr>"

lemma config_server_simps [simp]:
  "srv_world (config_server db) = ((), db)" "(config_server db)\<lparr>srv_world := (u, db')\<rparr> = config_server db'"
  by (simp_all add: config_server_def)

definition example_write :: "buffer list \<Rightarrow> GglObject \<Rightarrow> GglMap" where
  "example_write p val = [(GGL_STR ''key_path'', OBJ_LIST (map OBJ_BUF p)), (GGL_STR ''value'', val), (GGL_STR ''timestamp'', OBJ_I64 5)]"

lemma example_write_params: "write_params (example_write p val) p val"
  "write_timestamp now (map_of (example_write p val) (GGL_STR ''timestamp'')) = 5"
  by (simp_all add: write_params_def example_write_def write_timestamp_def GGL_STR_def)

lemma empty_config_store: "lim < 2 ^ 31 \<Longrightarrow> n \<le> lim \<Longrightarrow> config_ok lim n empty_config"
  using empty_config_ok by (simp add: config_ok_def complete_def) (simp add: empty_config_def create_database_def)

lemma example_leaves:
  "value_leaves [[1]] (OBJ_MAP [([2], OBJ_BOOL True)]) = [([[1], [2]], OBJ_BOOL True)]"
  "value_depth_ok [[1]] (OBJ_MAP [([2], OBJ_BOOL True)])" "leaf_ok (\<lambda>_. []) ([[1], [2]], OBJ_BOOL True)"
  by (simp_all add: value_leaves_def value_depth_ok_def leaf_ok_def path_ok_def short_path GGL_MAX_OBJECT_DEPTH_def GGL_STR_def)

lemma example_merge:
  "merge (\<lambda>_. []) 5 (stored empty_config) [([[1], [2]], OBJ_BOOL True)] =
    (True, \<lambda>q. if q = [[1], [2]] then Some (Some (GGL_STR ''true'', 5)) else if q = [[1]] then Some None else None)"
  by (auto simp: write_spec_def empty_config_ok(5) prefix_def append_eq_Cons_conv Cons_eq_append_conv)

theorem rpc_write_merges_witness:
  "\<forall>ops. \<exists>db. stored db [[1], [2]] = Some (Some (GGL_STR ''true'', 5)) \<and>
     rpc_write (\<lambda>_. []) (0, 0) ops (example_write [[1]] (OBJ_MAP [([2], OBJ_BOOL True)])) 1 (config_server empty_config) =
     ggl_respond ops 1 OBJ_NULL (config_server db)"
proof
  fix ops :: "(unit \<times> config_db) socket_ops"
  have "config_ok 2 (path_lengths [([[1], [2]], OBJ_BOOL True)]) (db_of (config_server empty_config))"
    by (simp add: empty_config_store)
  with rpc_write_merges [OF example_write_params(1), of "[[1]]" "OBJ_MAP [([2], OBJ_BOOL True)]" "\<lambda>_. []" 2
      "config_server empty_config" "(0, 0)" ops 1] example_merge
  obtain db where "stored db = (\<lambda>q. if q = [[1], [2]] then Some (Some (GGL_STR ''true'', 5)) else if q = [[1]] then Some None else None)"
    "rpc_write (\<lambda>_. []) (0, 0) ops (example_write [[1]] (OBJ_MAP [([2], OBJ_BOOL True)])) 1 (config_server empty_config) =
     ggl_respond ops 1 OBJ_NULL (config_server db)"
    by (auto simp: example_leaves example_write_params Let_def)
  then show "\<exists>db. stored db [[1], [2]] = Some (Some (GGL_STR ''true'', 5)) \<and>
     rpc_write (\<lambda>_. []) (0, 0) ops (example_write [[1]] (OBJ_MAP [([2], OBJ_BOOL True)])) 1 (config_server empty_config) =
     ggl_respond ops 1 OBJ_NULL (config_server db)"
    by (intro exI [of _ db]) simp
qed

theorem written_value_is_read_witness:
  "\<forall>ops. \<exists>db. rpc_write (\<lambda>_. []) (0, 0) ops (example_write [[1]] (OBJ_MAP [([2], OBJ_BOOL True)])) 1 (config_server empty_config) =
       ggl_respond ops 1 OBJ_NULL (config_server db) \<and>
     rpc_read (\<lambda>_. None) 2 ops [(GGL_STR ''key_path'', OBJ_LIST (map OBJ_BUF [[1], [2]]))] 1 (config_server db) =
       ggl_respond ops 1 (OBJ_BOOL True) (config_server db)"
proof
  fix ops :: "(unit \<times> config_db) socket_ops"
  let ?v = "OBJ_MAP [([2], OBJ_BOOL True)]"
  have "config_ok 2 (path_lengths [([[1], [2]], OBJ_BOOL True)]) (db_of (config_server empty_config))"
    by (simp add: empty_config_store)
  moreover have "stored (db_of (config_server empty_config)) [[1], [2]] = None"
    by (simp add: empty_config_ok(5))
  ultimately have "\<exists>db. rpc_write (\<lambda>_. []) (0, 0) ops (example_write [[1]] ?v) 1 (config_server empty_config) =
       ggl_respond ops 1 OBJ_NULL (with_db db (config_server empty_config)) \<and>
     (\<forall>s'. db_of s' = db \<longrightarrow> rpc_read (\<lambda>_. None) 2 ops [(GGL_STR ''key_path'', OBJ_LIST (map OBJ_BUF [[1], [2]]))] 1 s' =
       ggl_respond ops 1 (OBJ_BOOL True) s')"
    using example_merge
    by (intro written_value_is_read [OF example_write_params(1)])
      (simp_all add: example_leaves example_write_params GGCONFIGD_MAX_OBJECT_DECODE_BYTES_def nesting.simps)
  then show "\<exists>db. rpc_write (\<lambda>_. []) (0, 0) ops (example_write [[1]] ?v) 1 (config_server empty_config) =
       ggl_respond ops 1 OBJ_NULL (config_server db) \<and>
     rpc_read (\<lambda>_. None) 2 ops [(GGL_STR ''key_path'', OBJ_LIST (map OBJ_BUF [[1], [2]]))] 1 (config_server db) =
       ggl_respond ops 1 (OBJ_BOOL True) (config_server db)"
    by auto
qed

lemma one_key_store:
  "config_ok 2 0 (one_key n x)"
  "subtree 2 (config_database (one_key n x)) 1 = OBJ_BUF x"
proof -
  have "view (config_database (one_key n x)) p = (if p = [n] then Some (Some (x, 0)) else None)" for p
    by (simp add: view_def one_key_ok) (simp add: one_key_def)
  then have "complete (stored (one_key n x))" by (simp add: complete_def)
  with one_key_ok(1-3) [of n x] show "config_ok 2 0 (one_key n x)"
    by (simp add: config_ok_def) (simp add: one_key_def)
  show "subtree 2 (config_database (one_key n x)) 1 = OBJ_BUF x" by (simp add: numeral_2_eq_2 one_key_def)
qed

lemma true_text: "value_text (OBJ_BOOL True) (GGL_STR ''true'')"
  using json_value_text [of "OBJ_BOOL True" "\<lambda>_. []"] by simp


theorem deep_map_is_misplaced_witness:
  "\<forall>ops. \<exists>db. rpc_write (\<lambda>_. []) (0, 0) ops (example_write (replicate 15 [1]) (OBJ_MAP [([2], OBJ_BOOL True)])) 1 (config_server empty_config) =
       ggl_respond ops 1 OBJ_NULL (config_server db) \<and> stored db (replicate 15 [1]) = Some (Some (GGL_STR ''true'', 5))"
proof
  fix ops :: "(unit \<times> config_db) socket_ops"
  let ?p = "replicate 15 [1] :: buffer list"
  have "path_ok ?p" by (rule path_ok_short) (simp_all add: GGL_MAX_OBJECT_DEPTH_def printed_length_def sum_list_replicate)
  moreover have "config_ok 15 (length ?p) (db_of (config_server empty_config))" by (simp add: empty_config_store)
  ultimately show "\<exists>db. rpc_write (\<lambda>_. []) (0, 0) ops (example_write ?p (OBJ_MAP [([2], OBJ_BOOL True)])) 1 (config_server empty_config) =
       ggl_respond ops 1 OBJ_NULL (config_server db) \<and> stored db ?p = Some (Some (GGL_STR ''true'', 5))"
    using deep_map_is_misplaced [of "example_write ?p (OBJ_MAP [([2], OBJ_BOOL True)])" ?p "[2]" "OBJ_BOOL True" "\<lambda>_. []" 15
        "config_server empty_config" "(0, 0)" ops 1] example_write_params(1) [of ?p "OBJ_MAP [([2], OBJ_BOOL True)]"]
    by (simp add: empty_config_ok(5) example_write_params(2) GGL_MAX_OBJECT_DEPTH_def) (simp add: GGL_STR_def)
qed

end
