(* ===== verification/Spec2Isabelle.thy ===== *)
theory Spec2Isabelle
  imports GglObject EventstreamDecode ObjectSerde CoreBusSubscribe DeploymentQueue ConfigBus
begin

text \<open>
  \<^bold>\<open>AWS Greengrass Lite: a verification library.\<close>

  The program is a set of daemons that run components on a constrained device. They call each other
  over the \<^emph>\<open>core bus\<close>: a client connects to the socket of a daemon, sends one request and reads the
  response, or keeps the connection as a subscription. Requests and responses are EventStream packets
  whose payload is a serialized object. This development models, bottom up, the common library, the
  packet format, the serialization of objects, JSON, the socket pool and the event loop, both sides of the core
  bus, and, of the daemons on it, the queue of deployments and the configuration daemon. The last section composes
  them: a call of a client, the server, the handler, the database and the decoder, with each side reading the bytes
  that the other has written.

  \<^bold>\<open>Conventions.\<close> A buffer is the list of its bytes (\<open>8 word\<close>); a buffer that a routine writes to is
  returned updated. \<open>'a res\<close> is what a fallible routine gives: \<open>Ret\<close> the value, \<open>Fail\<close> an error code,
  \<open>Abort\<close> a failed assertion or an access out of range. Lengths are natural numbers; arithmetic on
  \<^verbatim>\<open>size_t\<close> that can wrap is written with \<open>size_add\<close> and \<open>size_sub\<close>. A routine with effects is a function
  on an explicit state, \<open>('s, 'a) io\<close>. System calls and libraries are parameters: a record of operations
  (\<open>socket_ops\<close>, \<open>listen_ops\<close>), or a list of outcomes that the environment chooses. Theorems hold for all of them.

  \<^bold>\<open>Theories, in the order of the code.\<close>

  \<^item> \<open>GglPrelude\<close>: results, errors (\<^verbatim>\<open>ggl-lib/include/ggl/error.h\<close>), sizes, memory regions; the named
    collections \<open>res_simps\<close> and \<open>mem_simps\<close>. \<open>GglState\<close>: routines on a state and how they are composed
    (sequence, cleanup, cleanup on error, ignored result), with \<open>io_simps\<close>.
  \<^item> \<open>GglBuffer\<close> (\<^verbatim>\<open>ggl-lib/src/buffer.c\<close>): comparison, substrings, and the decimal parser, which
    accepts exactly the numerals of 64-bit integers.
  \<^item> \<open>GglAlloc\<close> (\<^verbatim>\<open>arena.c\<close>, \<^verbatim>\<open>bump_alloc.c\<close>): both allocators are interpretations of the locale
    \<open>region_allocator\<close>, whose laws give that regions are at aligned offsets, in range and disjoint. An arena aligns offsets, not
    addresses: these are aligned if the memory of the arena is.
  \<^item> \<open>GglObject\<close> (\<^verbatim>\<open>object.h\<close>, \<^verbatim>\<open>map.c\<close>, \<^verbatim>\<open>list.c\<close>, \<^verbatim>\<open>vector.c\<close>): objects, schema validation, and the bounded vectors,
    interpretations of the locale \<open>bounded_append\<close>. \<open>ObjectCopy\<close> (\<^verbatim>\<open>object.c\<close>): deep copies into an
    allocator, as references to its memory; a copy reads back as the original and fails only for lack of
    memory.
  \<^item> \<open>Crc32\<close> (\<^verbatim>\<open>eventstream/src/crc32.c\<close>): the table-driven checksum is the bit-serial one; the
    incremental use of it is the locale \<open>running_checksum\<close>.
  \<^item> \<open>EventstreamEncode\<close>, \<open>EventstreamDecode\<close> (\<^verbatim>\<open>eventstream/src/encode.c\<close>, \<^verbatim>\<open>decode.c\<close>, \<^verbatim>\<open>rpc.c\<close>): the encoder
    succeeds exactly within the limits of the format, decoding is its inverse, changes to a byte are
    detected, and no input makes the decoder read out of range.
  \<^item> \<open>ByteCodec\<close>, \<open>ObjectSerde\<close> (\<^verbatim>\<open>core-bus/src/object_serde.c\<close>): the two loops over an explicit stack
    of nesting levels are related to the recursive encoding of an object; the round trip and its converse.
    The fixed-width fields are interpretations of the locale \<open>fixed_codec\<close>.
  \<^item> \<open>GglFile\<close> (\<^verbatim>\<open>ggl-file/src/file.c\<close>): whole-buffer transfers over a stream that system calls cut
    arbitrarily.
  \<^item> \<open>SocketPool\<close> (\<^verbatim>\<open>ggl-socket/src/socket_handle.c\<close>): the pool refines a map from handles to descriptors, the
    locale \<open>handle_table\<close>; handles that were released stay invalid for 65535 further releases, after which
    the 16-bit generation repeats. \<open>GglIo\<close>: transfers through a handle.
  \<^item> \<open>CoreBusClient\<close>, \<open>CoreBusServer\<close>, \<open>CoreBusSubscribe\<close> (\<^verbatim>\<open>core-bus/src/client*.c\<close>, \<^verbatim>\<open>server.c\<close>,
    \<^verbatim>\<open>ggl-socket/src/socket_server.c\<close>, \<^verbatim>\<open>socket_epoll.c\<close>): what one side sends arrives at the other; errors
    arrive as errors; connections are closed on every path; the server keeps its invariant through the
    event loop for any client.
  \<^item> \<open>JsonEncode\<close>, \<open>JsonParse\<close>, \<open>JsonDecode\<close>, \<open>JsonText\<close> (\<^verbatim>\<open>ggl-json/src/json_encode.c\<close>, \<^verbatim>\<open>json_decode.c\<close>): the
    encoder writes the text of an object or reports that the buffer is too short; the parser combinators with the
    grammar, whose reads are checked against the memory; the decoder, which unescapes in place and is safe on every
    input without escapes of code units that is followed by a byte that ends a number; on every ASCII text of an object
    without doubles and such escapes it gives that object, and so reads back what the encoder wrote. Characters beyond
    ASCII are refused, an escape of a code unit overwrites the rest of its string, and a double at the end of a
    text is read beyond it, which are three errors of the source.
  \<^item> \<open>DeploymentQueue\<close> (\<^verbatim>\<open>ggdeploymentd/src/deployment_queue.c\<close>): the ring of slots refines a list of
    deployments. Releasing the head is two steps without the lock: no deployment starves if no client enqueues
    between them, and one can be lost if a client does. A failed enqueue leaves an entry behind.
  \<^item> \<open>ConfigStore\<close> (\<^verbatim>\<open>ggconfigd/src/db_interface.c\<close> and \<^verbatim>\<open>src/sql\<close>): the tables are a tree whatever the
    database fails at; a write refines the update of a map from paths to values; a read returns what is
    stored; long paths overflow the string that is printed for the log. \<open>ConfigHistory\<close>: sequences of operations on the
    store; subscribers are notified of every later write; a write of a new key whose last statement fails is
    acknowledged and lost.
  \<^item> \<open>ConfigBus\<close> (\<^verbatim>\<open>ggconfigd/src/db_corebus.c\<close>): the handlers of the configuration daemon. A request to write merges the
    leaves of the value into the map from paths to texts; a request to read is answered with the decoded objects; what
    was written is read back; a map below the greatest depth ends up at the wrong key.

  \<^bold>\<open>Bounds.\<close> Loops whose number of turns the input bounds are total functions with a measure. The event
  loop runs over the list of outcomes of its waits, of any length. The recursion that reads the
  configuration has a parameter for the depth of the stack; the number of keys is enough, since a key has a
  larger identifier than its parent. The parser and the decoder of JSON have a parameter for the stack as well: three
  more than the length of the text is always enough, and two more than the nesting of the object for a text of it. What
  \<^verbatim>\<open>printf\<close> and \<^verbatim>\<open>strtod\<close> do with doubles are parameters; which bytes \<^verbatim>\<open>strtod\<close> looks at is modelled. Waiting for another thread is the value \<open>None\<close>. The identifiers of
  keys are read with 32 bits, so the theorems on the store ask for fewer than \<open>2 ^ 31\<close> keys.

  \<^bold>\<open>Not modelled.\<close> The daemons other than the two above; YAML, whose parser is a library, and with it the loading of
  configuration files; the versions of components; process, file-system and network code beyond the transfers; threads,
  other than by the atomicity that a mutex gives and the interleaving of the deployment thread with its clients; the
  statements that begin, end and roll back a transaction are taken to succeed. These
  are mostly calls to libraries and to the operating system, or string templates, with little state of their own.
\<close>

section \<open>The configuration over the bus\<close>

lemma read_desc:
  "find (\<lambda>d. desc_name d = GGL_STR ''read'') (config_handlers strtod fmt stack now ops) =
    Some \<lparr>desc_name = GGL_STR ''read'', is_subscription = False, desc_handler = rpc_read strtod stack ops\<rparr>"
  by (simp add: config_handlers_def)

text \<open>What has been written to a descriptor, of the state of the sockets: a successful write appends its bytes, and the other
  calls leave it as it is.\<close>

definition records :: "'w socket_ops \<Rightarrow> int \<Rightarrow> ('w \<Rightarrow> buffer) \<Rightarrow> bool" where
  "records ops fd sent \<longleftrightarrow>
     (\<forall>buf w w'. sock_write ops fd buf w = (Ret (), w') \<longrightarrow> sent w' = sent w @ buf) \<and>
     (\<forall>n w. sent (snd (sock_read ops fd n w)) = sent w) \<and>
     (\<forall>path w. sent (snd (sock_connect ops path w)) = sent w) \<and>
     (\<forall>w. sent (sock_close ops fd w) = sent w)"

lemma records_delivers:
  assumes "records ops fd sent" "delivers (sock_read ops fd) pkt w w'"
  shows "sent w' = sent w"
proof -
  from assms(2) obtain w1 where "sock_read ops fd 12 w = (Ret (take 12 pkt), w1)"
    "sock_read ops fd (length pkt - 12) w1 = (Ret (drop 12 pkt), w')" by (auto simp: delivers_def)
  with assms(1) show ?thesis unfolding records_def by (metis snd_conv)
qed

lemma request_sent:
  assumes "ggl_client_send_message ops interface type name params w0 = (Ret conn, w)" "records ops conn sent"
  obtains pkt where "request_packet type name params = Ret pkt" "sent w = sent w0 @ pkt"
proof -
  from assms(1) obtain w1 pkt where path: "socket_path interface \<noteq> Abort"
    and conn: "interface_connect ops interface w0 = (Ret conn, w1)"
    and pkt: "request_packet type name params = Ret pkt" and wr: "sock_write ops conn pkt w1 = (Ret (), w)"
    by (auto simp: ggl_client_send_message_def interface_connect_def io_on_error_def io_bind_def io_res_def
        split: res.splits prod.splits)
  from conn have "sent w1 = sent w0" using assms(2) unfolding records_def interface_connect_def io_bind_def io_res_def
    by (auto split: res.splits prod.splits) (metis snd_conv)
  with wr assms(2) have "sent w = sent w0 @ pkt" unfolding records_def by metis
  with pkt show thesis by (rule that)
qed

lemma server_close_world:
  assumes "validate_handle (srv_pool s) h = Ret i" "subscription_cleanup s ! i = None"
  shows "\<exists>s'. server_close ops h s = (Ret (), s') \<and> current_handle s' = current_handle s \<and>
    srv_world s' = sock_close ops (fds (srv_pool s) ! i) (srv_world s)"
  using assms by (simp add: server_close_def ggl_socket_pool_release_def run_callback_def close_subscription_def Let_def)

lemma run_responding_handler:
  assumes "validate_handle (srv_pool s) h = Ret i" "client_request_types s ! i = GGL_CORE_BUS_CALL"
    and "desc_handler desc params h (set_current_handle h s) = ggl_respond ops h val (set_current_handle h s)"
    and "eventstream_encode payload_array None (ggl_serialize_reader val) = Ret pkt"
    and "sock_write ops (fds (srv_pool s) ! i) pkt (srv_world s) = (Ret (), w)" "subscription_cleanup s ! i = None"
  shows "\<exists>s'. run_handler ops desc params h s = (Ret (), s') \<and> srv_world s' = sock_close ops (fds (srv_pool s) ! i) w"
proof -
  let ?s = "set_current_handle h s"
  have s: "srv_pool ?s = srv_pool s" "client_request_types ?s = client_request_types s" "srv_world ?s = srv_world s"
    "current_handle ?s = h" "subscription_cleanup ?s = subscription_cleanup s" by (simp_all add: set_current_handle_def)
  have "ggl_respond ops h val ?s = (Ret (), cleanup_current_handle h (snd (server_close ops h (?s\<lparr>srv_world := w\<rparr>))))"
    by (rule ggl_respond_call [where i = i]) (use assms s in simp_all)
  moreover from server_close_world [of "?s\<lparr>srv_world := w\<rparr>" h i ops] assms(1,6) s obtain s' where
    "server_close ops h (?s\<lparr>srv_world := w\<rparr>) = (Ret (), s')" "current_handle s' = h"
    "srv_world s' = sock_close ops (fds (srv_pool s) ! i) w" by auto
  ultimately show ?thesis using assms(3)
    by (simp add: run_handler_def cleanup_current_handle_def clear_current_handle_def res_assert_def)
qed

text \<open>What the daemon writes when it gets the request to read a path with a value.\<close>

lemma config_answer:
  assumes "request_packet GGL_CORE_BUS_CALL (GGL_STR ''read'') params = Ret request"
    and "params = [(GGL_STR ''key_path'', OBJ_LIST (map OBJ_BUF p))]"
    and "need (OBJ_MAP params) \<le> length payload_deserialize_mem"
    and "validate_handle (srv_pool s) h = Ret i" "i < length (client_request_types s)" "subscription_cleanup s ! i = None"
    and "delivers (sock_read ops (fds (srv_pool s) ! i)) request (srv_world s) w" "snd w = db_of s"
    and "path_ok p" "config_ok stack 0 (db_of s)" "stored (db_of s) p = Some (Some (json fmt x, t))"
    and "plain x" "\<not> is_map x" "length (json fmt x) < 1024" "nesting x + 2 \<le> stack" "json_size x \<le> GGCONFIGD_MAX_OBJECT_DECODE_BYTES"
    and "eventstream_encode payload_array None (ggl_serialize_reader x) = Ret response"
    and "sock_write ops (fds (srv_pool s) ! i) response w = (Ret (), w')"
    and "records ops (fds (srv_pool s) ! i) sent"
  shows "\<exists>s'. client_ready ops (config_handlers strtod fmt stack now ops) h s = (Ret (), s') \<and>
    sent (srv_world s') = sent (srv_world s) @ response"
proof -
  let ?s = "s\<lparr>srv_world := w, client_request_types := (client_request_types s)[i := GGL_CORE_BUS_CALL]\<rparr>"
  let ?d = "\<lparr>desc_name = GGL_STR ''read'', is_subscription = False, desc_handler = rpc_read strtod stack ops\<rparr>"
  have c: "client_ready ops (config_handlers strtod fmt stack now ops) h s = run_handler ops ?d params h ?s"
    by (rule request_handled [OF assms(1,3,4,7) read_desc]) simp
  have "db_of (set_current_handle h ?s) = db_of s" using assms(8) by (simp add: set_current_handle_def)
  then have "rpc_read strtod stack ops params h (set_current_handle h ?s) = ggl_respond ops h x (set_current_handle h ?s)"
    unfolding assms(2) by (intro rpc_read_leaf [where t = t and fmt = fmt]) (use assms(9-16) in simp_all)
  then have "\<exists>s'. run_handler ops ?d params h ?s = (Ret (), s') \<and> srv_world s' = sock_close ops (fds (srv_pool ?s) ! i) w'"
    by (intro run_responding_handler) (use assms(4-6,17,18) in simp_all)
  moreover have "sent w = sent (srv_world s)" "sent w' = sent w @ response"
    "sent (sock_close ops (fds (srv_pool s) ! i) w') = sent w'"
    using records_delivers [OF assms(19,7)] assms(18,19) unfolding records_def by blast+
  ultimately show ?thesis using c by auto
qed

text \<open>C5: A client that calls the method \<^verbatim>\<open>read\<close> of the configuration daemon for the path of a value gets the object that the
  daemon has stored. The daemon reads the bytes that the client wrote, and the client reads the bytes that the daemon wrote
  on that connection while it handled the request: with these, the daemon looks up the path, decodes the text and answers,
  and the call returns what was in the text. The value is no map, has no doubles and only printable ASCII, and the sockets
  neither fail nor change the database.\<close>

theorem config_value_reaches_caller:
  assumes "params = [(GGL_STR ''key_path'', OBJ_LIST (map OBJ_BUF p))]"
    and "need (OBJ_MAP params) \<le> length payload_deserialize_mem"
    and "path_ok p" "config_ok stack 0 (db_of s)" "stored (db_of s) p = Some (Some (json fmt x, t))"
    and "plain x" "\<not> is_map x" "length (json fmt x) < 1024" "nesting x + 2 \<le> stack" "json_size x \<le> GGCONFIGD_MAX_OBJECT_DECODE_BYTES"
    and "eventstream_encode payload_array None (ggl_serialize_reader x) = Ret response"
    and "ggl_deserialize alloc True (ser x) = Ret (obj, alloc')"
    and "ggl_client_send_message ops' (GGL_STR ''gg_config'') GGL_CORE_BUS_CALL (GGL_STR ''read'') params v0 = (Ret conn, v)"
    and "records ops' conn sent'" "sent' v0 = []"
    and "validate_handle (srv_pool s) h = Ret i" "i < length (client_request_types s)" "subscription_cleanup s ! i = None"
    and "fd = fds (srv_pool s) ! i" "delivers (sock_read ops fd) (sent' v) (srv_world s) w" "snd w = db_of s"
    and "records ops fd sent" "sent (srv_world s) = []" "\<And>buf. fst (sock_write ops fd buf w) = Ret ()"
    and "client_ready ops (config_handlers strtod fmt stack now ops) h s = (r, s')"
    and "delivers (sock_read ops' conn) (sent (srv_world s')) v v'"
  shows "r = Ret () \<and>
    ggl_call ops' (GGL_STR ''gg_config'') (GGL_STR ''read'') params alloc True v0 = (Ret (Inr (Some x)), sock_close ops' conn v')"
proof -
  from request_sent [OF assms(13,14)] obtain request where req:
    "request_packet GGL_CORE_BUS_CALL (GGL_STR ''read'') params = Ret request" "sent' v = request" using assms(15) by auto
  from assms(24) [of response] obtain w' where "sock_write ops fd response w = (Ret (), w')" by (metis prod.collapse)
  then have "\<exists>s'. client_ready ops (config_handlers strtod fmt stack now ops) h s = (Ret (), s') \<and>
    sent (srv_world s') = sent (srv_world s) @ response"
    using assms(19,20,22) req(2)
    by (intro config_answer [OF req(1) assms(1,2,16-18) _ assms(21) assms(3-11)]) simp_all
  then have r: "r = Ret ()" "sent (srv_world s') = response" using assms(23,25) by auto
  from assms(11) have "obj_ok 1 x" "bus_message [] (ser x)" "response = packet [] (ser x)" by (auto simp: bus_message_response)
  with ggl_call_response [OF assms(13) this(1,2), of v' True alloc] assms(12,26) r show ?thesis by simp
qed

text \<open>Sockets beside a database.\<close>

definition beside :: "('v, 'a) io \<Rightarrow> ('v \<times> 'd, 'a) io" where
  "beside m w = (case m (fst w) of (r, v) \<Rightarrow> (r, v, snd w))"

definition config_ops :: "(stream_world \<times> config_db) socket_ops" where
  "config_ops =
     \<lparr>sock_connect = (\<lambda>path. beside (sock_connect stream_ops path)),
      sock_read = (\<lambda>fd n. beside (sock_read stream_ops fd n)),
      sock_write = (\<lambda>fd buf. beside (sock_write stream_ops fd buf)),
      sock_close = (\<lambda>fd w. (sock_close stream_ops fd (fst w), snd w))\<rparr>"

lemma delivers_beside:
  assumes "delivers (sock_read stream_ops fd) pkt v v'"
  shows "delivers (sock_read config_ops fd) pkt (v, db) (v', db)"
  using assms by (auto simp: delivers_def config_ops_def beside_def)

definition daemon :: "buffer \<Rightarrow> config_db \<Rightarrow> (stream_world \<times> config_db) bus_server" where
  "daemon input db =
     \<lparr>srv_pool = example_pool, client_request_types = [GGL_CORE_BUS_CALL], subscription_cleanup = [None],
      current_handle = 0, srv_world = (\<lparr>inbox = input, outbox = [], closed_fds = []\<rparr>, db)\<rparr>"

abbreviation read_params :: GglMap where
  "read_params \<equiv> [(GGL_STR ''key_path'', OBJ_LIST (map OBJ_BUF [[1]]))]"

abbreviation read_request :: buffer where
  "read_request \<equiv> packet (headers_bytes (request_headers GGL_CORE_BUS_CALL (GGL_STR ''read''))) (ser (OBJ_MAP read_params))"

lemma read_request:
  "request_packet GGL_CORE_BUS_CALL (GGL_STR ''read'') read_params = Ret read_request"
  "need (OBJ_MAP read_params) \<le> length payload_deserialize_mem"
  by (simp_all add: request_packet_Ret bus_message_def request_headers_def header_ok_def
      header_bytes_def GGL_STR_def GGL_COREBUS_MAX_MSG_LEN_def GGL_MAX_OBJECT_DEPTH_def UINT32_MAX_def ser_buf_def
      payload_deserialize_mem_def PAYLOAD_VALUE_MAX_SUBOBJECTS_def)

lemma read_send:
  "ggl_client_send_message stream_ops (GGL_STR ''gg_config'') GGL_CORE_BUS_CALL (GGL_STR ''read'')
      read_params \<lparr>inbox = input, outbox = [], closed_fds = []\<rparr> = (Ret 3, \<lparr>inbox = input, outbox = read_request, closed_fds = []\<rparr>)"
  using read_request(1)
  by (simp add: ggl_client_send_message_def interface_connect_def socket_path_def ggl_byte_vec_append_def
      vec_append_def GGL_INTERFACE_SOCKET_PREFIX_def GGL_INTERFACE_NAME_MAX_LEN_def GGL_STR_def [of "''gg_config''"]
      GGL_STR_def [of "''/run/greengrass/''"] SIZE_MAX_def stream_ops_def io_on_error_def)

lemma stream_records:
  "records stream_ops fd outbox" "records config_ops fd (\<lambda>w. outbox (fst w))"
  by (auto simp: records_def config_ops_def beside_def stream_ops_def)

lemma config_ops_write: "fst (sock_write config_ops fd buf w) = Ret ()"
  by (simp add: config_ops_def beside_def stream_ops_def)

theorem config_value_reaches_caller_witness:
  "\<exists>s' input. client_ready config_ops (config_handlers (\<lambda>_. None) (\<lambda>_. []) 2 (0, 0) config_ops) 1
       (daemon read_request (one_key [1] (GGL_STR ''true''))) = (Ret (), s') \<and>
     input = outbox (fst (srv_world s')) \<and>
     fst (ggl_call stream_ops (GGL_STR ''gg_config'') (GGL_STR ''read'') read_params None True
       \<lparr>inbox = input, outbox = [], closed_fds = []\<rparr>) = Ret (Inr (Some (OBJ_BOOL True)))"
proof -
  let ?db = "one_key [1] (GGL_STR ''true'')" and ?r = "packet [] (ser (OBJ_BOOL True))"
  let ?s = "daemon read_request ?db" and ?w = "(\<lparr>inbox = [], outbox = [], closed_fds = []\<rparr> :: stream_world, ?db)"
  let ?v = "\<lparr>inbox = ?r, outbox = read_request, closed_fds = []\<rparr> :: stream_world"
  have enc: "eventstream_encode payload_array None (ggl_serialize_reader (OBJ_BOOL True)) = Ret ?r"
    by (simp add: bus_message_response bus_message_def GGL_COREBUS_MAX_MSG_LEN_def)
  have dec: "ggl_deserialize None True (ser (OBJ_BOOL True)) = Ret (OBJ_BOOL True, None)"
    by (simp add: ggl_deserialize_def deserialize_loop_cases deserialize_item_def read_obj_defs buf_take_def)
  have s: "validate_handle (srv_pool ?s) 1 = Ret 0" "0 < length (client_request_types ?s)" "subscription_cleanup ?s ! 0 = None"
    "fds (srv_pool ?s) ! 0 = 7" "db_of ?s = ?db" "outbox (fst (srv_world ?s)) = []"
    using example_pool_valid by (simp_all add: daemon_def)
  have "delivers (sock_read config_ops 7) read_request (srv_world ?s) ?w"
    using delivers_stream [of "\<lparr>inbox = read_request, outbox = [], closed_fds = []\<rparr>" read_request "[]" 7]
    by (auto simp: daemon_def length_packet intro!: delivers_beside)
  then have req: "delivers (sock_read config_ops (fds (srv_pool ?s) ! 0)) (outbox ?v) (srv_world ?s) ?w" "snd ?w = db_of ?s"
    unfolding s(4,5) by simp_all
  have st: "stored (db_of ?s) [[1]] = Some (Some (json (\<lambda>_. []) (OBJ_BOOL True), 0))"
    unfolding s(5) by (simp add: view_def one_key_ok) (simp add: one_key_def)
  have leaf: "path_ok [[1]]" "config_ok 2 0 (db_of ?s)" "plain (OBJ_BOOL True)" "\<not> is_map (OBJ_BOOL True)"
    "length (json (\<lambda>_. []) (OBJ_BOOL True)) < 1024" "nesting (OBJ_BOOL True) + 2 \<le> 2"
    "json_size (OBJ_BOOL True) \<le> GGCONFIGD_MAX_OBJECT_DECODE_BYTES"
    using one_key_store(1) s(5)
    by (simp_all add: path_ok_def short_path GGL_MAX_OBJECT_DEPTH_def nesting.simps GGL_STR_def [of "''true''"])
  obtain r s' where run: "client_ready config_ops (config_handlers (\<lambda>_. None) (\<lambda>_. []) 2 (0, 0) config_ops) 1 ?s = (r, s')"
    by fastforce
  obtain w' where wr: "sock_write config_ops (fds (srv_pool ?s) ! 0) ?r ?w = (Ret (), w')"
    by (metis config_ops_write prod.collapse)
  have out: "outbox (fst (srv_world s')) = ?r"
    using config_answer [OF read_request(1) refl read_request(2) s(1-3) _ req(2) leaf(1,2) st leaf(3-7) enc wr stream_records(2),
        where strtod = "\<lambda>_. None" and now = "(0, 0)"] req(1) s(6) run by simp
  have del: "delivers (sock_read stream_ops 3) (outbox (fst (srv_world s'))) ?v (?v\<lparr>inbox := []\<rparr>)"
    unfolding out by (rule delivers_stream) (simp_all add: length_packet)
  have "r = Ret () \<and> ggl_call stream_ops (GGL_STR ''gg_config'') (GGL_STR ''read'') read_params None True
       \<lparr>inbox = ?r, outbox = [], closed_fds = []\<rparr> = (Ret (Inr (Some (OBJ_BOOL True))), sock_close stream_ops 3 (?v\<lparr>inbox := []\<rparr>))"
    by (rule config_value_reaches_caller [OF refl read_request(2) leaf(1,2) st leaf(3-7) enc dec read_send stream_records(1) _
        s(1-3) refl req stream_records(2) s(6) config_ops_write run del]) simp
  with run out show ?thesis by auto
qed

end
